(* ===== verification/Kernel_Prelude.thy ===== *)
theory Kernel_Prelude
  imports Main "HOL-Library.Word"
begin

text \<open>
  Shared vocabulary of the development: machine integers, panics as values, the
  result type threaded through every operation, the overflow-checked arithmetic of
  the kernel's \<^verbatim>\<open>dev\<close> profile, and the \<^verbatim>\<open>align_down\<close>/\<^verbatim>\<open>align_up\<close> helpers that
  \<^verbatim>\<open>src/src/allocator/mod.rs\<close> and \<^verbatim>\<open>src/src/paging/heap_region.rs\<close> both define.
  A \<^verbatim>\<open>usize\<close> is a \<open>nat\<close> below \<open>usize_limit\<close>: every addition, subtraction and
  multiplication of the source goes through \<open>uadd\<close>, \<open>usub\<close>, \<open>umul\<close>, which panic where
  the compiled code does. Values the source treats bitwise are words.
\<close>

unbundle bit_operations_syntax

type_synonym u8 = "8 word"
type_synonym u16 = "16 word"
type_synonym u32 = "32 word"
type_synonym u64 = "64 word"
type_synonym usize = nat

named_theorems res_simps \<open>rules that run the result monad\<close>
named_theorems inv_intros \<open>preservation of component invariants\<close>

section \<open>Panics and results\<close>

text \<open>
  A panic ends the computation (the kernel's handler halts the machine), so a panicking
  operation has no successor state. \<open>Deadlock\<close> is a spin lock taken twice by its holder.
\<close>

datatype panic =
    ArithmeticOverflow
  | DivisionByZero
  | IndexOutOfBounds
  | UnwrapNone
  | Assertion string
  | Expectation string
  | PanicMsg string
  | NotYetImplemented
  | Deadlock

type_synonym 'a res = "panic + 'a"

definition bindR :: "'e + 'a \<Rightarrow> ('a \<Rightarrow> 'e + 'b) \<Rightarrow> 'e + 'b" where
  "bindR m f = (case m of Inl e \<Rightarrow> Inl e | Inr x \<Rightarrow> f x)"

definition guardR :: "bool \<Rightarrow> 'e \<Rightarrow> 'e + unit" where
  "guardR c e = (if c then Inr () else Inl e)"

definition unwrapR :: "'e \<Rightarrow> 'a option \<Rightarrow> 'e + 'a" where
  "unwrapR e x = (case x of None \<Rightarrow> Inl e | Some v \<Rightarrow> Inr v)"

lemma bindR_Inl [simp, res_simps]: "bindR (Inl e) f = Inl e"
  by (simp add: bindR_def)

lemma bindR_Inr [simp, res_simps]: "bindR (Inr x) f = f x"
  by (simp add: bindR_def)

lemma bindR_eq_Inr [res_simps]: "bindR m f = Inr y \<longleftrightarrow> (\<exists>x. m = Inr x \<and> f x = Inr y)"
  by (cases m) auto

lemma bindR_eq_Inl: "bindR m f = Inl e \<longleftrightarrow> m = Inl e \<or> (\<exists>x. m = Inr x \<and> f x = Inl e)"
  by (cases m) auto

lemma bindR_assoc: "bindR (bindR m f) g = bindR m (\<lambda>x. bindR (f x) g)"
  by (cases m) auto

lemma bindR_cong [fundef_cong]:
  "m = m' \<Longrightarrow> (\<And>x. m' = Inr x \<Longrightarrow> f x = f' x) \<Longrightarrow> bindR m f = bindR m' f'"
  by (cases m') auto

lemma guardR_True [simp, res_simps]: "guardR True e = Inr ()"
  by (simp add: guardR_def)

lemma guardR_False [simp, res_simps]: "guardR False e = Inl e"
  by (simp add: guardR_def)

lemma guardR_eq_Inr [simp, res_simps]: "guardR c e = Inr u \<longleftrightarrow> c"
  by (simp add: guardR_def)

lemma guardR_eq_Inl [simp]: "guardR c e = Inl x \<longleftrightarrow> \<not> c \<and> x = e"
  by (auto simp: guardR_def)

lemma unwrapR_simps [simp, res_simps]:
  "unwrapR e None = Inl e" "unwrapR e (Some v) = Inr v"
  by (simp_all add: unwrapR_def)

lemma unwrapR_eq_Inr [simp, res_simps]: "unwrapR e x = Inr v \<longleftrightarrow> x = Some v"
  by (cases x) auto

section \<open>Operations on a state that may fail\<close>

text \<open>
  A function returning \<^verbatim>\<open>Result<T, E>\<close> that mutates a state: it panics, or it ends in a new
  state with an error or a value. \<open>bindE\<close> is the \<^verbatim>\<open>?\<close> operator: an error returns early and
  keeps the state reached so far. \<open>liftE\<close> embeds a computation that may only panic, \<open>modE\<close> one
  that also changes the state.
\<close>

type_synonym ('s, 'e, 'a) op = "'s \<Rightarrow> ('s \<times> ('e + 'a)) res"

definition okE :: "'a \<Rightarrow> ('s, 'e, 'a) op" where
  "okE x = (\<lambda>s. Inr (s, Inr x))"

definition errE :: "'e \<Rightarrow> ('s, 'e, 'a) op" where
  "errE e = (\<lambda>s. Inr (s, Inl e))"

definition bindE :: "('s, 'e, 'a) op \<Rightarrow> ('a \<Rightarrow> ('s, 'e, 'b) op) \<Rightarrow> ('s, 'e, 'b) op" where
  "bindE m f = (\<lambda>s. bindR (m s) (\<lambda>(s', r). case r of Inl e \<Rightarrow> Inr (s', Inl e) | Inr x \<Rightarrow> f x s'))"

definition liftE :: "'a res \<Rightarrow> ('s, 'e, 'a) op" where
  "liftE m = (\<lambda>s. bindR m (\<lambda>x. Inr (s, Inr x)))"

definition modE :: "('s \<Rightarrow> ('s \<times> 'a) res) \<Rightarrow> ('s, 'e, 'a) op" where
  "modE f = (\<lambda>s. bindR (f s) (\<lambda>(s', x). Inr (s', Inr x)))"

lemma op_simps [simp, res_simps]:
  "okE x s = Inr (s, Inr x)"
  "errE e s = Inr (s, Inl e)"
  "liftE (Inr y) s = Inr (s, Inr y)"
  "liftE (Inl p) s = Inl p"
  by (simp_all add: okE_def errE_def liftE_def)

lemma bindE_ok: "m s = Inr (s', Inr x) \<Longrightarrow> bindE m f s = f x s'"
  by (simp add: bindE_def)

lemma bindE_err: "m s = Inr (s', Inl e) \<Longrightarrow> bindE m f s = Inr (s', Inl e)"
  by (simp add: bindE_def)

lemma bindE_panic: "m s = Inl p \<Longrightarrow> bindE m f s = Inl p"
  by (simp add: bindE_def)

lemma modE_eq: "f s = Inr (s', x) \<Longrightarrow> modE f s = Inr (s', Inr x)"
  by (simp add: modE_def)

section \<open>Checked usize arithmetic\<close>

definition usize_limit :: nat where
  "usize_limit = 2 ^ 64"

definition uadd :: "usize \<Rightarrow> usize \<Rightarrow> usize res" where
  "uadd a b = (if a + b < usize_limit then Inr (a + b) else Inl ArithmeticOverflow)"

definition usub :: "usize \<Rightarrow> usize \<Rightarrow> usize res" where
  "usub a b = (if b \<le> a then Inr (a - b) else Inl ArithmeticOverflow)"

definition umul :: "usize \<Rightarrow> usize \<Rightarrow> usize res" where
  "umul a b = (if a * b < usize_limit then Inr (a * b) else Inl ArithmeticOverflow)"

lemma uadd_Inr [simp]: "a + b < usize_limit \<Longrightarrow> uadd a b = Inr (a + b)"
  by (simp add: uadd_def)

lemma usub_Inr [simp]: "b \<le> a \<Longrightarrow> usub a b = Inr (a - b)"
  by (simp add: usub_def)

lemma umul_Inr [simp]: "a * b < usize_limit \<Longrightarrow> umul a b = Inr (a * b)"
  by (simp add: umul_def)

lemma uadd_eq_Inr [res_simps]: "uadd a b = Inr c \<longleftrightarrow> a + b < usize_limit \<and> c = a + b"
  by (auto simp: uadd_def)

lemma usub_eq_Inr [res_simps]: "usub a b = Inr c \<longleftrightarrow> b \<le> a \<and> c = a - b"
  by (auto simp: usub_def)

lemma umul_eq_Inr [res_simps]: "umul a b = Inr c \<longleftrightarrow> a * b < usize_limit \<and> c = a * b"
  by (auto simp: umul_def)

section \<open>Powers of two and alignment\<close>

fun count_ones :: "nat \<Rightarrow> nat" where
  "count_ones n = (if n = 0 then 0 else n mod 2 + count_ones (n div 2))"

declare count_ones.simps [simp del]

definition is_power_of_two :: "usize \<Rightarrow> bool" where
  "is_power_of_two n \<longleftrightarrow> count_ones n = 1"

definition align_down :: "usize \<Rightarrow> usize \<Rightarrow> usize res" where
  "align_down addr align =
     (if is_power_of_two align
      then bindR (usub align 1) (\<lambda>m. Inr (unat ((word_of_nat addr :: u64) AND NOT (word_of_nat m))))
      else if align = 0 then Inr addr
      else Inl (PanicMsg ''`align` must be a power of 2''))"

definition align_up :: "usize \<Rightarrow> usize \<Rightarrow> usize res" where
  "align_up addr align =
     bindR (uadd addr align) (\<lambda>s. bindR (usub s 1) (\<lambda>t. align_down t align))"

section \<open>Facts about alignment\<close>

lemma count_ones_eq_0 [simp]: "count_ones n = 0 \<longleftrightarrow> n = 0"
proof (induction n rule: count_ones.induct)
  case (1 n)
  then show ?case
    by (subst count_ones.simps) (auto simp: dvd_eq_mod_eq_0)
qed

lemma count_ones_eq_1: "count_ones n = 1 \<longleftrightarrow> (\<exists>k. n = 2 ^ k)"
proof (induction n rule: count_ones.induct)
  case (1 n)
  show ?case
  proof (cases "n = 0")
    case True
    then show ?thesis by (simp add: count_ones.simps [of 0])
  next
    case False
    show ?thesis
    proof (cases "even n")
      case True
      then obtain m where m: "n = 2 * m" by blast
      with False have c: "count_ones n = count_ones m"
        by (subst count_ones.simps) simp
      from 1 False m have IH: "count_ones m = 1 \<longleftrightarrow> (\<exists>k. m = 2 ^ k)" by simp
      have "(\<exists>k. m = 2 ^ k) \<longleftrightarrow> (\<exists>k. n = 2 ^ k)"
      proof
        assume "\<exists>k. m = 2 ^ k"
        then obtain k where "m = 2 ^ k" ..
        with m have "n = 2 ^ Suc k" by simp
        then show "\<exists>k. n = 2 ^ k" ..
      next
        assume "\<exists>k. n = 2 ^ k"
        then obtain k where k: "n = 2 ^ k" ..
        with m have "k \<noteq> 0" by (auto intro: ccontr)
        then obtain j where "k = Suc j" by (cases k) auto
        with k m show "\<exists>k. m = 2 ^ k" by auto
      qed
      with c IH show ?thesis by simp
    next
      case odd: False
      then have c: "count_ones n = Suc (count_ones (n div 2))"
        using False by (simp add: count_ones.simps [of n] odd_iff_mod_2_eq_one)
      have "(\<exists>k. n = 2 ^ k) \<longleftrightarrow> n = 1"
      proof
        assume "\<exists>k. n = 2 ^ k"
        then obtain k where "n = 2 ^ k" ..
        with odd show "n = 1" by (cases k) auto
      next
        assume "n = 1"
        then have "n = 2 ^ 0" by simp
        then show "\<exists>k. n = 2 ^ k" ..
      qed
      moreover have "count_ones n = 1 \<longleftrightarrow> n div 2 = 0" using c by simp
      moreover have "n div 2 = 0 \<longleftrightarrow> n = 1" using odd by (cases n) auto
      ultimately show ?thesis by (simp only:)
    qed
  qed
qed

lemma is_power_of_two_iff: "is_power_of_two n \<longleftrightarrow> (\<exists>k. n = 2 ^ k)"
  by (simp only: is_power_of_two_def count_ones_eq_1)

lemma is_power_of_two_pow [simp]: "is_power_of_two (2 ^ k)"
  by (auto simp: is_power_of_two_iff)

lemma is_power_of_two_pos: "is_power_of_two n \<Longrightarrow> 0 < n"
  by (auto simp: is_power_of_two_iff)

lemma word_clear_low_bits:
  "(x :: 'a::len word) AND NOT (mask k) = x - take_bit k x"
proof -
  have "x = (x AND NOT (mask k)) + take_bit k x"
    by (subst disjunctive_add)
      (auto intro!: bit_word_eqI simp: bit_simps word_size)
  then show ?thesis by (metis add_diff_cancel_right')
qed

lemma unat_clear_low_bits:
  "unat ((x :: 'a::len word) AND NOT (mask k)) = unat x - unat x mod 2 ^ k"
proof -
  have "take_bit k x \<le> x"
    by (simp add: word_le_nat_alt unsigned_take_bit_eq take_bit_nat_less_eq_self)
  moreover have "unat (take_bit k x) = unat x mod 2 ^ k"
    by (simp only: unsigned_take_bit_eq take_bit_eq_mod [of k "unat x"])
  ultimately show ?thesis
    by (simp only: word_clear_low_bits unat_sub)
qed

lemma align_down_pow2:
  assumes "is_power_of_two align" and "addr < usize_limit" and "align < usize_limit"
  shows "align_down addr align = Inr (addr - addr mod align)"
proof -
  obtain k where k: "align = 2 ^ k" using assms(1) by (auto simp: is_power_of_two_iff)
  have "(word_of_nat (2 ^ k - 1) :: u64) = mask k"
    by (simp add: mask_eq_exp_minus_1 of_nat_diff)
  moreover have "unat (word_of_nat addr :: u64) = addr"
    using assms(2) by (simp add: unat_of_nat usize_limit_def take_bit_nat_eq_self)
  ultimately show ?thesis
    using assms(1) k by (simp add: align_down_def unat_clear_low_bits)
qed

lemma align_up_pow2:
  assumes "is_power_of_two align" and "addr + align < usize_limit"
  shows "align_up addr align = Inr ((addr + align - 1) - (addr + align - 1) mod align)"
proof -
  have "0 < align" using assms(1) by (rule is_power_of_two_pos)
  moreover have "align_down (addr + align - 1) align
      = Inr ((addr + align - 1) - (addr + align - 1) mod align)"
    using assms by (intro align_down_pow2) auto
  ultimately show ?thesis
    using assms(2) by (simp add: align_up_def)
qed

definition round_up :: "nat \<Rightarrow> nat \<Rightarrow> nat" where
  "round_up a n = (a + n - 1) - (a + n - 1) mod n"

lemma round_up_div: "round_up a n = (a + n - 1) div n * n"
  by (simp add: round_up_def minus_mod_eq_div_mult)

lemma round_up_dvd [simp]: "n dvd round_up a n"
  by (simp add: round_up_div)

lemma round_up_ge: "0 < n \<Longrightarrow> a \<le> round_up a n"
proof -
  assume n: "0 < n"
  have "a + n - 1 = (a + n - 1) div n * n + (a + n - 1) mod n" by simp
  moreover have "(a + n - 1) mod n < n" using n by simp
  ultimately show ?thesis unfolding round_up_div by linarith
qed

lemma round_up_less: "0 < n \<Longrightarrow> round_up a n < a + n"
proof -
  assume "0 < n"
  then have "a + n - 1 < a + n" by simp
  then show ?thesis unfolding round_up_def by (rule le_less_trans [OF diff_le_self])
qed

lemma round_up_least: "0 < n \<Longrightarrow> n dvd b \<Longrightarrow> a \<le> b \<Longrightarrow> round_up a n \<le> b"
proof -
  assume n: "0 < n" and b: "n dvd b" "a \<le> b"
  obtain q where q: "b = n * q" using b(1) by blast
  have "(a + n - 1) div n \<le> (n * q + (n - 1)) div n"
    using b(2) q n by (intro div_le_mono) auto
  also have "\<dots> = q" using n by (subst div_mult_self4) auto
  finally show ?thesis using q by (simp add: round_up_div mult.commute)
qed

lemma round_up_id: "0 < n \<Longrightarrow> n dvd a \<Longrightarrow> round_up a n = a"
  by (meson dvd_refl le_antisym order_refl round_up_ge round_up_least)

lemma round_up_eq_iff: "0 < n \<Longrightarrow> round_up a n = a \<longleftrightarrow> n dvd a"
  by (metis round_up_dvd round_up_id)

lemma align_up_round_up:
  "is_power_of_two align \<Longrightarrow> addr + align < usize_limit \<Longrightarrow> align_up addr align = Inr (round_up addr align)"
  by (simp add: align_up_pow2 round_up_def)

text \<open>
  \<^verbatim>\<open>align_up\<close> returns the least multiple of a power-of-two alignment that is not
  below the address, and does not panic as long as the address plus the alignment fits
  a \<^verbatim>\<open>usize\<close>.
\<close>

theorem align_up_least:
  assumes "is_power_of_two align" and "addr + align < usize_limit"
  shows "\<exists>r. align_up addr align = Inr r \<and> align dvd r \<and> addr \<le> r
            \<and> (\<forall>b. align dvd b \<and> addr \<le> b \<longrightarrow> r \<le> b)"
  using align_up_round_up [OF assms] is_power_of_two_pos [OF assms(1)]
  by (auto intro: round_up_ge round_up_least)

theorem align_up_least_witness:
  "is_power_of_two 16 \<and> (\<exists>r. align_up 33 16 = Inr r \<and> 16 dvd r \<and> 33 \<le> r
      \<and> (\<forall>b. 16 dvd b \<and> 33 \<le> b \<longrightarrow> r \<le> b))"
proof -
  have p: "is_power_of_two 16" using is_power_of_two_pow [of 4] by simp
  have l: "33 + 16 < usize_limit" by (simp add: usize_limit_def)
  show ?thesis using p align_up_least [OF p l] by blast
qed

end
