(* ===== verification/Init_Mutex.thy ===== *)
theory Init_Mutex
  imports Kernel_Prelude
begin

text \<open>
  \<^verbatim>\<open>src/src/init_mutex.rs\<close>: a spin lock around an \<^verbatim>\<open>Option<T>\<close>. The state of an
  \<^verbatim>\<open>InitMutex<T>\<close> is the option it guards; a locked section is atomic, so taking the lock,
  working on the contents and dropping the guard is one function of that state.
  \<^verbatim>\<open>lock\<close> succeeds on an uninitialised mutex, and the first dereference of its guard
  panics; \<^verbatim>\<open>try_lock\<close> yields no guard there.
\<close>

type_synonym 'a init_mutex = "'a option"

definition mutex_new :: "'a init_mutex" where
  "mutex_new = None"

definition mutex_init :: "'a init_mutex \<Rightarrow> 'a \<Rightarrow> 'a init_mutex" where
  "mutex_init m t = Some t"

definition guard_deref :: "'a init_mutex \<Rightarrow> 'a res" where
  "guard_deref m = unwrapR (Expectation ''InitMutexGuard has not been initialized'') m"

definition mutex_try_lock :: "'a init_mutex \<Rightarrow> 'a option" where
  "mutex_try_lock m = (case m of None \<Rightarrow> None | Some t \<Rightarrow> Some t)"

definition with_lock :: "'a init_mutex \<Rightarrow> ('a \<Rightarrow> ('a \<times> 'b) res) \<Rightarrow> ('a init_mutex \<times> 'b) res" where
  "with_lock m f = bindR (guard_deref m) (\<lambda>t. bindR (f t) (\<lambda>(t', r). Inr (Some t', r)))"

lemma mutex_try_lock_id [simp]: "mutex_try_lock m = m"
  by (cases m) (auto simp: mutex_try_lock_def)

lemma guard_deref_Some [simp]: "guard_deref (Some t) = Inr t"
  by (simp add: guard_deref_def)

lemma guard_deref_eq_Inr [res_simps]: "guard_deref m = Inr t \<longleftrightarrow> m = Some t"
  by (simp add: guard_deref_def)

lemma guard_deref_init [simp]: "guard_deref (mutex_init m t) = Inr t"
  by (simp add: mutex_init_def)

lemma with_lock_Some [simp]:
  "with_lock (Some t) f = bindR (f t) (\<lambda>(t', r). Inr (Some t', r))"
  by (simp add: with_lock_def)

lemma with_lock_new:
  "with_lock mutex_new f = Inl (Expectation ''InitMutexGuard has not been initialized'')"
  by (simp add: with_lock_def mutex_new_def guard_deref_def)

end
