(* ===== verification/Frame_Interface.thy ===== *)
theory Frame_Interface
  imports Kernel_Prelude
begin

text \<open>
  The contract of the \<^verbatim>\<open>LockedFrameAllocator\<close> and \<^verbatim>\<open>FrameAllocator\<close> traits of
  \<^verbatim>\<open>src/src/physmem/mod.rs\<close>: a supply of frames with a free set, an allocation that
  takes one frame out of it and fails only when it is empty, and a deallocation that puts
  an owned frame back. The lemmas of the locale are what every client of such a supply
  may rely on; the bitmap region, the mutex around it and the three-region physical
  memory manager are its instances.
\<close>

text \<open>Allocating \<open>n\<close> frames in a row, stopping at the first failure.\<close>

fun alloc_many :: "('r \<Rightarrow> ('r \<times> nat option) res) \<Rightarrow> nat \<Rightarrow> 'r \<Rightarrow> ('r \<times> nat list) res" where
  "alloc_many alloc 0 r = Inr (r, [])"
| "alloc_many alloc (Suc n) r =
     bindR (alloc r) (\<lambda>(r', x). case x of
        None \<Rightarrow> Inr (r', [])
      | Some f \<Rightarrow> bindR (alloc_many alloc n r') (\<lambda>(r'', fs). Inr (r'', f # fs)))"

text \<open>Giving a list of frames back, one after the other.\<close>

fun dealloc_many :: "('r \<Rightarrow> nat \<Rightarrow> 'r res) \<Rightarrow> nat list \<Rightarrow> 'r \<Rightarrow> 'r res" where
  "dealloc_many dealloc [] r = Inr r"
| "dealloc_many dealloc (f # fs) r = bindR (dealloc r f) (dealloc_many dealloc fs)"

text \<open>
  \<open>pool\<close> names the counter a frame is accounted under; \<open>lent r p\<close> is how many frames of
  pool \<open>p\<close> are handed out.
\<close>

locale frame_source =
  fixes inv :: "'r \<Rightarrow> bool"
    and free :: "'r \<Rightarrow> nat set"
    and pool :: "nat \<Rightarrow> nat"
    and lent :: "'r \<Rightarrow> nat \<Rightarrow> nat"
    and owns :: "'r \<Rightarrow> nat \<Rightarrow> bool"
    and alloc :: "'r \<Rightarrow> ('r \<times> nat option) res"
    and dealloc :: "'r \<Rightarrow> nat \<Rightarrow> 'r res"
  assumes free_finite: "inv r \<Longrightarrow> finite (free r)"
    and free_owned: "inv r \<Longrightarrow> f \<in> free r \<Longrightarrow> owns r f"
    and alloc_none: "inv r \<Longrightarrow> free r = {} \<Longrightarrow> alloc r = Inr (r, None)"
    and alloc_some: "inv r \<Longrightarrow> free r \<noteq> {} \<Longrightarrow>
          \<exists>r' f. alloc r = Inr (r', Some f) \<and> f \<in> free r \<and> inv r' \<and> free r' = free r - {f}
                 \<and> lent r' = (lent r)(pool f := Suc (lent r (pool f))) \<and> owns r' = owns r"
    and dealloc_some: "inv r \<Longrightarrow> owns r f \<Longrightarrow> f \<notin> free r \<Longrightarrow> 0 < lent r (pool f) \<Longrightarrow>
          \<exists>r'. dealloc r f = Inr r' \<and> inv r' \<and> free r' = insert f (free r)
               \<and> lent r' = (lent r)(pool f := lent r (pool f) - 1) \<and> owns r' = owns r"
begin

lemma alloc_total:
  assumes "inv r"
  shows "\<exists>r' x. alloc r = Inr (r', x) \<and> inv r' \<and> owns r' = owns r \<and> (x = None \<longleftrightarrow> free r = {})"
  using alloc_none [OF assms] alloc_some [OF assms] assms by (cases "free r = {}") auto

lemma alloc_someD:
  assumes "inv r" and "alloc r = Inr (r', Some f)"
  shows "f \<in> free r" and "inv r'" and "free r' = free r - {f}"
    and "lent r' = (lent r)(pool f := Suc (lent r (pool f)))" and "owns r' = owns r"
  using alloc_none [OF assms(1)] alloc_some [OF assms(1)] assms(2) by (cases "free r = {}"; auto)+

lemma alloc_noneD:
  assumes "inv r" and "alloc r = Inr (r', None)"
  shows "free r = {}" and "r' = r"
  using alloc_none [OF assms(1)] alloc_some [OF assms(1)] assms(2) by (cases "free r = {}"; auto)+

text \<open>A frame handed out and given back leaves the supply as it was.\<close>

lemma alloc_dealloc:
  assumes "inv r" and "alloc r = Inr (r', Some f)"
  shows "\<exists>r''. dealloc r' f = Inr r'' \<and> inv r'' \<and> free r'' = free r \<and> lent r'' = lent r"
proof -
  note a = alloc_someD [OF assms]
  have "owns r' f" using a(5) free_owned [OF assms(1) a(1)] by simp
  moreover have "f \<notin> free r'" "0 < lent r' (pool f)" using a(3,4) by auto
  ultimately obtain r'' where "dealloc r' f = Inr r''" "inv r''" "free r'' = insert f (free r')"
      "lent r'' = (lent r')(pool f := lent r' (pool f) - 1)"
    using dealloc_some [OF a(2)] by blast
  moreover have "insert f (free r') = free r" using a(1,3) by auto
  ultimately show ?thesis using a(4) by auto
qed

text \<open>
  Allocating \<open>n\<close> times never panics and delivers the smaller of \<open>n\<close> and the number of
  free frames, all distinct and all previously free.
\<close>

lemma alloc_many_spec:
  assumes "inv r"
  shows "\<exists>r' fs. alloc_many alloc n r = Inr (r', fs) \<and> inv r' \<and> distinct fs \<and> set fs \<subseteq> free r
            \<and> free r' = free r - set fs \<and> length fs = min n (card (free r)) \<and> owns r' = owns r
            \<and> lent r' = (\<lambda>p. lent r p + length (filter (\<lambda>f. pool f = p) fs))"
  using assms
proof (induction n arbitrary: r)
  case 0
  then show ?case by auto
next
  case (Suc n)
  show ?case
  proof (cases "free r = {}")
    case True
    with Suc.prems show ?thesis by (auto simp: alloc_none)
  next
    case False
    then obtain r' f where a: "alloc r = Inr (r', Some f)" "f \<in> free r" "inv r'"
        "free r' = free r - {f}" "lent r' = (lent r)(pool f := Suc (lent r (pool f)))"
        "owns r' = owns r"
      using alloc_some Suc.prems by blast
    then obtain r'' fs where b: "alloc_many alloc n r' = Inr (r'', fs)" "inv r''" "distinct fs"
        "set fs \<subseteq> free r'" "free r'' = free r' - set fs" "length fs = min n (card (free r'))"
        "owns r'' = owns r'" "lent r'' = (\<lambda>p. lent r' p + length (filter (\<lambda>f. pool f = p) fs))"
      using Suc.IH by blast
    have "card (free r) = Suc (card (free r'))"
      using a card.remove [OF free_finite [OF Suc.prems], of f] by simp
    moreover have "lent r'' = (\<lambda>p. lent r p + length (filter (\<lambda>f. pool f = p) (f # fs)))"
      using a(5) b(8) by (intro ext) simp
    ultimately show ?thesis using a b by (auto simp: min_def)
  qed
qed

lemma dealloc_many_spec:
  assumes "inv r" and "distinct fs" and "set fs \<inter> free r = {}" and "\<forall>f \<in> set fs. owns r f"
    and "\<forall>p. length (filter (\<lambda>f. pool f = p) fs) \<le> lent r p"
  shows "\<exists>r'. dealloc_many dealloc fs r = Inr r' \<and> inv r' \<and> free r' = free r \<union> set fs
            \<and> lent r' = (\<lambda>p. lent r p - length (filter (\<lambda>f. pool f = p) fs))"
  using assms
proof (induction fs arbitrary: r)
  case (Cons f fs)
  have "0 < lent r (pool f)" using Cons.prems(5) [rule_format, of "pool f"] by simp
  then obtain r' where d: "dealloc r f = Inr r'" "inv r'" "free r' = insert f (free r)"
      "lent r' = (lent r)(pool f := lent r (pool f) - 1)" "owns r' = owns r"
    using dealloc_some [of r f] Cons.prems by auto
  have "\<forall>p. length (filter (\<lambda>f. pool f = p) fs) \<le> lent r' p"
  proof
    fix p
    show "length (filter (\<lambda>f. pool f = p) fs) \<le> lent r' p"
      using Cons.prems(5) [rule_format, of p] d(4) by (cases "p = pool f") auto
  qed
  moreover have "set fs \<inter> free r' = {}" using Cons.prems(2,3) d(3) by auto
  ultimately obtain r'' where e: "dealloc_many dealloc fs r' = Inr r''" "inv r''"
      "free r'' = free r' \<union> set fs"
      "lent r'' = (\<lambda>p. lent r' p - length (filter (\<lambda>f. pool f = p) fs))"
    using Cons.IH [of r'] Cons.prems(2,4) d(2,5) by auto
  have "lent r'' = (\<lambda>p. lent r p - length (filter (\<lambda>f. pool f = p) (f # fs)))"
    using d(4) e(4) by (intro ext) simp
  with d e show ?case by simp
qed simp

text \<open>Handing out any number of frames and taking them all back restores the supply.\<close>

lemma alloc_many_dealloc_many:
  assumes "inv r" and "alloc_many alloc n r = Inr (r', fs)"
  shows "\<exists>r''. dealloc_many dealloc fs r' = Inr r'' \<and> inv r'' \<and> free r'' = free r \<and> lent r'' = lent r"
proof -
  from alloc_many_spec [OF assms(1), of n] assms(2)
  have a: "inv r'" "distinct fs" "set fs \<subseteq> free r" "free r' = free r - set fs" "owns r' = owns r"
      "lent r' = (\<lambda>p. lent r p + length (filter (\<lambda>f. pool f = p) fs))" by auto
  have "\<forall>f \<in> set fs. owns r' f" using a(3,5) free_owned [OF assms(1)] by auto
  moreover have "set fs \<inter> free r' = {}" using a(4) by auto
  ultimately obtain r'' where "dealloc_many dealloc fs r' = Inr r''" "inv r''"
      "free r'' = free r' \<union> set fs"
      "lent r'' = (\<lambda>p. lent r' p - length (filter (\<lambda>f. pool f = p) fs))"
    using dealloc_many_spec [OF a(1,2)] a(6) by auto
  then show ?thesis using a(3,4,6) by auto
qed

end

end
