(* ===== verification/Frame_Database.thy ===== *)
theory Frame_Database
  imports Init_Mutex Frame_Interface
begin

text \<open>
  \<^verbatim>\<open>src/src/physmem/frame_database.rs\<close>: the bitmap allocator of physical page frames.
  A \<^verbatim>\<open>PageFrameRegion\<close> owns the frames \<open>start_frame ..< limit_frame\<close>; bit \<open>i\<close> of its
  byte array is one when frame \<open>start_frame + i\<close> is free. The frame newtype and the page
  constants come from \<^verbatim>\<open>src/src/physmem/mod.rs\<close>. A boot memory map is the list of
  regions the bootloader hands over.
\<close>

section \<open>Frames and pages\<close>

definition PAGE_SIZE :: usize where
  "PAGE_SIZE = 4096"

definition page_align_down :: "usize \<Rightarrow> usize" where
  "page_align_down addr = unat ((word_of_nat addr :: u64) AND NOT (word_of_nat (PAGE_SIZE - 1)))"

definition page_align_up :: "usize \<Rightarrow> usize res" where
  "page_align_up addr =
     bindR (uadd addr PAGE_SIZE) (\<lambda>s. bindR (usub s 1) (\<lambda>t. Inr (page_align_down t)))"

type_synonym frame = usize

definition containing_address :: "usize \<Rightarrow> frame" where
  "containing_address addr = page_align_down addr div PAGE_SIZE"

definition physical_address :: "frame \<Rightarrow> usize res" where
  "physical_address f = umul f PAGE_SIZE"

section \<open>Bitmask\<close>

definition get_bit_bm :: "u8 list \<Rightarrow> usize \<Rightarrow> bool res" where
  "get_bit_bm bitmask index =
     (let index_byte = index div 8; index_bit = index mod 8;
          bit_mask = push_bit index_bit (1 :: u8)
      in if index_byte < length bitmask
         then Inr (bitmask ! index_byte AND bit_mask \<noteq> 0)
         else Inl IndexOutOfBounds)"

definition set_bit_bm :: "u8 list \<Rightarrow> usize \<Rightarrow> bool \<Rightarrow> u8 list res" where
  "set_bit_bm bitmask index val =
     (let index_byte = index div 8; index_bit = index mod 8;
          bit_mask = push_bit index_bit (1 :: u8)
      in if index_byte < length bitmask
         then let byte = bitmask ! index_byte;
                  bitmask' = bitmask[index_byte :=
                    (if val then byte OR bit_mask else byte AND NOT bit_mask)]
              in bindR (get_bit_bm bitmask' index) (\<lambda>b.
                 bindR (guardR (b = val) (Assertion ''get_bit(bitmask, index) == value'')) (\<lambda>_.
                 Inr bitmask'))
         else Inl IndexOutOfBounds)"

definition lowest_one_bit :: "u8 \<Rightarrow> usize option" where
  "lowest_one_bit byte = find (\<lambda>b. byte AND push_bit b 1 \<noteq> 0) [0..<8]"

fun find_nonzero :: "u8 list \<Rightarrow> usize \<Rightarrow> (usize \<times> u8) option" where
  "find_nonzero [] i = None"
| "find_nonzero (b # bs) i = (if b \<noteq> 0 then Some (i, b) else find_nonzero bs (Suc i))"

section \<open>Boot memory map\<close>

datatype memory_region_type =
  Usable | KernelStackRegion | PageTableRegion | Bootloader | BootInfoRegion | Package
  | OtherRegionType nat

record memory_region =
  start_addr :: usize
  end_addr :: usize
  region_type :: memory_region_type

record free_memory_region =
  fm_base :: usize
  fm_limit :: usize

definition MINIMUM_ADDRESS :: usize where
  "MINIMUM_ADDRESS = 0x10000"

fun memory_map_filter ::
  "usize \<Rightarrow> usize \<Rightarrow> (memory_region_type \<Rightarrow> bool) \<Rightarrow> memory_region list \<Rightarrow> free_memory_region list" where
  "memory_map_filter start_frame_addr limit_frame_addr check_type [] = []"
| "memory_map_filter start_frame_addr limit_frame_addr check_type (region # rest) =
     (let base = max (start_addr region) start_frame_addr;
          limit = min (end_addr region) limit_frame_addr
      in if base < limit \<and> check_type (region_type region)
         then \<lparr>fm_base = base, fm_limit = limit\<rparr>
              # memory_map_filter start_frame_addr limit_frame_addr check_type rest
         else memory_map_filter start_frame_addr limit_frame_addr check_type rest)"

definition filter_memory_map ::
  "usize \<Rightarrow> usize \<Rightarrow> memory_region list \<Rightarrow> (memory_region_type \<Rightarrow> bool) \<Rightarrow> free_memory_region list res" where
  "filter_memory_map start_frame limit_frame memory_map check_type =
     bindR (umul start_frame PAGE_SIZE) (\<lambda>s.
     bindR (umul limit_frame PAGE_SIZE) (\<lambda>l.
     Inr (memory_map_filter (max s MINIMUM_ADDRESS) (max l MINIMUM_ADDRESS) check_type memory_map)))"

definition usable :: "memory_region_type \<Rightarrow> bool" where
  "usable t \<longleftrightarrow> t = Usable"

definition reclaimable :: "memory_region_type \<Rightarrow> bool" where
  "reclaimable t \<longleftrightarrow> t = KernelStackRegion \<or> t = PageTableRegion \<or> t = Bootloader
     \<or> t = BootInfoRegion \<or> t = Package"

definition usable_or_reclaimable :: "memory_region_type \<Rightarrow> bool" where
  "usable_or_reclaimable t \<longleftrightarrow> usable t \<or> reclaimable t"

fun available_limit :: "usize \<Rightarrow> free_memory_region list \<Rightarrow> usize \<Rightarrow> usize" where
  "available_limit limit_frame [] avail = avail"
| "available_limit limit_frame (region # rest) avail =
     available_limit limit_frame rest (max avail (min (fm_limit region div PAGE_SIZE) limit_frame))"

definition find_available_limit_frame :: "usize \<Rightarrow> usize \<Rightarrow> memory_region list \<Rightarrow> usize res" where
  "find_available_limit_frame start_frame limit_frame memory_map =
     bindR (filter_memory_map start_frame limit_frame memory_map usable_or_reclaimable) (\<lambda>regions.
     Inr (available_limit limit_frame regions start_frame))"

section \<open>PageFrameRegion\<close>

record page_frame_region =
  start_frame :: usize
  limit_frame :: usize
  free_frames :: usize
  used_frames :: usize
  bitmask :: "u8 list"

text \<open>The frame indices, relative to \<open>start\<close>, that a filtered memory region spans.\<close>

definition free_span :: "usize \<Rightarrow> usize \<Rightarrow> free_memory_region \<Rightarrow> usize list res" where
  "free_span start limit region =
     bindR (usub (max (fm_base region div PAGE_SIZE) start) start) (\<lambda>s.
     bindR (usub (min (fm_limit region div PAGE_SIZE) limit) start) (\<lambda>e. Inr [s..<e]))"

fun mark_free :: "usize list \<Rightarrow> u8 list \<Rightarrow> usize \<Rightarrow> (u8 list \<times> usize) res" where
  "mark_free [] bm free = Inr (bm, free)"
| "mark_free (i # is) bm free =
     bindR (set_bit_bm bm i True) (\<lambda>bm'. bindR (uadd free 1) (\<lambda>free'. mark_free is bm' free'))"

fun new_loop ::
  "usize \<Rightarrow> usize \<Rightarrow> free_memory_region list \<Rightarrow> u8 list \<Rightarrow> usize \<Rightarrow> (u8 list \<times> usize) res" where
  "new_loop start limit [] bm free = Inr (bm, free)"
| "new_loop start limit (region # rest) bm free =
     bindR (free_span start limit region) (\<lambda>is.
     bindR (mark_free is bm free) (\<lambda>(bm', free'). new_loop start limit rest bm' free'))"

definition region_new ::
  "usize \<Rightarrow> usize \<Rightarrow> memory_region list \<Rightarrow> u8 list \<Rightarrow> page_frame_region res" where
  "region_new start limit memory_map bm =
     bindR (filter_memory_map start limit memory_map usable) (\<lambda>regions.
     bindR (new_loop start limit regions (map (\<lambda>_. 0) bm) 0) (\<lambda>(bm', free).
     Inr \<lparr>start_frame = start, limit_frame = limit, free_frames = free, used_frames = 0,
          bitmask = bm'\<rparr>))"

definition region_alloc :: "usize \<Rightarrow> usize \<Rightarrow> memory_region list \<Rightarrow> page_frame_region res" where
  "region_alloc start limit memory_map =
     bindR (find_available_limit_frame start limit memory_map) (\<lambda>avail.
     bindR (usub avail start) (\<lambda>bitmask_frames.
     bindR (uadd bitmask_frames 7) (\<lambda>n.
     region_new start limit memory_map (replicate (n div 8) 0))))"

fun reclaim_span :: "usize list \<Rightarrow> u8 list \<Rightarrow> usize \<Rightarrow> (u8 list \<times> usize) res" where
  "reclaim_span [] bm free = Inr (bm, free)"
| "reclaim_span (i # is) bm free =
     bindR (get_bit_bm bm i) (\<lambda>b.
     bindR (guardR (b = False) (Assertion ''Reclaiming frame that is already marked free'')) (\<lambda>_.
     bindR (set_bit_bm bm i True) (\<lambda>bm'.
     bindR (uadd free 1) (\<lambda>free'. reclaim_span is bm' free'))))"

fun reclaim_loop ::
  "usize \<Rightarrow> usize \<Rightarrow> free_memory_region list \<Rightarrow> u8 list \<Rightarrow> usize \<Rightarrow> (u8 list \<times> usize) res" where
  "reclaim_loop start limit [] bm free = Inr (bm, free)"
| "reclaim_loop start limit (region # rest) bm free =
     bindR (free_span start limit region) (\<lambda>is.
     bindR (reclaim_span is bm free) (\<lambda>(bm', free'). reclaim_loop start limit rest bm' free'))"

definition region_reclaim :: "page_frame_region \<Rightarrow> memory_region list \<Rightarrow> page_frame_region res" where
  "region_reclaim r memory_map =
     bindR (filter_memory_map (start_frame r) (limit_frame r) memory_map reclaimable) (\<lambda>regions.
     bindR (reclaim_loop (start_frame r) (limit_frame r) regions (bitmask r) (free_frames r))
       (\<lambda>(bm', free). Inr (r\<lparr>bitmask := bm', free_frames := free\<rparr>)))"

definition contains_frame :: "page_frame_region \<Rightarrow> frame \<Rightarrow> bool" where
  "contains_frame r f \<longleftrightarrow> start_frame r \<le> f \<and> f < limit_frame r"

definition allocate_frame :: "page_frame_region \<Rightarrow> (page_frame_region \<times> frame option) res" where
  "allocate_frame r =
     (case find_nonzero (bitmask r) 0 of
        None \<Rightarrow> Inr (r, None)
      | Some (byte_index, byte) \<Rightarrow>
          bindR (unwrapR UnwrapNone (lowest_one_bit byte)) (\<lambda>bit_index.
          bindR (umul byte_index 8) (\<lambda>m.
          bindR (uadd m bit_index) (\<lambda>frame_index.
          bindR (guardR (frame_index < limit_frame r) (Assertion ''frame_index < self.limit_frame'')) (\<lambda>_.
          bindR (set_bit_bm (bitmask r) frame_index False) (\<lambda>bm'.
          bindR (usub (free_frames r) 1) (\<lambda>free'.
          bindR (uadd (used_frames r) 1) (\<lambda>used'.
          bindR (uadd frame_index (start_frame r)) (\<lambda>f.
          Inr (r\<lparr>bitmask := bm', free_frames := free', used_frames := used'\<rparr>, Some f))))))))))"

definition deallocate_frame :: "page_frame_region \<Rightarrow> frame \<Rightarrow> page_frame_region res" where
  "deallocate_frame r f =
     bindR (guardR (contains_frame r f) (Assertion ''Frame is not from this region'')) (\<lambda>_.
     bindR (usub f (start_frame r)) (\<lambda>frame_index.
     bindR (set_bit_bm (bitmask r) frame_index True) (\<lambda>bm'.
     bindR (uadd (free_frames r) 1) (\<lambda>free'.
     bindR (usub (used_frames r) 1) (\<lambda>used'.
     Inr (r\<lparr>bitmask := bm', free_frames := free', used_frames := used'\<rparr>))))))"

section \<open>The free set\<close>

text \<open>
  What a bitmask says: the set of indices whose bit is one. \<open>free_set\<close> shifts it to frame
  numbers; \<open>region_inv\<close> is the invariant every operation keeps.
\<close>

definition free_bits :: "u8 list \<Rightarrow> nat set" where
  "free_bits bm = {i. i < 8 * length bm \<and> bit (bm ! (i div 8)) (i mod 8)}"

definition free_set :: "page_frame_region \<Rightarrow> frame set" where
  "free_set r = (\<lambda>i. i + start_frame r) ` free_bits (bitmask r)"

definition region_inv :: "page_frame_region \<Rightarrow> bool" where
  "region_inv r \<longleftrightarrow> start_frame r \<le> limit_frame r \<and> limit_frame r < usize_limit
     \<and> (\<forall>i \<in> free_bits (bitmask r). i + start_frame r < limit_frame r)
     \<and> free_frames r = card (free_bits (bitmask r))
     \<and> free_frames r + used_frames r < usize_limit"

definition region_owns :: "page_frame_region \<Rightarrow> frame \<Rightarrow> bool" where
  "region_owns r f \<longleftrightarrow> contains_frame r f \<and> f - start_frame r < 8 * length (bitmask r)"

lemma PAGE_SIZE_pos [simp]: "0 < PAGE_SIZE"
  by (simp add: PAGE_SIZE_def)

lemma page_align_down_eq:
  assumes "addr < usize_limit"
  shows "page_align_down addr = addr - addr mod PAGE_SIZE"
proof -
  have "align_down addr PAGE_SIZE = Inr (addr - addr mod PAGE_SIZE)"
    using assms is_power_of_two_pow [of 12]
    by (intro align_down_pow2) (auto simp: PAGE_SIZE_def usize_limit_def)
  then show ?thesis
    using is_power_of_two_pow [of 12]
    by (simp add: align_down_def page_align_down_def PAGE_SIZE_def)
qed

lemma containing_address_eq:
  "addr < usize_limit \<Longrightarrow> containing_address addr = addr div PAGE_SIZE"
  by (simp add: containing_address_def page_align_down_eq minus_mod_eq_div_mult)

lemma page_align_up_eq:
  assumes "addr + PAGE_SIZE < usize_limit"
  shows "page_align_up addr = Inr (round_up addr PAGE_SIZE)"
proof -
  have "page_align_down (addr + PAGE_SIZE - 1) = round_up addr PAGE_SIZE"
    using assms by (subst page_align_down_eq) (auto simp: round_up_def)
  then show ?thesis using assms by (simp add: page_align_up_def PAGE_SIZE_def)
qed

lemma get_bit_bm_eq:
  "i < 8 * length bm \<Longrightarrow> get_bit_bm bm i = Inr (i \<in> free_bits bm)"
  by (simp add: get_bit_bm_def free_bits_def bit_iff_and_push_bit_not_eq_0 less_mult_imp_div_less
      mult.commute)

lemma get_bit_bm_out: "8 * length bm \<le> i \<Longrightarrow> get_bit_bm bm i = Inl IndexOutOfBounds"
  by (auto simp: get_bit_bm_def Let_def)

lemma byte_set_bit:
  "k < 8 \<Longrightarrow> bit ((b :: u8) OR 2 ^ k) j \<longleftrightarrow> j = k \<or> bit b j"
  by (auto simp: bit_simps)

lemma byte_clear_bit:
  "bit ((b :: u8) AND NOT (2 ^ k)) j \<longleftrightarrow> j \<noteq> k \<and> bit b j"
  by (auto simp: bit_simps dest: bit_imp_le_length)

lemma div_mod_8_eqI: "i div 8 = j div 8 \<Longrightarrow> i mod 8 = j mod 8 \<Longrightarrow> i = (j :: nat)"
  by (metis div_mult_mod_eq)

lemma free_bits_upd_set:
  assumes "i < 8 * length bm"
  shows "free_bits (bm[i div 8 := bm ! (i div 8) OR 2 ^ (i mod 8)]) = insert i (free_bits bm)"
proof (rule set_eqI)
  fix j
  have i: "i div 8 < length bm" using assms by linarith
  show "j \<in> free_bits (bm[i div 8 := bm ! (i div 8) OR 2 ^ (i mod 8)]) \<longleftrightarrow> j \<in> insert i (free_bits bm)"
  proof (cases "j div 8 = i div 8")
    case True
    then have "j mod 8 = i mod 8 \<longleftrightarrow> j = i" by (auto intro: div_mod_8_eqI)
    with True i assms show ?thesis by (auto simp: free_bits_def byte_set_bit)
  next
    case False
    with i assms show ?thesis by (auto simp: free_bits_def)
  qed
qed

lemma free_bits_upd_clear:
  assumes "i < 8 * length bm"
  shows "free_bits (bm[i div 8 := bm ! (i div 8) AND NOT (2 ^ (i mod 8))]) = free_bits bm - {i}"
proof (rule set_eqI)
  fix j
  have i: "i div 8 < length bm" using assms by linarith
  show "j \<in> free_bits (bm[i div 8 := bm ! (i div 8) AND NOT (2 ^ (i mod 8))]) \<longleftrightarrow> j \<in> free_bits bm - {i}"
  proof (cases "j div 8 = i div 8")
    case True
    then have "j mod 8 = i mod 8 \<longleftrightarrow> j = i" by (auto intro: div_mod_8_eqI)
    with True i assms show ?thesis by (auto simp: free_bits_def byte_clear_bit)
  next
    case False
    with i assms show ?thesis by (auto simp: free_bits_def)
  qed
qed

lemma set_bit_bm_True:
  assumes "i < 8 * length bm"
  shows "\<exists>bm'. set_bit_bm bm i True = Inr bm' \<and> length bm' = length bm
           \<and> free_bits bm' = insert i (free_bits bm)"
proof -
  have "i div 8 < length bm" using assms by linarith
  then show ?thesis
    using assms free_bits_upd_set [OF assms] by (simp add: set_bit_bm_def Let_def get_bit_bm_eq)
qed

lemma set_bit_bm_False:
  assumes "i < 8 * length bm"
  shows "\<exists>bm'. set_bit_bm bm i False = Inr bm' \<and> length bm' = length bm
           \<and> free_bits bm' = free_bits bm - {i}"
proof -
  have "i div 8 < length bm" using assms by linarith
  then show ?thesis
    using assms free_bits_upd_clear [OF assms] by (simp add: set_bit_bm_def Let_def get_bit_bm_eq)
qed

lemma set_bit_bm_out: "8 * length bm \<le> i \<Longrightarrow> set_bit_bm bm i v = Inl IndexOutOfBounds"
  by (auto simp: set_bit_bm_def Let_def)

lemma finite_free_bits [simp]: "finite (free_bits bm)"
  by (rule finite_subset [of _ "{..<8 * length bm}"]) (auto simp: free_bits_def)

lemma free_bits_bound: "i \<in> free_bits bm \<Longrightarrow> i < 8 * length bm"
  by (simp add: free_bits_def)

lemma card_free_bits: "card (free_bits bm) \<le> 8 * length bm"
  using card_mono [of "{..<8 * length bm}" "free_bits bm"] by (auto dest: free_bits_bound)

lemma bytes_for_bits: "n \<le> 8 * ((n + 7) div 8)" "8 * ((n + 7) div 8) \<le> n + (7 :: nat)"
  by arith+

lemma free_bits_zero: "free_bits (replicate n 0) = {}"
  by (auto simp: free_bits_def less_mult_imp_div_less mult.commute)

section \<open>The first free bit\<close>

lemma lowest_one_bit_Some:
  assumes "b \<noteq> 0"
  shows "\<exists>k. lowest_one_bit b = Some k \<and> k < 8 \<and> bit b k \<and> (\<forall>j < k. \<not> bit b j)"
proof -
  obtain j where j: "bit b j" using assms by (auto simp: bit_eq_iff)
  then have "j < 8" by (auto dest: bit_imp_le_length)
  with j have "lowest_one_bit b \<noteq> None"
    by (auto simp: lowest_one_bit_def find_None_iff bit_iff_and_push_bit_not_eq_0)
  then obtain k where k: "lowest_one_bit b = Some k" by blast
  then obtain i where i: "i < length [0..<8::nat]" "b AND push_bit ([0..<8] ! i) 1 \<noteq> 0"
      "k = [0..<8] ! i" "\<forall>j<i. \<not> (b AND push_bit ([0..<8] ! j) 1 \<noteq> 0)"
    unfolding lowest_one_bit_def find_Some_iff by blast
  then have "k = i" "i < 8" by auto
  with i have "bit b k" "\<forall>j<k. \<not> bit b j"
    by (auto simp: bit_iff_and_push_bit_not_eq_0)
  with k \<open>k = i\<close> \<open>i < 8\<close> show ?thesis by simp
qed

lemma find_nonzero_None: "find_nonzero bs i = None \<longleftrightarrow> (\<forall>b \<in> set bs. b = 0)"
  by (induction bs arbitrary: i) auto

lemma find_nonzero_Some:
  "find_nonzero bs i = Some (j, b) \<Longrightarrow>
     i \<le> j \<and> j - i < length bs \<and> b = bs ! (j - i) \<and> b \<noteq> 0 \<and> (\<forall>k < j - i. bs ! k = 0)"
proof (induction bs arbitrary: i)
  case (Cons c bs)
  show ?case
  proof (cases "c = 0")
    case True
    with Cons have "Suc i \<le> j" "j - Suc i < length bs" "b = bs ! (j - Suc i)" "b \<noteq> 0"
        "\<forall>k < j - Suc i. bs ! k = 0" by auto
    with True show ?thesis by (auto simp: nth_Cons' Suc_diff_Suc)
  qed (use Cons in auto)
qed simp

lemma find_nonzero_empty: "find_nonzero bm 0 = None \<longleftrightarrow> free_bits bm = {}"
proof
  assume "find_nonzero bm 0 = None"
  then have "bm ! n = 0" if "n < length bm" for n
    using that by (simp add: find_nonzero_None)
  then show "free_bits bm = {}"
    by (auto simp: free_bits_def less_mult_imp_div_less mult.commute)
next
  assume e: "free_bits bm = {}"
  show "find_nonzero bm 0 = None"
    unfolding find_nonzero_None
  proof
    fix b assume "b \<in> set bm"
    then obtain n where n: "n < length bm" "b = bm ! n" by (metis in_set_conv_nth)
    show "b = 0"
    proof (rule ccontr)
      assume "b \<noteq> 0"
      then obtain k where k: "k < 8" "bit b k" using lowest_one_bit_Some by blast
      have "8 * n + k < 8 * length bm" "(8 * n + k) div 8 = n" "(8 * n + k) mod 8 = k"
        using n k by auto
      with k n have "8 * n + k \<in> free_bits bm" by (simp add: free_bits_def)
      with e show False by simp
    qed
  qed
qed

text \<open>The two scans together find the least free index.\<close>

lemma find_first_free:
  assumes "find_nonzero bm 0 = Some (n, b)"
  shows "\<exists>k. lowest_one_bit b = Some k \<and> n * 8 + k \<in> free_bits bm
           \<and> (\<forall>i \<in> free_bits bm. n * 8 + k \<le> i)"
proof -
  from find_nonzero_Some [OF assms] have n: "n < length bm" "b = bm ! n" "b \<noteq> 0"
      and z: "\<forall>k < n. bm ! k = 0" by auto
  from lowest_one_bit_Some [OF n(3)] obtain k
    where k: "lowest_one_bit b = Some k" "k < 8" "bit b k" "\<forall>j < k. \<not> bit b j" by blast
  have "n * 8 + k < 8 * length bm" "(n * 8 + k) div 8 = n" "(n * 8 + k) mod 8 = k"
    using n k by auto
  then have "n * 8 + k \<in> free_bits bm" using k n by (simp add: free_bits_def)
  moreover have "n * 8 + k \<le> i" if i: "i \<in> free_bits bm" for i
  proof (rule ccontr)
    assume "\<not> n * 8 + k \<le> i"
    then have "i < n * 8 + k" by simp
    then consider "i div 8 < n" | "i div 8 = n" "i mod 8 < k"
      using div_mult_mod_eq [of i 8] k(2) by fastforce
    then show False
      by cases (use i z k n in \<open>auto simp: free_bits_def\<close>)
  qed
  ultimately show ?thesis using k(1) by blast
qed

section \<open>Allocation and deallocation\<close>

lemma region_owns_cong:
  "start_frame r' = start_frame r \<Longrightarrow> limit_frame r' = limit_frame r \<Longrightarrow>
   length (bitmask r') = length (bitmask r) \<Longrightarrow> region_owns r' = region_owns r"
  by (rule ext) (simp add: region_owns_def contains_frame_def)

lemma allocate_frame_none:
  assumes "free_bits (bitmask r) = {}"
  shows "allocate_frame r = Inr (r, None)"
proof -
  have "find_nonzero (bitmask r) 0 = None" using assms by (simp add: find_nonzero_empty)
  then show ?thesis by (simp add: allocate_frame_def)
qed

lemma allocate_frame_some:
  assumes inv: "region_inv r" and ne: "free_bits (bitmask r) \<noteq> {}"
  shows "\<exists>r'. allocate_frame r = Inr (r', Some (Min (free_set r))) \<and> region_inv r'
           \<and> free_set r' = free_set r - {Min (free_set r)}
           \<and> used_frames r' = Suc (used_frames r) \<and> region_owns r' = region_owns r
           \<and> start_frame r' = start_frame r \<and> limit_frame r' = limit_frame r"
proof -
  let ?F = "free_bits (bitmask r)"
  obtain n b where nb: "find_nonzero (bitmask r) 0 = Some (n, b)"
    using ne find_nonzero_empty by fastforce
  obtain k where k: "lowest_one_bit b = Some k" "n * 8 + k \<in> ?F" "\<forall>i \<in> ?F. n * 8 + k \<le> i"
    using find_first_free [OF nb] by blast
  define i where "i = n * 8 + k"
  have i: "i \<in> ?F" "\<forall>j \<in> ?F. i \<le> j" "i < 8 * length (bitmask r)" "i + start_frame r < limit_frame r"
    using k inv by (auto simp: i_def region_inv_def free_bits_bound)
  obtain bm' where bm': "set_bit_bm (bitmask r) i False = Inr bm'" "length bm' = length (bitmask r)"
      "free_bits bm' = ?F - {i}" using set_bit_bm_False [OF i(3)] by blast
  have lim: "limit_frame r < usize_limit" "free_frames r = card ?F"
      "free_frames r + used_frames r < usize_limit"
    using inv by (auto simp: region_inv_def)
  have free: "1 \<le> free_frames r" using lim(2) ne by (simp add: Suc_le_eq card_gt_0_iff)
  have "n * 8 \<le> i" "i < usize_limit" using i(4) lim(1) by (auto simp: i_def)
  then have "n * 8 < usize_limit" by linarith
  have min: "Min (free_set r) = i + start_frame r"
    unfolding free_set_def using i by (intro Min_eqI) auto
  let ?r' = "r\<lparr>bitmask := bm', free_frames := free_frames r - 1, used_frames := used_frames r + 1\<rparr>"
  have "allocate_frame r = Inr (?r', Some (Min (free_set r)))"
    using nb k(1) \<open>n * 8 < usize_limit\<close> \<open>i < usize_limit\<close> i(4) bm'(1) free lim
    by (simp add: allocate_frame_def min i_def [symmetric])
  moreover have "region_inv ?r'"
    using inv bm' i(1) free lim by (auto simp: region_inv_def card_Diff_singleton)
  moreover have "free_set ?r' = free_set r - {Min (free_set r)}"
  proof -
    have "free_set ?r' = (\<lambda>j. j + start_frame r) ` (?F - {i})" using bm'(3) by (simp add: free_set_def)
    also have "\<dots> = free_set r - {i + start_frame r}"
      unfolding free_set_def by (subst inj_on_image_set_diff [where C = UNIV]) auto
    finally show ?thesis by (simp only: min)
  qed
  moreover have "region_owns ?r' = region_owns r"
    using bm'(2) by (intro region_owns_cong) auto
  ultimately show ?thesis by (intro exI [of _ ?r'] conjI) simp_all
qed

lemma deallocate_frame_some:
  assumes inv: "region_inv r" and own: "region_owns r f" and nf: "f \<notin> free_set r"
    and used: "0 < used_frames r"
  shows "\<exists>r'. deallocate_frame r f = Inr r' \<and> region_inv r' \<and> free_set r' = insert f (free_set r)
           \<and> used_frames r' = used_frames r - 1 \<and> region_owns r' = region_owns r
           \<and> start_frame r' = start_frame r \<and> limit_frame r' = limit_frame r"
proof -
  let ?i = "f - start_frame r"
  have f: "start_frame r \<le> f" "f < limit_frame r" "?i < 8 * length (bitmask r)"
    using own by (auto simp: region_owns_def contains_frame_def)
  obtain bm' where bm': "set_bit_bm (bitmask r) ?i True = Inr bm'" "length bm' = length (bitmask r)"
      "free_bits bm' = insert ?i (free_bits (bitmask r))" using set_bit_bm_True [OF f(3)] by blast
  have ni: "?i \<notin> free_bits (bitmask r)" using nf f(1) by (force simp: free_set_def)
  let ?r' = "r\<lparr>bitmask := bm', free_frames := free_frames r + 1, used_frames := used_frames r - 1\<rparr>"
  have sum: "free_frames r + used_frames r < usize_limit" using inv by (simp add: region_inv_def)
  have "deallocate_frame r f = Inr ?r'"
    using f bm'(1) used sum by (simp add: deallocate_frame_def contains_frame_def)
  moreover have "region_inv ?r'"
    using inv bm' ni f used sum by (auto simp: region_inv_def)
  moreover have "free_set ?r' = insert f (free_set r)"
    using bm'(3) f(1) by (auto simp: free_set_def)
  moreover have "region_owns ?r' = region_owns r"
    using bm'(2) by (intro region_owns_cong) auto
  ultimately show ?thesis by (intro exI [of _ ?r'] conjI) simp_all
qed

lemma free_set_owned: "region_inv r \<Longrightarrow> f \<in> free_set r \<Longrightarrow> region_owns r f"
  by (auto simp: free_set_def region_owns_def contains_frame_def region_inv_def free_bits_bound)

lemma finite_free_set [simp]: "finite (free_set r)"
  by (simp add: free_set_def)

lemma card_free_set: "card (free_set r) = card (free_bits (bitmask r))"
  unfolding free_set_def by (intro card_image) (simp add: inj_on_def)

lemma free_set_empty: "free_set r = {} \<longleftrightarrow> free_bits (bitmask r) = {}"
  by (simp add: free_set_def)

text \<open>A region accounts all its frames under one counter.\<close>

definition region_lent :: "page_frame_region \<Rightarrow> nat \<Rightarrow> nat" where
  "region_lent r p = (if p = 0 then used_frames r else 0)"

interpretation bitmap: frame_source region_inv free_set "\<lambda>_. 0" region_lent region_owns
  allocate_frame deallocate_frame
proof (unfold_locales, goal_cases)
  case (1 r)
  show ?case by simp
next
  case (2 r f)
  then show ?case by (rule free_set_owned)
next
  case (3 r)
  then show ?case by (simp add: free_set_empty allocate_frame_none)
next
  case (4 r)
  then have "Min (free_set r) \<in> free_set r" by simp
  moreover from 4 have "free_bits (bitmask r) \<noteq> {}" by (simp add: free_set_empty)
  ultimately show ?case using allocate_frame_some [OF 4(1)]
    by (auto simp: region_lent_def fun_eq_iff)
next
  case (5 r f)
  then show ?case using deallocate_frame_some [of r f]
    by (auto simp: region_lent_def fun_eq_iff)
qed

section \<open>Building a region from the memory map\<close>

lemma mark_free_spec:
  assumes "distinct is" and "\<forall>i \<in> set is. i < 8 * length bm" and "set is \<inter> free_bits bm = {}"
    and "n = card (free_bits bm)" and "n + length is < usize_limit"
  shows "\<exists>bm'. mark_free is bm n = Inr (bm', n + length is) \<and> length bm' = length bm
           \<and> free_bits bm' = free_bits bm \<union> set is"
  using assms
proof (induction "is" arbitrary: bm n)
  case (Cons i "is")
  obtain bm' where bm': "set_bit_bm bm i True = Inr bm'" "length bm' = length bm"
      "free_bits bm' = insert i (free_bits bm)" using set_bit_bm_True [of i bm] Cons.prems(2) by auto
  have "i \<notin> free_bits bm" using Cons.prems(3) by auto
  then have "Suc n = card (free_bits bm')" using Cons.prems(4) bm'(3) by simp
  moreover have "set is \<inter> free_bits bm' = {}" using Cons.prems(1,3) bm'(3) by auto
  ultimately obtain bm'' where "mark_free is bm' (Suc n) = Inr (bm'', Suc n + length is)"
      "length bm'' = length bm'" "free_bits bm'' = free_bits bm' \<union> set is"
    using Cons.IH [of bm' "Suc n"] Cons.prems(1,2,5) bm'(2) by fastforce
  with bm' show ?case using Cons.prems(5) by simp
qed simp

lemma reclaim_span_eq_mark:
  assumes "distinct is" and "\<forall>i \<in> set is. i < 8 * length bm" and "set is \<inter> free_bits bm = {}"
  shows "reclaim_span is bm n = mark_free is bm n"
  using assms
proof (induction "is" arbitrary: bm n)
  case (Cons i "is")
  obtain bm' where bm': "set_bit_bm bm i True = Inr bm'" "length bm' = length bm"
      "free_bits bm' = insert i (free_bits bm)" using set_bit_bm_True [of i bm] Cons.prems(2) by auto
  have "get_bit_bm bm i = Inr False" using Cons.prems(2,3) by (simp add: get_bit_bm_eq)
  moreover have "set is \<inter> free_bits bm' = {}" using Cons.prems(1,3) bm'(3) by auto
  then have "reclaim_span is bm' = mark_free is bm'"
    using Cons.IH [of bm'] Cons.prems(1,2) bm'(2) by (intro ext) simp
  ultimately show ?case using bm'(1) by simp
qed simp

text \<open>The frames of a filtered region, and when the spans of a list of them do not meet.\<close>

definition fm_frames :: "free_memory_region \<Rightarrow> frame set" where
  "fm_frames s = {fm_base s div PAGE_SIZE ..< fm_limit s div PAGE_SIZE}"

fun spans_disjoint :: "free_memory_region list \<Rightarrow> bool" where
  "spans_disjoint [] \<longleftrightarrow> True"
| "spans_disjoint (s # ss) \<longleftrightarrow> (\<forall>t \<in> set ss. fm_frames s \<inter> fm_frames t = {}) \<and> spans_disjoint ss"

definition span_fits :: "usize \<Rightarrow> usize \<Rightarrow> u8 list \<Rightarrow> free_memory_region \<Rightarrow> bool" where
  "span_fits start limit bm s \<longleftrightarrow> start \<le> fm_base s div PAGE_SIZE \<and> fm_base s \<le> fm_limit s
     \<and> fm_limit s div PAGE_SIZE \<le> limit \<and> fm_limit s div PAGE_SIZE \<le> start + 8 * length bm"

lemma free_span_eq:
  assumes "span_fits start limit bm s"
  shows "free_span start limit s =
           Inr [fm_base s div PAGE_SIZE - start ..< fm_limit s div PAGE_SIZE - start]"
proof -
  have le: "fm_base s div PAGE_SIZE \<le> fm_limit s div PAGE_SIZE"
    using assms by (auto simp: span_fits_def intro: div_le_mono)
  have "max (fm_base s div PAGE_SIZE) start = fm_base s div PAGE_SIZE"
       "min (fm_limit s div PAGE_SIZE) limit = fm_limit s div PAGE_SIZE"
    using assms by (auto simp: span_fits_def)
  then show ?thesis
    using assms le unfolding free_span_def span_fits_def by (simp only:) simp
qed

lemma span_index_set:
  assumes "span_fits start limit bm s"
  shows "(\<lambda>i. i + start) ` {fm_base s div PAGE_SIZE - start ..< fm_limit s div PAGE_SIZE - start}
           = fm_frames s"
proof -
  have "start \<le> fm_base s div PAGE_SIZE" "fm_base s div PAGE_SIZE \<le> fm_limit s div PAGE_SIZE"
    using assms by (auto simp: span_fits_def intro: div_le_mono)
  then show ?thesis
    using image_add_atLeastLessThan' [of start "fm_base s div PAGE_SIZE - start"
        "fm_limit s div PAGE_SIZE - start"]
    by (simp add: fm_frames_def)
qed

lemma mark_span:
  assumes fit: "span_fits start limit bm s" and n: "n = card (free_bits bm)"
    and dis: "fm_frames s \<inter> (\<lambda>i. i + start) ` free_bits bm = {}"
    and lim: "start + 8 * length bm < usize_limit"
  shows "\<exists>is bm' n'. free_span start limit s = Inr is \<and> mark_free is bm n = Inr (bm', n')
           \<and> reclaim_span is bm n = Inr (bm', n') \<and> length bm' = length bm
           \<and> n' = card (free_bits bm')
           \<and> (\<lambda>i. i + start) ` free_bits bm' = (\<lambda>i. i + start) ` free_bits bm \<union> fm_frames s"
proof -
  let ?is = "[fm_base s div PAGE_SIZE - start ..< fm_limit s div PAGE_SIZE - start]"
  have bnd: "\<forall>i \<in> set ?is. i < 8 * length bm" using fit by (auto simp: span_fits_def)
  have ia: "(\<lambda>i. i + start) ` set ?is = fm_frames s"
    using span_index_set [OF fit] by simp
  have dj: "set ?is \<inter> free_bits bm = {}" using dis ia by blast
  have "free_bits bm \<union> set ?is \<subseteq> {..<8 * length bm}" using bnd by (auto simp: free_bits_bound)
  then have "card (free_bits bm \<union> set ?is) \<le> 8 * length bm"
    using card_mono [OF finite_lessThan] by fastforce
  moreover have c: "card (free_bits bm \<union> set ?is) = n + length ?is"
    using dj n by (subst card_Un_disjoint) auto
  ultimately have "n + length ?is < usize_limit" using lim by linarith
  with mark_free_spec [OF _ bnd dj n] obtain bm' where bm': "mark_free ?is bm n = Inr (bm', n + length ?is)"
      "length bm' = length bm" "free_bits bm' = free_bits bm \<union> set ?is" by auto
  have "(\<lambda>i. i + start) ` free_bits bm' = (\<lambda>i. i + start) ` free_bits bm \<union> fm_frames s"
    using bm'(3) ia by (simp add: image_Un)
  moreover have "n + length ?is = card (free_bits bm')" using c bm'(3) by simp
  ultimately show ?thesis
    using free_span_eq [OF fit] bm' reclaim_span_eq_mark [OF _ bnd dj, of n] by auto
qed

lemma span_fits_cong: "length bm' = length bm \<Longrightarrow> span_fits start limit bm' = span_fits start limit bm"
  by (rule ext) (simp add: span_fits_def)

lemma region_loops_spec:
  assumes "\<forall>s \<in> set ss. span_fits start limit bm s" and "spans_disjoint ss"
    and "n = card (free_bits bm)" and "start + 8 * length bm < usize_limit"
    and "\<forall>s \<in> set ss. fm_frames s \<inter> (\<lambda>i. i + start) ` free_bits bm = {}"
  shows "\<exists>bm' n'. new_loop start limit ss bm n = Inr (bm', n')
           \<and> reclaim_loop start limit ss bm n = Inr (bm', n') \<and> length bm' = length bm
           \<and> n' = card (free_bits bm')
           \<and> (\<lambda>i. i + start) ` free_bits bm' = (\<lambda>i. i + start) ` free_bits bm \<union> (\<Union>s \<in> set ss. fm_frames s)"
  using assms
proof (induction ss arbitrary: bm n)
  case (Cons s ss)
  from mark_span [of start limit bm s n] Cons.prems obtain "is" bm' n' where
    m: "free_span start limit s = Inr is" "mark_free is bm n = Inr (bm', n')"
      "reclaim_span is bm n = Inr (bm', n')" "length bm' = length bm" "n' = card (free_bits bm')"
      "(\<lambda>i. i + start) ` free_bits bm' = (\<lambda>i. i + start) ` free_bits bm \<union> fm_frames s"
    by auto
  have "\<forall>t \<in> set ss. fm_frames t \<inter> (\<lambda>i. i + start) ` free_bits bm' = {}"
    using Cons.prems(2,5) by (simp add: m(6) Int_Un_distrib Int_commute)
  then obtain bm'' n'' where
    "new_loop start limit ss bm' n' = Inr (bm'', n'')"
    "reclaim_loop start limit ss bm' n' = Inr (bm'', n'')" "length bm'' = length bm'"
    "n'' = card (free_bits bm'')"
    "(\<lambda>i. i + start) ` free_bits bm'' =
       (\<lambda>i. i + start) ` free_bits bm' \<union> (\<Union>s \<in> set ss. fm_frames s)"
    using Cons.IH [of bm' n'] Cons.prems m(4,5) span_fits_cong [OF m(4)] by auto
  with m show ?case by (auto simp: Un_assoc)
qed simp

text \<open>
  A memory map the bootloader may deliver: region bounds are page aligned (its ranges are
  ranges of frame numbers) and regions do not overlap.
\<close>

definition aligned_map :: "memory_region list \<Rightarrow> bool" where
  "aligned_map mmap \<longleftrightarrow> (\<forall>m \<in> set mmap. PAGE_SIZE dvd start_addr m \<and> PAGE_SIZE dvd end_addr m)"

fun disjoint_map :: "memory_region list \<Rightarrow> bool" where
  "disjoint_map [] \<longleftrightarrow> True"
| "disjoint_map (m # ms) \<longleftrightarrow>
     (\<forall>k \<in> set ms. end_addr m \<le> start_addr k \<or> end_addr k \<le> start_addr m) \<and> disjoint_map ms"

text \<open>The frames between \<open>start\<close> and \<open>limit\<close>, above the first 64KiB, that a map types with \<open>P\<close>.\<close>

definition map_frames ::
  "usize \<Rightarrow> usize \<Rightarrow> memory_region list \<Rightarrow> (memory_region_type \<Rightarrow> bool) \<Rightarrow> frame set" where
  "map_frames start limit mmap P = {f. start \<le> f \<and> f < limit \<and> MINIMUM_ADDRESS \<le> f * PAGE_SIZE
     \<and> (\<exists>m \<in> set mmap. P (region_type m) \<and> start_addr m \<le> f * PAGE_SIZE \<and> f * PAGE_SIZE < end_addr m)}"

lemma memory_map_filter_set:
  "set (memory_map_filter a b P mmap) =
     {\<lparr>fm_base = max (start_addr m) a, fm_limit = min (end_addr m) b\<rparr> | m.
        m \<in> set mmap \<and> P (region_type m) \<and> max (start_addr m) a < min (end_addr m) b}"
  by (induction a b P mmap rule: memory_map_filter.induct) (auto simp: Let_def)

lemma aligned_frame_range:
  assumes "PAGE_SIZE dvd a" and "PAGE_SIZE dvd b"
  shows "{a div PAGE_SIZE ..< b div PAGE_SIZE} = {f. a \<le> f * PAGE_SIZE \<and> f * PAGE_SIZE < b}"
proof -
  obtain x y where "a = PAGE_SIZE * x" "b = PAGE_SIZE * y" using assms by (elim dvdE)
  then show ?thesis by (auto simp: mult.commute)
qed

lemma minimum_address_dvd: "PAGE_SIZE dvd MINIMUM_ADDRESS"
  by (simp add: PAGE_SIZE_def MINIMUM_ADDRESS_def)

lemma max_min_dvd:
  "d dvd a \<Longrightarrow> d dvd b \<Longrightarrow> d dvd max a b" "d dvd a \<Longrightarrow> d dvd b \<Longrightarrow> d dvd min a (b :: nat)"
  by (auto simp: max_def min_def)

lemma fm_frames_iff:
  assumes "PAGE_SIZE dvd fm_base s" and "PAGE_SIZE dvd fm_limit s"
  shows "f \<in> fm_frames s \<longleftrightarrow> fm_base s \<le> f * PAGE_SIZE \<and> f * PAGE_SIZE < fm_limit s"
  unfolding fm_frames_def aligned_frame_range [OF assms] by simp

lemma filter_member_iff:
  assumes al: "aligned_map mmap" and d: "PAGE_SIZE dvd a" "PAGE_SIZE dvd b"
  shows "(\<exists>s \<in> set (memory_map_filter a b P mmap). f \<in> fm_frames s) \<longleftrightarrow>
     (\<exists>m \<in> set mmap. P (region_type m) \<and> max (start_addr m) a \<le> f * PAGE_SIZE
        \<and> f * PAGE_SIZE < min (end_addr m) b)"
proof -
  have "f \<in> fm_frames \<lparr>fm_base = max (start_addr m) a, fm_limit = min (end_addr m) b\<rparr> \<longleftrightarrow>
      max (start_addr m) a \<le> f * PAGE_SIZE \<and> f * PAGE_SIZE < min (end_addr m) b"
    if "m \<in> set mmap" for m
    using al that d by (subst fm_frames_iff) (auto simp: aligned_map_def intro!: max_min_dvd)
  moreover have "(\<exists>s \<in> set (memory_map_filter a b P mmap). f \<in> fm_frames s) \<longleftrightarrow>
     (\<exists>m \<in> set mmap. P (region_type m) \<and> max (start_addr m) a < min (end_addr m) b
       \<and> f \<in> fm_frames \<lparr>fm_base = max (start_addr m) a, fm_limit = min (end_addr m) b\<rparr>)"
    unfolding memory_map_filter_set by blast
  ultimately show ?thesis by (meson le_less_trans)
qed

lemma filter_frames:
  assumes "aligned_map mmap"
  shows "(\<Union>s \<in> set (memory_map_filter (max (start * PAGE_SIZE) MINIMUM_ADDRESS)
            (max (limit * PAGE_SIZE) MINIMUM_ADDRESS) P mmap). fm_frames s) = map_frames start limit mmap P"
proof (rule set_eqI)
  fix f
  have d: "PAGE_SIZE dvd max (start * PAGE_SIZE) MINIMUM_ADDRESS"
          "PAGE_SIZE dvd max (limit * PAGE_SIZE) MINIMUM_ADDRESS"
    by (simp_all add: max_min_dvd minimum_address_dvd)
  have "start * PAGE_SIZE \<le> f * PAGE_SIZE \<longleftrightarrow> start \<le> f" "f * PAGE_SIZE < limit * PAGE_SIZE \<longleftrightarrow> f < limit"
    by simp_all
  then show "f \<in> (\<Union>s \<in> set (memory_map_filter (max (start * PAGE_SIZE) MINIMUM_ADDRESS)
            (max (limit * PAGE_SIZE) MINIMUM_ADDRESS) P mmap). fm_frames s) \<longleftrightarrow> f \<in> map_frames start limit mmap P"
    using filter_member_iff [OF assms d, of P f] unfolding map_frames_def
    by (simp only: UN_iff mem_Collect_eq max.bounded_iff min_less_iff_conj less_max_iff_disj)
      (meson leD le_less_trans)
qed

abbreviation boot_filter ::
  "usize \<Rightarrow> usize \<Rightarrow> (memory_region_type \<Rightarrow> bool) \<Rightarrow> memory_region list \<Rightarrow> free_memory_region list" where
  "boot_filter start limit \<equiv> memory_map_filter (max (start * PAGE_SIZE) MINIMUM_ADDRESS)
     (max (limit * PAGE_SIZE) MINIMUM_ADDRESS)"

lemma filter_memory_map_eq:
  assumes "start \<le> limit" and "limit * PAGE_SIZE < usize_limit"
  shows "filter_memory_map start limit mmap P = Inr (boot_filter start limit P mmap)"
proof -
  have "start * PAGE_SIZE < usize_limit" using assms by (meson le_less_trans mult_le_mono1)
  with assms show ?thesis by (simp add: filter_memory_map_def)
qed

lemma boot_filter_bounds:
  assumes "s \<in> set (boot_filter start limit P mmap)"
  shows "start \<le> fm_base s div PAGE_SIZE" "fm_base s < fm_limit s" "fm_limit s div PAGE_SIZE \<le> limit"
proof -
  have b: "start * PAGE_SIZE \<le> fm_base s" "MINIMUM_ADDRESS \<le> fm_base s" "fm_base s < fm_limit s"
      "fm_limit s \<le> max (limit * PAGE_SIZE) MINIMUM_ADDRESS"
    using assms unfolding memory_map_filter_set by auto
  show "start \<le> fm_base s div PAGE_SIZE" using b(1) by (simp add: less_eq_div_iff_mult_less_eq)
  show "fm_base s < fm_limit s" by (rule b(3))
  have "fm_limit s \<le> limit * PAGE_SIZE" using b by linarith
  then have "fm_limit s div PAGE_SIZE \<le> limit * PAGE_SIZE div PAGE_SIZE" by (rule div_le_mono)
  then show "fm_limit s div PAGE_SIZE \<le> limit" by simp
qed

lemma boot_filter_fits:
  assumes "s \<in> set (boot_filter start limit P mmap)"
    and "fm_limit s div PAGE_SIZE \<le> start + 8 * length bm"
  shows "span_fits start limit bm s"
  using assms boot_filter_bounds [OF assms(1)] by (simp add: span_fits_def)

lemma frames_disjointI:
  assumes "fm_limit s \<le> fm_base t \<or> fm_limit t \<le> fm_base s"
  shows "fm_frames s \<inter> fm_frames t = {}"
  using assms div_le_mono [of "fm_limit s" "fm_base t" PAGE_SIZE]
    div_le_mono [of "fm_limit t" "fm_base s" PAGE_SIZE]
  by (auto simp: fm_frames_def)

lemma spans_disjoint_filter: "disjoint_map mmap \<Longrightarrow> spans_disjoint (memory_map_filter a b P mmap)"
proof (induction mmap)
  case (Cons m ms)
  let ?s = "\<lparr>fm_base = max (start_addr m) a, fm_limit = min (end_addr m) b\<rparr>"
  have "fm_frames ?s \<inter> fm_frames t = {}" if t: "t \<in> set (memory_map_filter a b P ms)" for t
  proof (rule frames_disjointI)
    obtain k where "k \<in> set ms" "t = \<lparr>fm_base = max (start_addr k) a, fm_limit = min (end_addr k) b\<rparr>"
      using t unfolding memory_map_filter_set by blast
    with Cons.prems show "fm_limit ?s \<le> fm_base t \<or> fm_limit t \<le> fm_base ?s" by fastforce
  qed
  with Cons show ?case by (simp add: Let_def)
qed simp

lemma map_frames_bounds: "f \<in> map_frames start limit mmap P \<Longrightarrow> start \<le> f \<and> f < limit"
  by (simp add: map_frames_def)

lemma region_new_spec:
  assumes lim: "start \<le> limit" "limit * PAGE_SIZE < usize_limit" "start + 8 * length bm < usize_limit"
    and mmap: "aligned_map mmap" "disjoint_map mmap"
    and fit: "\<forall>s \<in> set (boot_filter start limit usable mmap).
                fm_limit s div PAGE_SIZE \<le> start + 8 * length bm"
  shows "\<exists>r. region_new start limit mmap bm = Inr r \<and> region_inv r
           \<and> free_set r = map_frames start limit mmap usable \<and> used_frames r = 0
           \<and> start_frame r = start \<and> limit_frame r = limit \<and> length (bitmask r) = length bm"
proof -
  let ?z = "replicate (length bm) (0 :: u8)" and ?ss = "boot_filter start limit usable mmap"
  have z: "free_bits ?z = {}" by (rule free_bits_zero)
  have "\<forall>s \<in> set ?ss. span_fits start limit ?z s" using fit boot_filter_fits by simp
  then obtain bm' n where l: "new_loop start limit ?ss ?z 0 = Inr (bm', n)" "length bm' = length bm"
      "n = card (free_bits bm')"
      "(\<lambda>i. i + start) ` free_bits bm' = (\<Union>s \<in> set ?ss. fm_frames s)"
    using region_loops_spec [of ?ss start limit ?z 0] z lim(3) spans_disjoint_filter [OF mmap(2)]
    by auto
  let ?r = "\<lparr>start_frame = start, limit_frame = limit, free_frames = n, used_frames = 0, bitmask = bm'\<rparr>"
  have new: "region_new start limit mmap bm = Inr ?r"
    using l(1) by (simp add: region_new_def filter_memory_map_eq [OF lim(1,2)] map_replicate_const)
  have fs: "free_set ?r = map_frames start limit mmap usable"
    using l(4) filter_frames [OF mmap(1)] by (simp add: free_set_def)
  have bnd: "i + start < limit" if "i \<in> free_bits bm'" for i
  proof -
    have "i + start \<in> free_set ?r" using that by (simp add: free_set_def)
    then show ?thesis using fs map_frames_bounds by blast
  qed
  have "n \<le> 8 * length bm" using card_free_bits [of bm'] l(2,3) by simp
  moreover have "limit < usize_limit"
    using lim(2) by (rule le_less_trans [rotated]) (simp add: PAGE_SIZE_def)
  ultimately have "region_inv ?r" using bnd l(3) lim by (simp add: region_inv_def)
  with new fs l(2) show ?thesis by auto
qed

lemma available_limit_mono: "avail \<le> available_limit limit ss avail"
proof (induction ss arbitrary: avail)
  case (Cons s ss)
  have "avail \<le> max avail (min (fm_limit s div PAGE_SIZE) limit)" by simp
  also have "\<dots> \<le> available_limit limit ss \<dots>" by (rule Cons.IH)
  finally show ?case by simp
qed simp

lemma available_limit_ge:
  "s \<in> set ss \<Longrightarrow> min (fm_limit s div PAGE_SIZE) limit \<le> available_limit limit ss avail"
proof (induction ss arbitrary: avail)
  case (Cons t ss)
  show ?case
  proof (cases "s = t")
    case True
    have "min (fm_limit t div PAGE_SIZE) limit \<le> max avail (min (fm_limit t div PAGE_SIZE) limit)"
      by simp
    also have "\<dots> \<le> available_limit limit ss \<dots>" by (rule available_limit_mono)
    finally show ?thesis using True by simp
  next
    case False
    with Cons show ?thesis by simp
  qed
qed simp

lemma available_limit_le: "avail \<le> limit \<Longrightarrow> available_limit limit ss avail \<le> limit"
  by (induction ss arbitrary: avail) auto

lemma boot_filter_mono:
  assumes "\<And>t. P t \<Longrightarrow> Q t"
  shows "set (boot_filter start limit P mmap) \<subseteq> set (boot_filter start limit Q mmap)"
  unfolding memory_map_filter_set using assms by blast

lemma region_alloc_spec:
  assumes lim: "start \<le> limit" "limit * PAGE_SIZE < usize_limit"
    and mmap: "aligned_map mmap" "disjoint_map mmap"
  shows "\<exists>r. region_alloc start limit mmap = Inr r \<and> region_inv r
           \<and> free_set r = map_frames start limit mmap usable \<and> used_frames r = 0
           \<and> start_frame r = start \<and> limit_frame r = limit
           \<and> (\<forall>f \<in> map_frames start limit mmap usable_or_reclaimable. region_owns r f)"
proof -
  let ?ss = "boot_filter start limit usable_or_reclaimable mmap"
  define avail where "avail = available_limit limit ?ss start"
  define n where "n = avail - start"
  let ?bm = "replicate ((n + 7) div 8) (0 :: u8)"
  have av: "start \<le> avail" "avail \<le> limit"
    unfolding avail_def using available_limit_mono available_limit_le [OF lim(1)] by auto
  have "limit + 7 < usize_limit"
    using lim(2) by (simp add: PAGE_SIZE_def usize_limit_def)
  then have ba: "n + 7 < usize_limit" "start + 8 * length ?bm < usize_limit"
      "avail \<le> start + 8 * length ?bm"
    using av bytes_for_bits [of n] unfolding n_def by simp_all
  have fit: "fm_limit s div PAGE_SIZE \<le> start + 8 * length ?bm" if s: "s \<in> set ?ss" for s
  proof -
    have "min (fm_limit s div PAGE_SIZE) limit = fm_limit s div PAGE_SIZE"
      using boot_filter_bounds(3) [OF s] by (rule min_absorb1)
    then have "fm_limit s div PAGE_SIZE \<le> avail"
      using available_limit_ge [OF s, of limit start] unfolding avail_def by simp
    then show ?thesis using ba(3) by (rule order_trans)
  qed
  have "\<forall>s \<in> set (boot_filter start limit usable mmap).
      fm_limit s div PAGE_SIZE \<le> start + 8 * length ?bm"
    using fit boot_filter_mono [of usable usable_or_reclaimable start limit mmap]
    by (auto simp: usable_or_reclaimable_def)
  from region_new_spec [OF lim ba(2) mmap this] obtain r where
    r: "region_new start limit mmap ?bm = Inr r" "region_inv r"
      "free_set r = map_frames start limit mmap usable" "used_frames r = 0"
      "start_frame r = start" "limit_frame r = limit" "length (bitmask r) = length ?bm" by blast
  have "region_alloc start limit mmap = Inr r"
    using av(1) ba(1) r(1) unfolding n_def
    by (simp add: region_alloc_def find_available_limit_frame_def filter_memory_map_eq [OF lim]
        avail_def [symmetric])
  moreover have "region_owns r f" if f: "f \<in> map_frames start limit mmap usable_or_reclaimable" for f
  proof -
    obtain s where "s \<in> set ?ss" "f \<in> fm_frames s" using f filter_frames [OF mmap(1)] by blast
    then have "f < start + 8 * length ?bm" using fit by (fastforce simp: fm_frames_def)
    then show ?thesis
      using map_frames_bounds [OF f] r(5-7) by (auto simp: region_owns_def contains_frame_def)
  qed
  ultimately show ?thesis using r by blast
qed

lemma region_reclaim_spec:
  assumes inv: "region_inv r" and mmap: "aligned_map mmap" "disjoint_map mmap"
    and lim: "limit_frame r * PAGE_SIZE < usize_limit"
      "start_frame r + 8 * length (bitmask r) + used_frames r < usize_limit"
    and own: "\<forall>f \<in> map_frames (start_frame r) (limit_frame r) mmap reclaimable. region_owns r f \<and> f \<notin> free_set r"
  shows "\<exists>r'. region_reclaim r mmap = Inr r' \<and> region_inv r' \<and> used_frames r' = used_frames r
           \<and> free_set r' = free_set r \<union> map_frames (start_frame r) (limit_frame r) mmap reclaimable"
proof -
  let ?s = "start_frame r" and ?l = "limit_frame r" and ?bm = "bitmask r"
  let ?ss = "boot_filter ?s ?l reclaimable mmap"
  let ?M = "map_frames ?s ?l mmap reclaimable"
  have sl: "?s \<le> ?l" using inv by (simp add: region_inv_def)
  have fr: "(\<Union>s \<in> set ?ss. fm_frames s) = ?M" by (rule filter_frames [OF mmap(1)])
  have fit: "fm_limit s div PAGE_SIZE \<le> ?s + 8 * length ?bm" if s: "s \<in> set ?ss" for s
  proof (cases "fm_frames s = {}")
    case False
    then have "fm_limit s div PAGE_SIZE - 1 \<in> fm_frames s" by (auto simp: fm_frames_def)
    then have "region_owns r (fm_limit s div PAGE_SIZE - 1)" using s fr own by blast
    then show ?thesis by (auto simp: region_owns_def contains_frame_def)
  next
    case True
    have "fm_base s \<le> fm_limit s" using boot_filter_bounds(2) [OF s] by simp
    then have "fm_limit s div PAGE_SIZE = fm_base s div PAGE_SIZE"
      using True div_le_mono [of "fm_base s" "fm_limit s" PAGE_SIZE] by (auto simp: fm_frames_def)
    moreover have "PAGE_SIZE dvd fm_base s" "PAGE_SIZE dvd fm_limit s"
      using s mmap(1) unfolding memory_map_filter_set aligned_map_def
      by (auto intro!: max_min_dvd simp: minimum_address_dvd)
    ultimately have "fm_base s = fm_limit s" by (metis dvd_div_mult_self)
    then show ?thesis using boot_filter_bounds(2) [OF s] by simp
  qed
  have dis: "\<forall>s \<in> set ?ss. fm_frames s \<inter> (\<lambda>i. i + ?s) ` free_bits ?bm = {}"
    using own fr unfolding free_set_def by blast
  have fits: "\<forall>s \<in> set ?ss. span_fits ?s ?l ?bm s" using fit boot_filter_fits by simp
  have cnt: "free_frames r = card (free_bits ?bm)" using inv by (simp add: region_inv_def)
  have bits: "?s + 8 * length ?bm < usize_limit" using lim(2) by simp
  from region_loops_spec [OF fits spans_disjoint_filter [OF mmap(2)] cnt bits dis]
  obtain bm' n where l: "reclaim_loop ?s ?l ?ss ?bm (free_frames r) = Inr (bm', n)"
      "length bm' = length ?bm" "n = card (free_bits bm')"
      "(\<lambda>i. i + ?s) ` free_bits bm' = free_set r \<union> ?M"
    unfolding fr free_set_def by auto
  let ?r' = "r\<lparr>bitmask := bm', free_frames := n\<rparr>"
  have rec: "region_reclaim r mmap = Inr ?r'"
    using l(1) by (simp add: region_reclaim_def filter_memory_map_eq [OF sl lim(1)])
  have fs: "free_set ?r' = free_set r \<union> ?M" using l(4) by (simp add: free_set_def)
  have bnd: "i + ?s < ?l" if "i \<in> free_bits bm'" for i
  proof -
    have "i + ?s \<in> free_set r \<union> ?M" using that l(4) by blast
    then show ?thesis
      using map_frames_bounds free_set_owned [OF inv]
      by (fastforce simp: region_owns_def contains_frame_def)
  qed
  have "n \<le> 8 * length ?bm" using card_free_bits [of bm'] l(2,3) by simp
  then have "region_inv ?r'" using inv bnd l(3) lim(2) by (simp add: region_inv_def)
  with rec fs show ?thesis by auto
qed

section \<open>Properties of the bitmap region\<close>

lemma free_bits_code:
  "free_bits bm = set (filter (\<lambda>i. bit (bm ! (i div 8)) (i mod 8)) [0 ..< 8 * length bm])"
  by (auto simp: free_bits_def)

text \<open>A region of sixteen frames from frame 256, with frames 258, 264 and 265 free.\<close>

definition example_region :: page_frame_region where
  "example_region = \<lparr>start_frame = 256, limit_frame = 272, free_frames = 3, used_frames = 1,
     bitmask = [4, 3]\<rparr>"

lemma example_free_bits: "free_bits [4, 3] = {2, 8, 9}"
  by (simp add: free_bits_code upt_conv_Cons bit_iff_odd Suc_diff_le) auto

lemma example_region_inv: "region_inv example_region"
  by (simp add: region_inv_def example_region_def example_free_bits usize_limit_def)

lemma example_free_set: "free_set example_region = {258, 264, 265}"
  by (simp add: free_set_def example_region_def example_free_bits)

text \<open>
  C25. An allocation from a well-formed region with a free frame never panics: it returns the
  lowest free frame, removes exactly that frame from the free set, counts it as used and
  keeps the region well formed.
\<close>

theorem allocate_frame_lowest:
  assumes "region_inv r" and "free_set r \<noteq> {}"
  shows "\<exists>r'. allocate_frame r = Inr (r', Some (Min (free_set r))) \<and> region_inv r'
           \<and> free_set r' = free_set r - {Min (free_set r)}
           \<and> used_frames r' = Suc (used_frames r) \<and> free_frames r' = free_frames r - 1"
proof -
  from assms allocate_frame_some [of r] obtain r' where r':
      "allocate_frame r = Inr (r', Some (Min (free_set r)))" "region_inv r'"
      "free_set r' = free_set r - {Min (free_set r)}" "used_frames r' = Suc (used_frames r)"
    by (auto simp: free_set_empty)
  have "free_frames r' = card (free_set r')" "free_frames r = card (free_set r)"
    using r'(2) assms(1) by (simp_all add: region_inv_def card_free_set)
  with r' assms(2) show ?thesis by (simp add: card_Diff_singleton)
qed

theorem allocate_frame_lowest_witness:
  "region_inv example_region \<and> free_set example_region \<noteq> {}
   \<and> (\<exists>r'. allocate_frame example_region = Inr (r', Some 258) \<and> free_set r' = {264, 265})"
proof -
  have "free_set example_region \<noteq> {}" by (simp add: example_free_set)
  with allocate_frame_lowest [OF example_region_inv this] example_region_inv show ?thesis
    by (auto simp: example_free_set)
qed

text \<open>
  Reclaiming boot memory never trips the "already marked free" assertion when the
  reclaimable frames of the map are covered by the bitmask and not free yet; it adds exactly
  those frames to the free set.
\<close>

theorem region_reclaim_frees:
  assumes "region_inv r" and "aligned_map mmap" and "disjoint_map mmap"
    and "limit_frame r * PAGE_SIZE < usize_limit"
    and "start_frame r + 8 * length (bitmask r) + used_frames r < usize_limit"
    and "\<forall>f \<in> map_frames (start_frame r) (limit_frame r) mmap reclaimable. region_owns r f \<and> f \<notin> free_set r"
  shows "\<exists>r'. region_reclaim r mmap = Inr r' \<and> region_inv r' \<and> used_frames r' = used_frames r
           \<and> free_set r' = free_set r \<union> map_frames (start_frame r) (limit_frame r) mmap reclaimable"
  by (rule region_reclaim_spec [OF assms])

text \<open>A map whose one reclaimable region covers frames 260 and 261.\<close>

definition example_reclaim_map :: "memory_region list" where
  "example_reclaim_map = [\<lparr>start_addr = 0x104000, end_addr = 0x106000, region_type = Bootloader\<rparr>]"

lemma example_reclaim_frames:
  "map_frames 256 272 example_reclaim_map reclaimable = {260, 261}"
  by (auto simp: map_frames_def example_reclaim_map_def reclaimable_def PAGE_SIZE_def MINIMUM_ADDRESS_def)

theorem region_reclaim_frees_witness:
  "\<exists>r'. region_reclaim example_region example_reclaim_map = Inr r'
        \<and> free_set r' = {258, 260, 261, 264, 265}"
proof -
  have fr: "map_frames (start_frame example_region) (limit_frame example_region) example_reclaim_map reclaimable
      = {260, 261}" using example_reclaim_frames by (simp add: example_region_def)
  have "aligned_map example_reclaim_map" "disjoint_map example_reclaim_map"
    by (simp_all add: example_reclaim_map_def aligned_map_def PAGE_SIZE_def)
  moreover have "limit_frame example_region * PAGE_SIZE < usize_limit"
      "start_frame example_region + 8 * length (bitmask example_region) + used_frames example_region < usize_limit"
    by (simp_all add: example_region_def PAGE_SIZE_def usize_limit_def)
  moreover have "\<forall>f \<in> map_frames (start_frame example_region) (limit_frame example_region)
      example_reclaim_map reclaimable. region_owns example_region f \<and> f \<notin> free_set example_region"
    unfolding fr example_free_set
    by (simp add: region_owns_def contains_frame_def example_region_def)
  ultimately show ?thesis
    using region_reclaim_frees [OF example_region_inv, of example_reclaim_map] example_free_set
    unfolding fr by (auto simp: insert_commute)
qed

end
