(* ===== verification/Page_Entry.thy ===== *)
theory Page_Entry
  imports Frame_Database
begin

text \<open>
  \<^verbatim>\<open>src/src/paging/page_entry.rs\<close>: page table entries as 64-bit words. \<^verbatim>\<open>RawPte\<close>,
  \<^verbatim>\<open>RawPresentPte\<close> and \<^verbatim>\<open>RawNotPresentPte\<close> are newtypes of the same word, so their
  \<^verbatim>\<open>From\<close> conversions are the identity and only the checked ones are operations here.
  A flags type is the word of its bits; truncating to it keeps the declared bits.
\<close>

section \<open>Raw entries\<close>

type_synonym raw_pte = u64
type_synonym raw_present_pte = u64
type_synonym raw_not_present_pte = u64

definition RAW_PRESENT :: u64 where
  "RAW_PRESENT = 1"

definition raw_flags :: "raw_pte \<Rightarrow> u64" where
  "raw_flags p = p AND RAW_PRESENT"

definition flags_contains :: "u64 \<Rightarrow> u64 \<Rightarrow> bool" where
  "flags_contains fs f \<longleftrightarrow> fs AND f = f"

definition raw_unused :: raw_pte where
  "raw_unused = 0"

definition is_unused :: "raw_pte \<Rightarrow> bool" where
  "is_unused p \<longleftrightarrow> p = raw_unused"

definition is_present :: "raw_pte \<Rightarrow> bool" where
  "is_present p \<longleftrightarrow> flags_contains (raw_flags p) RAW_PRESENT"

datatype invalid_pte_error = InvalidPteError raw_pte

definition pte_present :: "raw_pte \<Rightarrow> invalid_pte_error + raw_present_pte" where
  "pte_present p = (if is_present p then Inr p else Inl (InvalidPteError p))"

definition pte_not_present :: "raw_pte \<Rightarrow> invalid_pte_error + raw_not_present_pte" where
  "pte_not_present p = (if is_present p then Inl (InvalidPteError p) else Inr p)"

section \<open>Present entries\<close>

definition WRITABLE :: u64 where "WRITABLE = push_bit 1 1"
definition USER_ACCESSIBLE :: u64 where "USER_ACCESSIBLE = push_bit 2 1"
definition WRITE_THROUGH :: u64 where "WRITE_THROUGH = push_bit 3 1"
definition NO_CACHE :: u64 where "NO_CACHE = push_bit 4 1"
definition ACCESSED :: u64 where "ACCESSED = push_bit 5 1"
definition DIRTY :: u64 where "DIRTY = push_bit 6 1"
definition HUGE_PAGE :: u64 where "HUGE_PAGE = push_bit 7 1"
definition GLOBAL :: u64 where "GLOBAL = push_bit 8 1"
definition REGION_HEADER :: u64 where "REGION_HEADER = push_bit 9 1"
definition BIT_10 :: u64 where "BIT_10 = push_bit 10 1"
definition BIT_11 :: u64 where "BIT_11 = push_bit 11 1"
definition NO_EXECUTE :: u64 where "NO_EXECUTE = push_bit 63 1"

definition present_page_flags :: u64 where
  "present_page_flags = WRITABLE OR USER_ACCESSIBLE OR WRITE_THROUGH OR NO_CACHE OR ACCESSED
     OR DIRTY OR HUGE_PAGE OR GLOBAL OR REGION_HEADER OR BIT_10 OR BIT_11 OR NO_EXECUTE"

definition COUNTER_BITS :: u64 where "COUNTER_BITS = 0x7ff0000000000000"
definition COUNTER_SHIFT :: nat where "COUNTER_SHIFT = 52"

definition MAX_COUNTER_VALUE :: u16 where
  "MAX_COUNTER_VALUE = ucast (drop_bit COUNTER_SHIFT COUNTER_BITS + 1)"

definition FRAME_BITS :: u64 where "FRAME_BITS = 0x000ffffffffff000"

definition from_frame_flags_and_counter :: "frame \<Rightarrow> u64 \<Rightarrow> u16 \<Rightarrow> raw_present_pte res" where
  "from_frame_flags_and_counter frm flags counter =
     bindR (guardR (counter < MAX_COUNTER_VALUE)
              (Assertion ''counter < Self::MAX_COUNTER_VALUE'')) (\<lambda>_.
     bindR (physical_address frm) (\<lambda>pa.
     Inr (word_of_nat pa OR flags OR RAW_PRESENT OR push_bit COUNTER_SHIFT (ucast counter))))"

definition from_frame_and_flags :: "frame \<Rightarrow> u64 \<Rightarrow> raw_present_pte res" where
  "from_frame_and_flags frm flags = from_frame_flags_and_counter frm flags 0"

definition present_flags :: "raw_present_pte \<Rightarrow> u64" where
  "present_flags p = p AND present_page_flags"

definition pte_frame :: "raw_present_pte \<Rightarrow> frame" where
  "pte_frame p = containing_address (unat (p AND FRAME_BITS))"

definition pte_counter :: "raw_present_pte \<Rightarrow> u16" where
  "pte_counter p = ucast (drop_bit COUNTER_SHIFT (p AND COUNTER_BITS))"

definition is_huge :: "raw_present_pte \<Rightarrow> bool" where
  "is_huge p \<longleftrightarrow> flags_contains (present_flags p) HUGE_PAGE"

section \<open>Entries that are not present\<close>

datatype not_present_page_type = Unused | GuardPage | RegionHeader

definition page_type_as_u64 :: "not_present_page_type \<Rightarrow> u64" where
  "page_type_as_u64 t = (case t of Unused \<Rightarrow> 0 | GuardPage \<Rightarrow> 1 | RegionHeader \<Rightarrow> 2)"

definition page_type_from_u8 :: "u8 \<Rightarrow> not_present_page_type option" where
  "page_type_from_u8 n =
     (if n = 0 then Some Unused else if n = 1 then Some GuardPage
      else if n = 2 then Some RegionHeader else None)"

definition not_present_page_flags :: u64 where
  "not_present_page_flags = push_bit 9 1 OR BIT_10 OR BIT_11 OR NO_EXECUTE"

definition TYPE_BITS :: u64 where "TYPE_BITS = 0x00000000000001fe"
definition TYPE_SHIFT :: nat where "TYPE_SHIFT = 1"

definition np_unused :: raw_not_present_pte where
  "np_unused = 0"

definition from_type_flags_frame_and_counter ::
  "not_present_page_type \<Rightarrow> u64 \<Rightarrow> frame \<Rightarrow> u16 \<Rightarrow> raw_not_present_pte res" where
  "from_type_flags_frame_and_counter page_type flags frm counter =
     bindR (guardR (counter < MAX_COUNTER_VALUE)
              (Assertion ''counter < Self::MAX_COUNTER_VALUE'')) (\<lambda>_.
     bindR (physical_address frm) (\<lambda>pa.
     Inr (word_of_nat pa OR flags OR push_bit TYPE_SHIFT (page_type_as_u64 page_type)
            OR push_bit COUNTER_SHIFT (ucast counter))))"

definition from_type :: "not_present_page_type \<Rightarrow> raw_not_present_pte res" where
  "from_type page_type = from_type_flags_frame_and_counter page_type 0 (containing_address 0) 0"

definition from_type_and_counter :: "not_present_page_type \<Rightarrow> u16 \<Rightarrow> raw_not_present_pte res" where
  "from_type_and_counter page_type counter =
     from_type_flags_frame_and_counter page_type 0 (containing_address 0) counter"

definition np_page_type :: "raw_not_present_pte \<Rightarrow> not_present_page_type res" where
  "np_page_type p =
     unwrapR (Expectation ''Invalid PTE type'')
       (page_type_from_u8 (ucast (drop_bit TYPE_SHIFT p AND TYPE_BITS)))"

definition np_flags :: "raw_not_present_pte \<Rightarrow> u64" where
  "np_flags p = p AND not_present_page_flags"

definition np_frame :: "raw_not_present_pte \<Rightarrow> frame" where
  "np_frame p = containing_address (unat (p AND FRAME_BITS))"

definition np_counter :: "raw_not_present_pte \<Rightarrow> u16" where
  "np_counter p = ucast (drop_bit COUNTER_SHIFT (p AND COUNTER_BITS))"

definition guard_page_pte :: "raw_not_present_pte res" where
  "guard_page_pte = from_type GuardPage"

definition guard_page_try_from :: "raw_not_present_pte \<Rightarrow> (invalid_pte_error + unit) res" where
  "guard_page_try_from p =
     bindR (np_page_type p) (\<lambda>t.
     Inr (if t = GuardPage then Inr () else Inl (InvalidPteError p)))"

section \<open>The fields as bit ranges\<close>

lemma bit_mask_range:
  assumes "a \<le> b" and "b \<le> 64"
  shows "bit (push_bit a (mask (b - a)) :: u64) n \<longleftrightarrow> a \<le> n \<and> n < b"
  using assms by (auto simp: bit_simps)

lemma FRAME_BITS_mask: "FRAME_BITS = push_bit 12 (mask 40)"
  by (simp add: FRAME_BITS_def mask_eq_exp_minus_1 push_bit_eq_mult)

lemma COUNTER_BITS_mask: "COUNTER_BITS = push_bit 52 (mask 11)"
  by (simp add: COUNTER_BITS_def mask_eq_exp_minus_1 push_bit_eq_mult)

lemma RAW_PRESENT_mask: "RAW_PRESENT = mask 1"
  by (simp add: RAW_PRESENT_def)

lemma present_page_flags_mask: "present_page_flags = push_bit 1 (mask 11) OR push_bit 63 (mask 1)"
  by (simp add: present_page_flags_def WRITABLE_def USER_ACCESSIBLE_def WRITE_THROUGH_def
      NO_CACHE_def ACCESSED_def DIRTY_def HUGE_PAGE_def GLOBAL_def REGION_HEADER_def BIT_10_def
      BIT_11_def NO_EXECUTE_def mask_eq_exp_minus_1 push_bit_eq_mult)

lemma not_present_page_flags_mask: "not_present_page_flags = push_bit 9 (mask 3) OR push_bit 63 (mask 1)"
  by (simp add: not_present_page_flags_def BIT_10_def
      BIT_11_def NO_EXECUTE_def mask_eq_exp_minus_1 push_bit_eq_mult)

lemma pte_field_bits:
  "bit FRAME_BITS n \<longleftrightarrow> 12 \<le> n \<and> n < 52"
  "bit COUNTER_BITS n \<longleftrightarrow> 52 \<le> n \<and> n < 63"
  "bit RAW_PRESENT n \<longleftrightarrow> n = 0"
  "bit present_page_flags n \<longleftrightarrow> (1 \<le> n \<and> n < 12) \<or> n = 63"
  "bit not_present_page_flags n \<longleftrightarrow> (9 \<le> n \<and> n < 12) \<or> n = 63"
  using bit_mask_range [of 12 52 n] bit_mask_range [of 52 63 n] bit_mask_range [of 1 12 n]
    bit_mask_range [of 63 64 n] bit_mask_range [of 9 12 n]
  unfolding FRAME_BITS_mask COUNTER_BITS_mask present_page_flags_mask
    not_present_page_flags_mask bit_or_iff
  by (auto simp: RAW_PRESENT_def bit_1_iff simp del: push_bit_of_1 push_bit_of_Suc_0)

lemma TYPE_BITS_bit: "bit TYPE_BITS n \<longleftrightarrow> 1 \<le> n \<and> n < 9"
proof -
  have "TYPE_BITS = push_bit 1 (mask 8)"
    by (simp add: TYPE_BITS_def mask_eq_exp_minus_1 push_bit_eq_mult)
  with bit_mask_range [of 1 9 n] show ?thesis by simp
qed

lemma bit_two_iff:
  "bit (2 :: u8) n \<longleftrightarrow> n = Suc 0" "bit (2 :: u64) n \<longleftrightarrow> n = Suc 0" "bit (4 :: u64) n \<longleftrightarrow> n = 2"
  using bit_exp_iff [of 1 n, where 'a = u8] bit_exp_iff [of 1 n, where 'a = u64]
    bit_exp_iff [of 2 n, where 'a = u64] by auto

lemma MAX_COUNTER_VALUE_eq: "MAX_COUNTER_VALUE = 0x800"
  by (simp add: MAX_COUNTER_VALUE_def COUNTER_SHIFT_def COUNTER_BITS_def)

lemma is_present_bit: "is_present p \<longleftrightarrow> bit p 0"
proof -
  have "(p AND 1) AND 1 = p AND 1" by (simp add: and.assoc)
  then show ?thesis
    by (simp only: is_present_def flags_contains_def raw_flags_def RAW_PRESENT_def)
      (simp add: and_one_eq odd_iff_mod_2_eq_one bit_0)
qed

lemma bit_frame_address:
  assumes "f < 2 ^ 40"
  shows "bit (word_of_nat (f * PAGE_SIZE) :: u64) n \<longleftrightarrow> 12 \<le> n \<and> n < 52 \<and> bit f (n - 12)"
proof -
  have "f * PAGE_SIZE = push_bit 12 f" by (simp add: PAGE_SIZE_def push_bit_eq_mult)
  moreover have "take_bit 40 f = f" using assms by (simp add: take_bit_nat_eq_self_iff)
  then have "bit f m \<Longrightarrow> m < 40" for m by (metis bit_take_bit_iff)
  ultimately show ?thesis by (force simp: bit_simps)
qed

lemma bit_small_u16:
  assumes "c < MAX_COUNTER_VALUE" and "bit c n"
  shows "n < 11"
proof -
  have "unat c < 2 ^ 11" using assms(1) by (simp add: MAX_COUNTER_VALUE_eq word_less_nat_alt)
  then have "take_bit 11 (unat c) = unat c" by (simp add: take_bit_nat_eq_self_iff)
  moreover have "bit (unat c) n" using assms(2) bit_imp_le_length by (auto simp: bit_unsigned_iff)
  ultimately show ?thesis by (metis bit_take_bit_iff)
qed

lemma bit_counter_field:
  assumes "c < MAX_COUNTER_VALUE"
  shows "bit (push_bit COUNTER_SHIFT (ucast c) :: u64) n \<longleftrightarrow> 52 \<le> n \<and> n < 63 \<and> bit c (n - 52)"
  using bit_small_u16 [OF assms] by (force simp: bit_simps COUNTER_SHIFT_def)

lemma frame_field:
  assumes "f < 2 ^ 40" and "p AND FRAME_BITS = word_of_nat (f * PAGE_SIZE)"
  shows "pte_frame p = f" and "np_frame p = f"
proof -
  have "f * PAGE_SIZE < usize_limit" using assms(1) by (simp add: PAGE_SIZE_def usize_limit_def)
  moreover from this have "unat (word_of_nat (f * PAGE_SIZE) :: u64) = f * PAGE_SIZE"
    by (simp add: unat_of_nat usize_limit_def del: of_nat_mult)
  ultimately show "pte_frame p = f" and "np_frame p = f"
    unfolding pte_frame_def np_frame_def assms(2) by (simp_all add: containing_address_eq)
qed

lemma counter_field:
  assumes "c < MAX_COUNTER_VALUE" and "p AND COUNTER_BITS = push_bit COUNTER_SHIFT (ucast c)"
  shows "pte_counter p = c" and "np_counter p = c"
  unfolding pte_counter_def np_counter_def assms(2) using bit_small_u16 [OF assms(1)]
  by (intro bit_word_eqI; force simp: bit_simps COUNTER_SHIFT_def)+

lemma physical_address_small: "f < 2 ^ 40 \<Longrightarrow> physical_address f = Inr (f * PAGE_SIZE)"
  by (simp add: physical_address_def PAGE_SIZE_def usize_limit_def)

section \<open>Round trips\<close>

lemma flags_contains_HUGE: "flags_contains w HUGE_PAGE \<longleftrightarrow> bit w 7"
proof -
  have b: "bit HUGE_PAGE n \<longleftrightarrow> n = 7" for n
    using bit_exp_iff [of 7 n, where 'a = u64] by (auto simp: HUGE_PAGE_def)
  have "w AND HUGE_PAGE = HUGE_PAGE" if "bit w 7"
    using that by (intro bit_word_eqI) (auto simp: bit_and_iff b)
  moreover have "bit w 7" if "w AND HUGE_PAGE = HUGE_PAGE"
    using that b [of 7] by (metis bit_and_iff)
  ultimately show ?thesis by (auto simp: flags_contains_def)
qed

lemma is_huge_bit: "is_huge p \<longleftrightarrow> bit p 7"
  by (simp add: is_huge_def flags_contains_HUGE present_flags_def bit_and_iff pte_field_bits)


lemma present_pte_fields:
  assumes f: "f < 2 ^ 40" and fl: "flags AND NOT present_page_flags = 0" and c: "c < MAX_COUNTER_VALUE"
  shows "\<exists>p. from_frame_flags_and_counter f flags c = Inr p \<and> is_present p
           \<and> pte_frame p = f \<and> present_flags p = flags \<and> pte_counter p = c"
proof -
  define p where "p = (word_of_nat (f * PAGE_SIZE) OR flags OR RAW_PRESENT
      OR push_bit COUNTER_SHIFT (ucast c) :: u64)"
  have fb: "bit flags n \<Longrightarrow> (1 \<le> n \<and> n < 12) \<or> n = 63" for n
    using fl pte_field_bits(4) [of n] by (metis bit_and_iff bit_not_iff bit_0_eq bot_apply bot_bool_def
        bit_imp_le_length impossible_bit)
  note bits = bit_or_iff bit_and_iff pte_field_bits bit_frame_address [OF f] bit_counter_field [OF c]
  have "p AND FRAME_BITS = word_of_nat (f * PAGE_SIZE)"
    by (rule bit_word_eqI) (auto simp: p_def bits simp del: of_nat_mult dest: fb)
  moreover have "p AND COUNTER_BITS = push_bit COUNTER_SHIFT (ucast c)"
    by (rule bit_word_eqI) (auto simp: p_def bits simp del: of_nat_mult dest: fb)
  moreover have "p AND present_page_flags = flags"
    by (rule bit_word_eqI) (auto simp: p_def bits simp del: of_nat_mult dest: fb)
  moreover have "is_present p" by (simp add: is_present_bit p_def bits del: of_nat_mult)
  moreover have "from_frame_flags_and_counter f flags c = Inr p"
    using c physical_address_small [OF f] by (simp add: from_frame_flags_and_counter_def p_def)
  ultimately show ?thesis
    using frame_field(1) [OF f, of p] counter_field(1) [OF c, of p]
    by (simp add: present_flags_def del: of_nat_mult)
qed

text \<open>
  C30. A present entry built from a 40-bit frame number, any set of declared flags and a
  counter below the maximum gives back its frame, its flags and its counter, and is present.
\<close>

theorem present_pte_roundtrip:
  assumes f: "f < 2 ^ 40" and fl: "flags AND NOT present_page_flags = 0" and c: "c < MAX_COUNTER_VALUE"
  shows "\<exists>p. from_frame_flags_and_counter f flags c = Inr p \<and> is_present p
           \<and> pte_frame p = f \<and> present_flags p = flags \<and> pte_counter p = c"
  by (rule present_pte_fields [OF assms])

theorem present_pte_roundtrip_witness:
  "(0x1234 :: nat) < 2 ^ 40 \<and> (WRITABLE OR NO_EXECUTE) AND NOT present_page_flags = 0
   \<and> 5 < MAX_COUNTER_VALUE
   \<and> (\<exists>p. from_frame_flags_and_counter 0x1234 (WRITABLE OR NO_EXECUTE) 5 = Inr p \<and> is_present p
        \<and> pte_frame p = 0x1234 \<and> present_flags p = WRITABLE OR NO_EXECUTE \<and> pte_counter p = 5)"
proof -
  have h: "(0x1234 :: nat) < 2 ^ 40" "(WRITABLE OR NO_EXECUTE) AND NOT present_page_flags = 0"
      "5 < MAX_COUNTER_VALUE"
    by (simp_all add: present_page_flags_mask mask_eq_exp_minus_1 push_bit_eq_mult WRITABLE_def
        NO_EXECUTE_def MAX_COUNTER_VALUE_eq)
  with present_pte_roundtrip [OF h] show ?thesis by blast
qed

text \<open>
  C31. A not-present entry built from a page type, declared flags, a 40-bit frame number and
  a counter is never present and gives back its flags, frame and counter; of its page type
  only the bits above the lowest survive decoding, because \<^verbatim>\<open>page_type\<close> applies the
  in-place mask \<^verbatim>\<open>TYPE_BITS\<close> after the shift: \<^verbatim>\<open>GuardPage\<close> decodes as \<^verbatim>\<open>Unused\<close>.
\<close>

theorem not_present_pte_roundtrip:
  assumes f: "f < 2 ^ 40" and fl: "flags AND NOT not_present_page_flags = 0" and c: "c < MAX_COUNTER_VALUE"
  shows "\<exists>p. from_type_flags_frame_and_counter t flags f c = Inr p \<and> \<not> is_present p
           \<and> np_frame p = f \<and> np_flags p = flags \<and> np_counter p = c
           \<and> np_page_type p = Inr (if t = GuardPage then Unused else t)"
proof -
  define tw :: u64 where "tw = push_bit TYPE_SHIFT (page_type_as_u64 t)"
  define p where "p = (word_of_nat (f * PAGE_SIZE) OR flags OR tw
      OR push_bit COUNTER_SHIFT (ucast c) :: u64)"
  have fb: "bit flags n \<Longrightarrow> (9 \<le> n \<and> n < 12) \<or> n = 63" for n
    using fl pte_field_bits(5) [of n] by (metis bit_and_iff bit_not_iff bit_0_eq bot_apply bot_bool_def
        bit_imp_le_length impossible_bit)
  have tb: "bit tw n \<longleftrightarrow> (t = GuardPage \<and> n = 1) \<or> (t = RegionHeader \<and> n = 2)" for n
    using bit_two_iff [of n] by (cases t) (simp_all add: tw_def page_type_as_u64_def TYPE_SHIFT_def)
  note bits = bit_or_iff bit_and_iff pte_field_bits bit_frame_address [OF f] bit_counter_field [OF c] tb
  have "p AND FRAME_BITS = word_of_nat (f * PAGE_SIZE)"
    by (rule bit_word_eqI) (auto simp: p_def bits simp del: of_nat_mult dest: fb)
  moreover have "p AND COUNTER_BITS = push_bit COUNTER_SHIFT (ucast c)"
    by (rule bit_word_eqI) (auto simp: p_def bits simp del: of_nat_mult dest: fb)
  moreover have "p AND not_present_page_flags = flags"
    by (rule bit_word_eqI) (auto simp: p_def bits simp del: of_nat_mult dest: fb)
  moreover have "\<not> is_present p" by (auto simp: is_present_bit p_def bits simp del: of_nat_mult dest: fb)
  moreover have "ucast (drop_bit TYPE_SHIFT p AND TYPE_BITS) = (if t = RegionHeader then 2 else 0 :: u8)"
  proof (rule bit_word_eqI)
    fix n
    assume "n < LENGTH(8)"
    then show "bit (ucast (drop_bit TYPE_SHIFT p AND TYPE_BITS) :: u8) n
        = bit (if t = RegionHeader then 2 else 0 :: u8) n"
      using bit_two_iff(1) [of n] fb [of "Suc n"]
      by (auto simp: bit_ucast_iff bit_drop_bit_eq TYPE_SHIFT_def TYPE_BITS_bit p_def bits
          simp del: of_nat_mult)
  qed
  then have "np_page_type p = Inr (if t = GuardPage then Unused else t)"
    by (cases t) (simp_all add: np_page_type_def page_type_from_u8_def)
  moreover have "from_type_flags_frame_and_counter t flags f c = Inr p"
    using c physical_address_small [OF f] 
    by (simp add: from_type_flags_frame_and_counter_def p_def tw_def)
  ultimately show ?thesis
    using frame_field [OF f, of p] counter_field [OF c, of p]
    by (simp add: np_flags_def del: of_nat_mult)
qed

theorem not_present_pte_roundtrip_witness:
  "(0x80 :: nat) < 2 ^ 40 \<and> NO_EXECUTE AND NOT not_present_page_flags = 0 \<and> 7 < MAX_COUNTER_VALUE
   \<and> (\<exists>p. from_type_flags_frame_and_counter RegionHeader NO_EXECUTE 0x80 7 = Inr p
        \<and> np_frame p = 0x80 \<and> np_counter p = 7 \<and> np_page_type p = Inr RegionHeader)"
proof -
  have h: "(0x80 :: nat) < 2 ^ 40" "NO_EXECUTE AND NOT not_present_page_flags = 0"
      "7 < MAX_COUNTER_VALUE"
    by (simp_all add: not_present_page_flags_mask mask_eq_exp_minus_1 push_bit_eq_mult
        NO_EXECUTE_def MAX_COUNTER_VALUE_eq)
  with not_present_pte_roundtrip [OF h, of RegionHeader] show ?thesis by auto
qed

lemma guard_page_pte_eq: "guard_page_pte = Inr 2"
proof -
  have "containing_address 0 = 0" by (simp add: containing_address_def page_align_down_def)
  then show ?thesis
    by (simp add: guard_page_pte_def from_type_def from_type_flags_frame_and_counter_def
        physical_address_def umul_def usize_limit_def MAX_COUNTER_VALUE_eq page_type_as_u64_def TYPE_SHIFT_def)
qed


end
