(* ===== verification/Phys_Mem.thy ===== *)
theory Phys_Mem
  imports Frame_Database
begin

text \<open>
  \<^verbatim>\<open>src/src/physmem/mod.rs\<close> and the statics of \<^verbatim>\<open>frame_database.rs\<close>: physical memory is
  three bitmap regions, each behind an \<^verbatim>\<open>InitMutex\<close>: low (below 16MiB, set up before
  paging), normal (below 4GiB, mapped permanently in kernel space) and high. Kernel frames
  come from the normal region, then the low one; user frames try the high region first.
  A freed frame returns to the region whose range contains it.
\<close>

section \<open>InitMutex as a frame allocator\<close>

definition im_free_frames :: "page_frame_region init_mutex \<Rightarrow> usize" where
  "im_free_frames m = (case mutex_try_lock m of None \<Rightarrow> 0 | Some g \<Rightarrow> free_frames g)"

definition im_used_frames :: "page_frame_region init_mutex \<Rightarrow> usize" where
  "im_used_frames m = (case mutex_try_lock m of None \<Rightarrow> 0 | Some g \<Rightarrow> used_frames g)"

definition im_allocate_frame ::
  "page_frame_region init_mutex \<Rightarrow> (page_frame_region init_mutex \<times> frame option) res" where
  "im_allocate_frame m =
     (case mutex_try_lock m of
        None \<Rightarrow> Inr (m, None)
      | Some g \<Rightarrow> bindR (allocate_frame g) (\<lambda>(g', x). Inr (Some g', x)))"

definition im_deallocate_frame ::
  "page_frame_region init_mutex \<Rightarrow> frame \<Rightarrow> page_frame_region init_mutex res" where
  "im_deallocate_frame m f =
     bindR (guard_deref m) (\<lambda>g. bindR (deallocate_frame g f) (\<lambda>g'. Inr (Some g')))"

definition im_contains_frame :: "page_frame_region init_mutex \<Rightarrow> frame \<Rightarrow> bool" where
  "im_contains_frame m f = (case mutex_try_lock m of None \<Rightarrow> False | Some g \<Rightarrow> contains_frame g f)"

section \<open>The three regions\<close>

record physmem =
  low_region :: "page_frame_region init_mutex"
  normal_region :: "page_frame_region init_mutex"
  high_region :: "page_frame_region init_mutex"

definition LOW_REGION_BASE :: usize where "LOW_REGION_BASE = 64 * 1024"
definition UNUSED_LOW_FRAMES :: usize where "UNUSED_LOW_FRAMES = LOW_REGION_BASE div PAGE_SIZE"
definition LOW_REGION_SIZE_LIMIT :: usize where "LOW_REGION_SIZE_LIMIT = 16 * 1024 * 1024"
definition LOW_REGION_FRAMES :: usize where "LOW_REGION_FRAMES = LOW_REGION_SIZE_LIMIT div PAGE_SIZE"
definition NORMAL_REGION_SIZE_LIMIT :: usize where
  "NORMAL_REGION_SIZE_LIMIT = 4 * 1024 * 1024 * 1024"
definition NORMAL_REGION_FRAMES :: usize where
  "NORMAL_REGION_FRAMES = NORMAL_REGION_SIZE_LIMIT div PAGE_SIZE"
definition HIGH_REGION_SIZE_LIMIT :: usize where
  "HIGH_REGION_SIZE_LIMIT = page_align_down (2 ^ 64 - 1)"
definition HIGH_REGION_FRAMES :: usize where
  "HIGH_REGION_FRAMES = HIGH_REGION_SIZE_LIMIT div PAGE_SIZE"

definition pm_initial :: physmem where
  "pm_initial = \<lparr>low_region = mutex_new, normal_region = mutex_new, high_region = mutex_new\<rparr>"

definition early_init :: "memory_region list \<Rightarrow> physmem \<Rightarrow> physmem res" where
  "early_init memory_map pm =
     bindR (region_new UNUSED_LOW_FRAMES LOW_REGION_FRAMES memory_map
              (replicate ((LOW_REGION_FRAMES + 7) div 8) 0)) (\<lambda>r.
     Inr (pm\<lparr>low_region := mutex_init (low_region pm) r\<rparr>))"

definition init_post_paging :: "memory_region list \<Rightarrow> physmem \<Rightarrow> physmem res" where
  "init_post_paging memory_map pm =
     bindR (region_alloc LOW_REGION_FRAMES NORMAL_REGION_FRAMES memory_map) (\<lambda>n.
     bindR (region_alloc NORMAL_REGION_FRAMES HIGH_REGION_FRAMES memory_map) (\<lambda>h.
     Inr (pm\<lparr>normal_region := mutex_init (normal_region pm) n,
             high_region := mutex_init (high_region pm) h\<rparr>)))"

definition lock_reclaim ::
  "memory_region list \<Rightarrow> page_frame_region init_mutex \<Rightarrow> page_frame_region init_mutex res" where
  "lock_reclaim memory_map m =
     bindR (guard_deref m) (\<lambda>g. bindR (region_reclaim g memory_map) (\<lambda>g'. Inr (Some g')))"

definition init_reclaim :: "memory_region list \<Rightarrow> physmem \<Rightarrow> physmem res" where
  "init_reclaim memory_map pm =
     bindR (lock_reclaim memory_map (low_region pm)) (\<lambda>l.
     bindR (lock_reclaim memory_map (normal_region pm)) (\<lambda>n.
     bindR (lock_reclaim memory_map (high_region pm)) (\<lambda>h.
     Inr \<lparr>low_region = l, normal_region = n, high_region = h\<rparr>)))"

definition pm_free_frames :: "physmem \<Rightarrow> usize res" where
  "pm_free_frames pm =
     bindR (uadd (im_free_frames (low_region pm)) (im_free_frames (normal_region pm))) (\<lambda>s.
     uadd s (im_free_frames (high_region pm)))"

definition pm_used_frames :: "physmem \<Rightarrow> usize res" where
  "pm_used_frames pm =
     bindR (uadd (im_used_frames (low_region pm)) (im_used_frames (normal_region pm))) (\<lambda>s.
     uadd s (im_used_frames (high_region pm)))"

definition try_low :: "physmem \<Rightarrow> (physmem \<times> frame option) res" where
  "try_low pm = bindR (im_allocate_frame (low_region pm)) (\<lambda>(m, x). Inr (pm\<lparr>low_region := m\<rparr>, x))"

definition try_normal :: "physmem \<Rightarrow> (physmem \<times> frame option) res" where
  "try_normal pm =
     bindR (im_allocate_frame (normal_region pm)) (\<lambda>(m, x). Inr (pm\<lparr>normal_region := m\<rparr>, x))"

definition try_high :: "physmem \<Rightarrow> (physmem \<times> frame option) res" where
  "try_high pm = bindR (im_allocate_frame (high_region pm)) (\<lambda>(m, x). Inr (pm\<lparr>high_region := m\<rparr>, x))"

text \<open>\<^verbatim>\<open>Option::or_else\<close> over allocations that update the statics.\<close>

definition or_else_alloc ::
  "(physmem \<Rightarrow> (physmem \<times> frame option) res) \<Rightarrow> (physmem \<Rightarrow> (physmem \<times> frame option) res)
     \<Rightarrow> physmem \<Rightarrow> (physmem \<times> frame option) res" where
  "or_else_alloc a b pm =
     bindR (a pm) (\<lambda>(pm', x). case x of Some f \<Rightarrow> Inr (pm', Some f) | None \<Rightarrow> b pm')"

definition allocate_kernel_frame :: "physmem \<Rightarrow> (physmem \<times> frame option) res" where
  "allocate_kernel_frame = or_else_alloc try_normal try_low"

definition allocate_user_frame :: "physmem \<Rightarrow> (physmem \<times> frame option) res" where
  "allocate_user_frame = or_else_alloc (or_else_alloc try_high try_normal) try_low"

definition pm_deallocate_frame :: "physmem \<Rightarrow> frame \<Rightarrow> physmem res" where
  "pm_deallocate_frame pm f =
     (if im_contains_frame (low_region pm) f
      then bindR (im_deallocate_frame (low_region pm) f) (\<lambda>m. Inr (pm\<lparr>low_region := m\<rparr>))
      else if im_contains_frame (normal_region pm) f
      then bindR (im_deallocate_frame (normal_region pm) f) (\<lambda>m. Inr (pm\<lparr>normal_region := m\<rparr>))
      else bindR (im_deallocate_frame (high_region pm) f) (\<lambda>m. Inr (pm\<lparr>high_region := m\<rparr>)))"

section \<open>The mutex keeps the contract\<close>

definition im_inv :: "page_frame_region init_mutex \<Rightarrow> bool" where
  "im_inv m = (case m of None \<Rightarrow> True | Some r \<Rightarrow> region_inv r)"

definition im_free :: "page_frame_region init_mutex \<Rightarrow> frame set" where
  "im_free m = (case m of None \<Rightarrow> {} | Some r \<Rightarrow> free_set r)"

definition im_lent :: "page_frame_region init_mutex \<Rightarrow> nat \<Rightarrow> nat" where
  "im_lent m p = (if p = 0 then im_used_frames m else 0)"

definition im_owns :: "page_frame_region init_mutex \<Rightarrow> frame \<Rightarrow> bool" where
  "im_owns m f = (case m of None \<Rightarrow> False | Some r \<Rightarrow> region_owns r f)"

lemma im_simps [simp]:
  "im_inv None" "im_inv (Some r) = region_inv r"
  "im_free None = {}" "im_free (Some r) = free_set r"
  "im_owns None f = False" "im_owns (Some r) f = region_owns r f"
  "im_used_frames None = 0" "im_used_frames (Some r) = used_frames r"
  "im_contains_frame None f = False" "im_contains_frame (Some r) f = contains_frame r f"
  "im_allocate_frame None = Inr (None, None)"
  by (simp_all add: im_inv_def im_free_def im_owns_def im_used_frames_def im_contains_frame_def
      im_allocate_frame_def)

lemma im_lent_Some: "im_lent (Some r) = region_lent r"
  by (simp add: fun_eq_iff im_lent_def region_lent_def)

interpretation mutex_bitmap: frame_source im_inv im_free "\<lambda>_. 0" im_lent im_owns
  im_allocate_frame im_deallocate_frame
proof (unfold_locales, goal_cases)
  case (1 m)
  then show ?case by (cases m) auto
next
  case (2 m f)
  then show ?case by (cases m) (auto intro: free_set_owned)
next
  case (3 m)
  then show ?case by (cases m) (auto simp: im_allocate_frame_def bitmap.alloc_none)
next
  case (4 m)
  then obtain r where r: "m = Some r" "region_inv r" "free_set r \<noteq> {}" by (cases m) auto
  from bitmap.alloc_some [OF r(2,3)] obtain r' f where a: "allocate_frame r = Inr (r', Some f)"
      "f \<in> free_set r" "region_inv r'" "free_set r' = free_set r - {f}"
      "region_lent r' = (region_lent r)(0 := Suc (region_lent r 0))" "region_owns r' = region_owns r"
    by blast
  have "im_owns (Some r') = im_owns m" using a(6) r(1) by (simp add: fun_eq_iff)
  then show ?case using a r(1) by (auto simp: im_allocate_frame_def im_lent_Some)
next
  case (5 m f)
  then obtain r where r: "m = Some r" by (cases m) auto
  with 5 bitmap.dealloc_some [of r f] obtain r' where a: "deallocate_frame r f = Inr r'"
      "region_inv r'" "free_set r' = insert f (free_set r)"
      "region_lent r' = (region_lent r)(0 := region_lent r 0 - 1)" "region_owns r' = region_owns r"
    by (auto simp: im_lent_Some)
  have "im_owns (Some r') = im_owns m" using a(5) r(1) by (simp add: fun_eq_iff)
  then show ?case using a r by (auto simp: im_deallocate_frame_def im_lent_Some)
qed

section \<open>The three regions keep the contract\<close>

text \<open>
  Frames below \<open>LOW_REGION_FRAMES\<close> belong to the low region's counter, those below
  \<open>NORMAL_REGION_FRAMES\<close> to the normal region's, the rest to the high region's.
\<close>

definition pm_pool :: "frame \<Rightarrow> nat" where
  "pm_pool f = (if f < LOW_REGION_FRAMES then 0 else if f < NORMAL_REGION_FRAMES then 1 else 2)"

definition pm_lent :: "physmem \<Rightarrow> nat \<Rightarrow> nat" where
  "pm_lent pm p = (if p = 0 then im_used_frames (low_region pm)
     else if p = 1 then im_used_frames (normal_region pm)
     else if p = 2 then im_used_frames (high_region pm) else 0)"

definition pm_inv :: "physmem \<Rightarrow> bool" where
  "pm_inv pm \<longleftrightarrow> im_inv (low_region pm) \<and> im_inv (normal_region pm) \<and> im_inv (high_region pm)
     \<and> (\<forall>f. im_contains_frame (low_region pm) f \<longrightarrow> pm_pool f = 0)
     \<and> (\<forall>f. im_contains_frame (normal_region pm) f \<longrightarrow> pm_pool f = 1)
     \<and> (\<forall>f. im_contains_frame (high_region pm) f \<longrightarrow> pm_pool f = 2)"

definition kernel_free :: "physmem \<Rightarrow> frame set" where
  "kernel_free pm = im_free (low_region pm) \<union> im_free (normal_region pm)"

definition user_free :: "physmem \<Rightarrow> frame set" where
  "user_free pm = kernel_free pm \<union> im_free (high_region pm)"

definition kernel_owns :: "physmem \<Rightarrow> frame \<Rightarrow> bool" where
  "kernel_owns pm f \<longleftrightarrow> im_owns (low_region pm) f \<or> im_owns (normal_region pm) f"

definition user_owns :: "physmem \<Rightarrow> frame \<Rightarrow> bool" where
  "user_owns pm f \<longleftrightarrow> kernel_owns pm f \<or> im_owns (high_region pm) f"

lemmas pm_defs = pm_inv_def kernel_free_def user_free_def kernel_owns_def user_owns_def

lemma im_owns_contains: "im_owns m f \<Longrightarrow> im_contains_frame m f"
  by (cases m) (auto simp: region_owns_def)

lemma im_free_owned: "im_inv m \<Longrightarrow> f \<in> im_free m \<Longrightarrow> im_owns m f"
  by (rule mutex_bitmap.free_owned)

lemma im_alloc_some:
  assumes "im_inv m" and "im_free m \<noteq> {}"
  shows "\<exists>m' f. im_allocate_frame m = Inr (m', Some f) \<and> f \<in> im_free m \<and> im_inv m'
           \<and> im_free m' = im_free m - {f} \<and> im_used_frames m' = Suc (im_used_frames m)
           \<and> im_owns m' = im_owns m \<and> im_contains_frame m' = im_contains_frame m"
proof -
  obtain r where r: "m = Some r" "region_inv r" "free_bits (bitmask r) \<noteq> {}"
    using assms by (cases m) (auto simp: free_set_empty)
  then have ne: "free_set r \<noteq> {}" by (simp add: free_set_empty)
  from allocate_frame_some [OF r(2,3)] obtain r' where a:
      "allocate_frame r = Inr (r', Some (Min (free_set r)))" "region_inv r'"
      "free_set r' = free_set r - {Min (free_set r)}" "used_frames r' = Suc (used_frames r)"
      "region_owns r' = region_owns r" "start_frame r' = start_frame r"
      "limit_frame r' = limit_frame r" by blast
  have "im_owns (Some r') = im_owns m" "im_contains_frame (Some r') = im_contains_frame m"
    using a(5-7) r(1) by (simp_all add: fun_eq_iff contains_frame_def)
  moreover have "Min (free_set r) \<in> free_set r" using ne by simp
  ultimately show ?thesis using a r(1) by (auto simp: im_allocate_frame_def)
qed

lemma im_dealloc_some:
  assumes "im_inv m" and "im_owns m f" and "f \<notin> im_free m" and "0 < im_used_frames m"
  shows "\<exists>m'. im_deallocate_frame m f = Inr m' \<and> im_inv m' \<and> im_free m' = insert f (im_free m)
           \<and> im_used_frames m' = im_used_frames m - 1
           \<and> im_owns m' = im_owns m \<and> im_contains_frame m' = im_contains_frame m"
proof -
  obtain r where r: "m = Some r" using assms by (cases m) auto
  with assms deallocate_frame_some [of r f] obtain r' where a: "deallocate_frame r f = Inr r'"
      "region_inv r'" "free_set r' = insert f (free_set r)" "used_frames r' = used_frames r - 1"
      "region_owns r' = region_owns r" "start_frame r' = start_frame r"
      "limit_frame r' = limit_frame r" by auto
  have "im_owns (Some r') = im_owns m" "im_contains_frame (Some r') = im_contains_frame m"
    using a(5-7) r(1) by (simp_all add: fun_eq_iff contains_frame_def)
  then show ?thesis using a r(1) by (auto simp: im_deallocate_frame_def)
qed

text \<open>One successful allocation or deallocation in one of the three regions.\<close>

definition took_from :: "(physmem \<Rightarrow> page_frame_region init_mutex) \<Rightarrow> physmem \<Rightarrow> physmem \<Rightarrow> frame \<Rightarrow> bool" where
  "took_from reg pm pm' f \<longleftrightarrow> f \<in> im_free (reg pm) \<and> pm_inv pm' \<and> im_free (reg pm') = im_free (reg pm) - {f}
     \<and> pm_lent pm' = (pm_lent pm)(pm_pool f := Suc (pm_lent pm (pm_pool f)))
     \<and> im_owns (reg pm') = im_owns (reg pm)"

lemma try_low_some:
  assumes inv: "pm_inv pm" and ne: "im_free (low_region pm) \<noteq> {}"
  shows "\<exists>pm' f. try_low pm = Inr (pm', Some f) \<and> took_from low_region pm pm' f
           \<and> normal_region pm' = normal_region pm \<and> high_region pm' = high_region pm"
proof -
  have im: "im_inv (low_region pm)" using inv by (simp add: pm_inv_def)
  from im_alloc_some [OF im ne] obtain m f where a: "im_allocate_frame (low_region pm) = Inr (m, Some f)"
    "f \<in> im_free (low_region pm)" "im_inv m" "im_free m = im_free (low_region pm) - {f}"
    "im_used_frames m = Suc (im_used_frames (low_region pm))" "im_owns m = im_owns (low_region pm)"
    "im_contains_frame m = im_contains_frame (low_region pm)" by blast
  have "pm_pool f = 0"
    using im_free_owned [OF im a(2)] inv im_owns_contains by (auto simp: pm_inv_def)
  with a inv show ?thesis
    by (auto simp: try_low_def took_from_def pm_inv_def pm_lent_def fun_eq_iff)
qed

lemma try_normal_some:
  assumes inv: "pm_inv pm" and ne: "im_free (normal_region pm) \<noteq> {}"
  shows "\<exists>pm' f. try_normal pm = Inr (pm', Some f) \<and> took_from normal_region pm pm' f
           \<and> low_region pm' = low_region pm \<and> high_region pm' = high_region pm"
proof -
  have im: "im_inv (normal_region pm)" using inv by (simp add: pm_inv_def)
  from im_alloc_some [OF im ne] obtain m f where a: "im_allocate_frame (normal_region pm) = Inr (m, Some f)"
    "f \<in> im_free (normal_region pm)" "im_inv m" "im_free m = im_free (normal_region pm) - {f}"
    "im_used_frames m = Suc (im_used_frames (normal_region pm))" "im_owns m = im_owns (normal_region pm)"
    "im_contains_frame m = im_contains_frame (normal_region pm)" by blast
  have "pm_pool f = 1"
    using im_free_owned [OF im a(2)] inv im_owns_contains by (auto simp: pm_inv_def)
  with a inv show ?thesis
    by (auto simp: try_normal_def took_from_def pm_inv_def pm_lent_def fun_eq_iff)
qed

lemma try_high_some:
  assumes inv: "pm_inv pm" and ne: "im_free (high_region pm) \<noteq> {}"
  shows "\<exists>pm' f. try_high pm = Inr (pm', Some f) \<and> took_from high_region pm pm' f
           \<and> low_region pm' = low_region pm \<and> normal_region pm' = normal_region pm"
proof -
  have im: "im_inv (high_region pm)" using inv by (simp add: pm_inv_def)
  from im_alloc_some [OF im ne] obtain m f where a: "im_allocate_frame (high_region pm) = Inr (m, Some f)"
    "f \<in> im_free (high_region pm)" "im_inv m" "im_free m = im_free (high_region pm) - {f}"
    "im_used_frames m = Suc (im_used_frames (high_region pm))" "im_owns m = im_owns (high_region pm)"
    "im_contains_frame m = im_contains_frame (high_region pm)" by blast
  have "pm_pool f = 2"
    using im_free_owned [OF im a(2)] inv im_owns_contains by (auto simp: pm_inv_def)
  with a inv show ?thesis
    by (auto simp: try_high_def took_from_def pm_inv_def pm_lent_def fun_eq_iff)
qed

lemma try_none:
  assumes "pm_inv pm"
  shows "im_free (low_region pm) = {} \<Longrightarrow> try_low pm = Inr (pm, None)"
    and "im_free (normal_region pm) = {} \<Longrightarrow> try_normal pm = Inr (pm, None)"
    and "im_free (high_region pm) = {} \<Longrightarrow> try_high pm = Inr (pm, None)"
  using assms mutex_bitmap.alloc_none
  by (simp_all add: pm_inv_def try_low_def try_normal_def try_high_def)

lemma free_pools:
  assumes "pm_inv pm"
  shows "f \<in> im_free (low_region pm) \<Longrightarrow> pm_pool f = 0"
    and "f \<in> im_free (normal_region pm) \<Longrightarrow> pm_pool f = 1"
    and "f \<in> im_free (high_region pm) \<Longrightarrow> pm_pool f = 2"
  using assms im_free_owned im_owns_contains by (auto simp: pm_inv_def)

text \<open>What a successful allocation from a set of regions does.\<close>

definition took :: "(physmem \<Rightarrow> frame set) \<Rightarrow> (physmem \<Rightarrow> frame \<Rightarrow> bool) \<Rightarrow> physmem \<Rightarrow> physmem \<Rightarrow> frame \<Rightarrow> bool" where
  "took fr ow pm pm' f \<longleftrightarrow> f \<in> fr pm \<and> pm_inv pm' \<and> fr pm' = fr pm - {f}
     \<and> pm_lent pm' = (pm_lent pm)(pm_pool f := Suc (pm_lent pm (pm_pool f))) \<and> ow pm' = ow pm"

lemma took_fromD:
  assumes "took_from reg pm pm' f"
  shows "f \<in> im_free (reg pm)" "pm_inv pm'" "im_free (reg pm') = im_free (reg pm) - {f}"
    "pm_lent pm' = (pm_lent pm)(pm_pool f := Suc (pm_lent pm (pm_pool f)))"
    "im_owns (reg pm') = im_owns (reg pm)"
  using assms by (simp_all only: took_from_def)

lemma tookI:
  "f \<in> fr pm \<Longrightarrow> pm_inv pm' \<Longrightarrow> fr pm' = fr pm - {f} \<Longrightarrow>
   pm_lent pm' = (pm_lent pm)(pm_pool f := Suc (pm_lent pm (pm_pool f))) \<Longrightarrow> ow pm' = ow pm \<Longrightarrow>
   took fr ow pm pm' f"
  by (simp add: took_def)

lemma tookD:
  assumes "took fr ow pm pm' f"
  shows "f \<in> fr pm" "pm_inv pm'" "fr pm' = fr pm - {f}"
    "pm_lent pm' = (pm_lent pm)(pm_pool f := Suc (pm_lent pm (pm_pool f)))" "ow pm' = ow pm"
  using assms by (simp_all only: took_def)

lemma took_kernel_of_low:
  assumes inv: "pm_inv pm" and t: "took_from low_region pm pm' f"
    and n: "normal_region pm' = normal_region pm"
  shows "took kernel_free kernel_owns pm pm' f"
proof (rule tookI)
  have "f \<notin> im_free (normal_region pm)"
    using free_pools [OF inv, of f] took_fromD(1) [OF t] by auto
  then show "kernel_free pm' = kernel_free pm - {f}"
    using took_fromD(3) [OF t] n by (auto simp: kernel_free_def)
  show "kernel_owns pm' = kernel_owns pm"
    using took_fromD(5) [OF t] n by (intro ext) (simp add: kernel_owns_def)
qed (use took_fromD [OF t] in \<open>auto simp: kernel_free_def\<close>)

lemma took_kernel_of_normal:
  assumes inv: "pm_inv pm" and t: "took_from normal_region pm pm' f"
    and n: "low_region pm' = low_region pm"
  shows "took kernel_free kernel_owns pm pm' f"
proof (rule tookI)
  have "f \<notin> im_free (low_region pm)"
    using free_pools [OF inv, of f] took_fromD(1) [OF t] by auto
  then show "kernel_free pm' = kernel_free pm - {f}"
    using took_fromD(3) [OF t] n by (auto simp: kernel_free_def)
  show "kernel_owns pm' = kernel_owns pm"
    using took_fromD(5) [OF t] n by (intro ext) (simp add: kernel_owns_def)
qed (use took_fromD [OF t] in \<open>auto simp: kernel_free_def\<close>)

lemma took_user_of_kernel:
  assumes inv: "pm_inv pm" and t: "took kernel_free kernel_owns pm pm' f"
    and n: "high_region pm' = high_region pm"
  shows "took user_free user_owns pm pm' f"
proof (rule tookI)
  have "f \<notin> im_free (high_region pm)"
    using free_pools [OF inv, of f] tookD(1) [OF t] by (auto simp: kernel_free_def)
  then show "user_free pm' = user_free pm - {f}"
    using tookD(3) [OF t] n by (auto simp: user_free_def)
  show "user_owns pm' = user_owns pm"
    using tookD(5) [OF t] n by (intro ext) (simp add: user_owns_def)
qed (use tookD [OF t] in \<open>auto simp: user_free_def\<close>)

lemma took_user_of_high:
  assumes inv: "pm_inv pm" and t: "took_from high_region pm pm' f"
    and n: "low_region pm' = low_region pm" "normal_region pm' = normal_region pm"
  shows "took user_free user_owns pm pm' f"
proof (rule tookI)
  have "f \<notin> kernel_free pm"
    using free_pools [OF inv, of f] took_fromD(1) [OF t] by (auto simp: kernel_free_def)
  then show "user_free pm' = user_free pm - {f}"
    using took_fromD(3) [OF t] n by (auto simp: user_free_def kernel_free_def)
  show "user_owns pm' = user_owns pm"
    using took_fromD(5) [OF t] n by (intro ext) (simp add: user_owns_def kernel_owns_def)
qed (use took_fromD [OF t] in \<open>auto simp: user_free_def\<close>)

lemma allocate_kernel_some:
  assumes inv: "pm_inv pm" and ne: "kernel_free pm \<noteq> {}"
  shows "\<exists>pm' f. allocate_kernel_frame pm = Inr (pm', Some f) \<and> took kernel_free kernel_owns pm pm' f
           \<and> high_region pm' = high_region pm"
proof (cases "im_free (normal_region pm) = {}")
  case True
  with ne have "im_free (low_region pm) \<noteq> {}" by (simp add: kernel_free_def)
  from try_low_some [OF inv this] obtain pm' f where "try_low pm = Inr (pm', Some f)"
      "took_from low_region pm pm' f" "normal_region pm' = normal_region pm"
      "high_region pm' = high_region pm" by blast
  with try_none(2) [OF inv True] took_kernel_of_low [OF inv] show ?thesis
    by (auto simp: allocate_kernel_frame_def or_else_alloc_def)
next
  case False
  from try_normal_some [OF inv this] obtain pm' f where "try_normal pm = Inr (pm', Some f)"
      "took_from normal_region pm pm' f" "low_region pm' = low_region pm"
      "high_region pm' = high_region pm" by blast
  with took_kernel_of_normal [OF inv] show ?thesis
    by (auto simp: allocate_kernel_frame_def or_else_alloc_def)
qed

lemma allocate_kernel_none:
  assumes "pm_inv pm" and "kernel_free pm = {}"
  shows "allocate_kernel_frame pm = Inr (pm, None)"
  using try_none [OF assms(1)] assms(2)
  by (simp add: kernel_free_def allocate_kernel_frame_def or_else_alloc_def)

lemma allocate_user_eq:
  "allocate_user_frame = or_else_alloc try_high allocate_kernel_frame"
  by (rule ext) (auto simp: allocate_user_frame_def allocate_kernel_frame_def or_else_alloc_def
      bindR_assoc bindR_def split: sum.splits option.splits prod.splits)

lemma allocate_user_some:
  assumes inv: "pm_inv pm" and ne: "user_free pm \<noteq> {}"
  shows "\<exists>pm' f. allocate_user_frame pm = Inr (pm', Some f) \<and> took user_free user_owns pm pm' f"
proof (cases "im_free (high_region pm) = {}")
  case True
  with ne have "kernel_free pm \<noteq> {}" by (simp add: user_free_def)
  from allocate_kernel_some [OF inv this] obtain pm' f where
      "allocate_kernel_frame pm = Inr (pm', Some f)" "took kernel_free kernel_owns pm pm' f"
      "high_region pm' = high_region pm" by blast
  with try_none(3) [OF inv True] took_user_of_kernel [OF inv] show ?thesis
    by (auto simp: allocate_user_eq or_else_alloc_def)
next
  case False
  from try_high_some [OF inv this] obtain pm' f where "try_high pm = Inr (pm', Some f)"
      "took_from high_region pm pm' f" "low_region pm' = low_region pm"
      "normal_region pm' = normal_region pm" by blast
  with took_user_of_high [OF inv] show ?thesis
    by (auto simp: allocate_user_eq or_else_alloc_def)
qed

lemma allocate_user_none:
  assumes "pm_inv pm" and "user_free pm = {}"
  shows "allocate_user_frame pm = Inr (pm, None)"
  using try_none [OF assms(1)] allocate_kernel_none [OF assms(1)] assms(2)
  by (simp add: user_free_def allocate_user_eq or_else_alloc_def)

text \<open>A deallocation goes back to the region that owns the frame.\<close>

lemma pm_deallocate_some:
  assumes inv: "pm_inv pm" and own: "user_owns pm f" and nf: "f \<notin> user_free pm"
    and lent: "0 < pm_lent pm (pm_pool f)"
  shows "\<exists>pm'. pm_deallocate_frame pm f = Inr pm' \<and> pm_inv pm'
     \<and> user_free pm' = insert f (user_free pm)
     \<and> (kernel_owns pm f \<longrightarrow> kernel_free pm' = insert f (kernel_free pm))
     \<and> (\<not> kernel_owns pm f \<longrightarrow> kernel_free pm' = kernel_free pm)
     \<and> pm_lent pm' = (pm_lent pm)(pm_pool f := pm_lent pm (pm_pool f) - 1)
     \<and> user_owns pm' = user_owns pm \<and> kernel_owns pm' = kernel_owns pm"
proof -
  have pools: "im_contains_frame (low_region pm) f \<longrightarrow> pm_pool f = 0"
      "im_contains_frame (normal_region pm) f \<longrightarrow> pm_pool f = 1"
      "im_contains_frame (high_region pm) f \<longrightarrow> pm_pool f = 2"
      and imi: "im_inv (low_region pm)" "im_inv (normal_region pm)" "im_inv (high_region pm)"
    using inv by (auto simp: pm_inv_def)
  have nfs: "f \<notin> im_free (low_region pm)" "f \<notin> im_free (normal_region pm)" "f \<notin> im_free (high_region pm)"
    using nf by (auto simp: user_free_def kernel_free_def)
  consider (low) "im_owns (low_region pm) f" | (normal) "im_owns (normal_region pm) f"
    | (high) "im_owns (high_region pm) f" using own by (auto simp: user_owns_def kernel_owns_def)
  then show ?thesis
  proof cases
    case low
    then have c: "im_contains_frame (low_region pm) f" "pm_pool f = 0"
      using im_owns_contains pools by auto
    have "0 < im_used_frames (low_region pm)" using lent c(2) by (simp add: pm_lent_def)
    from im_dealloc_some [OF imi(1) low nfs(1) this] obtain m where a:
      "im_deallocate_frame (low_region pm) f = Inr m" "im_inv m"
      "im_free m = insert f (im_free (low_region pm))"
      "im_used_frames m = im_used_frames (low_region pm) - 1"
      "im_owns m = im_owns (low_region pm)" "im_contains_frame m = im_contains_frame (low_region pm)"
      by blast
    show ?thesis
      using a c inv low
      by (auto simp: pm_deallocate_frame_def pm_defs pm_lent_def fun_eq_iff)
  next
    case normal
    then have c: "im_contains_frame (normal_region pm) f" "pm_pool f = 1"
        "\<not> im_contains_frame (low_region pm) f"
      using im_owns_contains pools by auto
    have "0 < im_used_frames (normal_region pm)" using lent c(2) by (simp add: pm_lent_def)
    from im_dealloc_some [OF imi(2) normal nfs(2) this] obtain m where a:
      "im_deallocate_frame (normal_region pm) f = Inr m" "im_inv m"
      "im_free m = insert f (im_free (normal_region pm))"
      "im_used_frames m = im_used_frames (normal_region pm) - 1"
      "im_owns m = im_owns (normal_region pm)" "im_contains_frame m = im_contains_frame (normal_region pm)"
      by blast
    show ?thesis
      using a c inv normal
      by (auto simp: pm_deallocate_frame_def pm_defs pm_lent_def fun_eq_iff)
  next
    case high
    then have c: "im_contains_frame (high_region pm) f" "pm_pool f = 2"
        "\<not> im_contains_frame (low_region pm) f" "\<not> im_contains_frame (normal_region pm) f"
      using im_owns_contains pools by auto
    then have nk: "\<not> kernel_owns pm f" using im_owns_contains by (auto simp: kernel_owns_def)
    have "0 < im_used_frames (high_region pm)" using lent c(2) by (simp add: pm_lent_def)
    from im_dealloc_some [OF imi(3) high nfs(3) this] obtain m where a:
      "im_deallocate_frame (high_region pm) f = Inr m" "im_inv m"
      "im_free m = insert f (im_free (high_region pm))"
      "im_used_frames m = im_used_frames (high_region pm) - 1"
      "im_owns m = im_owns (high_region pm)" "im_contains_frame m = im_contains_frame (high_region pm)"
      by blast
    show ?thesis
      using a c inv nk
      by (auto simp: pm_deallocate_frame_def pm_defs pm_lent_def fun_eq_iff)
  qed
qed

interpretation kernel_frames: frame_source pm_inv kernel_free pm_pool pm_lent kernel_owns
  allocate_kernel_frame pm_deallocate_frame
proof (unfold_locales, goal_cases)
  case (1 pm)
  then show ?case by (simp add: pm_inv_def kernel_free_def mutex_bitmap.free_finite)
next
  case (2 pm f)
  then show ?case by (auto simp: pm_defs im_free_owned)
next
  case (3 pm)
  then show ?case by (rule allocate_kernel_none)
next
  case (4 pm)
  then show ?case using allocate_kernel_some [of pm] by (auto simp: took_def)
next
  case (5 pm f)
  then have "user_owns pm f" "f \<notin> im_free (high_region pm)"
    using free_pools(3) [OF 5(1), of f] im_owns_contains
    by (auto simp: user_owns_def kernel_owns_def pm_inv_def)
  then show ?case using pm_deallocate_some [of pm f] 5 by (auto simp: user_free_def)
qed

interpretation user_frames: frame_source pm_inv user_free pm_pool pm_lent user_owns
  allocate_user_frame pm_deallocate_frame
proof (unfold_locales, goal_cases)
  case (1 pm)
  then show ?case by (simp add: pm_inv_def user_free_def kernel_free_def mutex_bitmap.free_finite)
next
  case (2 pm f)
  then show ?case by (auto simp: pm_defs im_free_owned)
next
  case (3 pm)
  then show ?case by (rule allocate_user_none)
next
  case (4 pm)
  then show ?case using allocate_user_some [of pm] by (auto simp: took_def)
next
  case (5 pm f)
  then show ?case using pm_deallocate_some [of pm f] by auto
qed

section \<open>Boot\<close>

lemma region_constants:
  "UNUSED_LOW_FRAMES = 16" "LOW_REGION_FRAMES = 4096" "NORMAL_REGION_FRAMES = 2 ^ 20"
  "HIGH_REGION_FRAMES = 2 ^ 52 - 1"
proof -
  have "(2::nat) ^ 64 - 1 < usize_limit" by (simp add: usize_limit_def)
  then have "HIGH_REGION_SIZE_LIMIT = (2 ^ 64 - 1) - (2 ^ 64 - 1) mod PAGE_SIZE"
    unfolding HIGH_REGION_SIZE_LIMIT_def by (rule page_align_down_eq)
  then show "HIGH_REGION_FRAMES = 2 ^ 52 - 1"
    by (simp add: HIGH_REGION_FRAMES_def PAGE_SIZE_def)
qed (simp_all add: UNUSED_LOW_FRAMES_def LOW_REGION_BASE_def LOW_REGION_FRAMES_def
      LOW_REGION_SIZE_LIMIT_def NORMAL_REGION_FRAMES_def NORMAL_REGION_SIZE_LIMIT_def PAGE_SIZE_def)

lemma map_frames_join:
  "a \<le> b \<Longrightarrow> b \<le> c \<Longrightarrow> map_frames a b mmap P \<union> map_frames b c mmap P = map_frames a c mmap P"
  by (auto simp: map_frames_def)

lemma contains_pool:
  assumes "start_frame r = s" and "limit_frame r = l"
  shows "s = UNUSED_LOW_FRAMES \<Longrightarrow> l = LOW_REGION_FRAMES \<Longrightarrow> contains_frame r f \<Longrightarrow> pm_pool f = 0"
    and "s = LOW_REGION_FRAMES \<Longrightarrow> l = NORMAL_REGION_FRAMES \<Longrightarrow> contains_frame r f \<Longrightarrow> pm_pool f = 1"
    and "s = NORMAL_REGION_FRAMES \<Longrightarrow> l = HIGH_REGION_FRAMES \<Longrightarrow> contains_frame r f \<Longrightarrow> pm_pool f = 2"
  using assms by (auto simp: contains_frame_def pm_pool_def region_constants)

lemma low_region_boot:
  assumes "aligned_map mmap" and "disjoint_map mmap"
  shows "\<exists>r. early_init mmap pm = Inr (pm\<lparr>low_region := Some r\<rparr>) \<and> region_inv r
           \<and> free_set r = map_frames UNUSED_LOW_FRAMES LOW_REGION_FRAMES mmap usable
           \<and> start_frame r = UNUSED_LOW_FRAMES \<and> limit_frame r = LOW_REGION_FRAMES"
proof -
  let ?bm = "replicate ((LOW_REGION_FRAMES + 7) div 8) (0 :: u8)"
  have len: "8 * length ?bm = 4096" by (simp add: region_constants)
  have lim: "UNUSED_LOW_FRAMES \<le> LOW_REGION_FRAMES" "LOW_REGION_FRAMES * PAGE_SIZE < usize_limit"
      "UNUSED_LOW_FRAMES + 8 * length ?bm < usize_limit"
    unfolding len by (simp_all add: region_constants PAGE_SIZE_def usize_limit_def)
  have "\<forall>s \<in> set (boot_filter UNUSED_LOW_FRAMES LOW_REGION_FRAMES usable mmap).
      fm_limit s div PAGE_SIZE \<le> UNUSED_LOW_FRAMES + 8 * length ?bm"
  proof
    fix s assume "s \<in> set (boot_filter UNUSED_LOW_FRAMES LOW_REGION_FRAMES usable mmap)"
    then have "fm_limit s div PAGE_SIZE \<le> LOW_REGION_FRAMES" by (rule boot_filter_bounds(3))
    then show "fm_limit s div PAGE_SIZE \<le> UNUSED_LOW_FRAMES + 8 * length ?bm"
      unfolding len by (simp add: region_constants)
  qed
  from region_new_spec [OF lim assms this] show ?thesis
    by (auto simp: early_init_def mutex_init_def)
qed


definition example_map :: "memory_region list" where
  "example_map = [\<lparr>start_addr = 0x1000, end_addr = 0x9000, region_type = Usable\<rparr>,
     \<lparr>start_addr = 0x100000, end_addr = 0x200000, region_type = Usable\<rparr>,
     \<lparr>start_addr = 0x200000, end_addr = 0x300000, region_type = Bootloader\<rparr>]"

lemma example_map_ok: "aligned_map example_map" "disjoint_map example_map"
  by (simp_all add: example_map_def aligned_map_def PAGE_SIZE_def)


section \<open>Properties of the frame allocator\<close>

lemma kernel_free_mapped: "pm_inv pm \<Longrightarrow> f \<in> kernel_free pm \<Longrightarrow> f < NORMAL_REGION_FRAMES"
  using free_pools [of pm f] by (auto simp: kernel_free_def pm_pool_def region_constants split: if_splits)

definition example_physmem :: physmem where
  "example_physmem = \<lparr>low_region = Some example_region, normal_region = None, high_region = None\<rparr>"

lemma example_physmem_inv: "pm_inv example_physmem"
  using example_region_inv
  by (auto simp: pm_inv_def example_physmem_def pm_pool_def region_constants contains_frame_def
      example_region_def)

lemma example_physmem_free: "kernel_free example_physmem = {258, 264, 265}"
    "user_free example_physmem = {258, 264, 265}"
  by (simp_all add: kernel_free_def user_free_def example_physmem_def example_free_set)

text \<open>
  C23. Any number of kernel frame allocations in a row delivers pairwise distinct frames that
  were free, all below 4GiB so that the kernel can reach them, as many as asked for or as
  there are; freeing them all restores the free frames and every region's used counter.
\<close>

theorem kernel_frames_distinct_and_restored:
  assumes "pm_inv pm"
  shows "\<exists>pm1 fs pm2. alloc_many allocate_kernel_frame n pm = Inr (pm1, fs) \<and> pm_inv pm1
     \<and> distinct fs \<and> set fs \<subseteq> kernel_free pm \<inter> {..<NORMAL_REGION_FRAMES}
     \<and> length fs = min n (card (kernel_free pm)) \<and> kernel_free pm1 = kernel_free pm - set fs
     \<and> dealloc_many pm_deallocate_frame fs pm1 = Inr pm2 \<and> pm_inv pm2
     \<and> kernel_free pm2 = kernel_free pm \<and> pm_lent pm2 = pm_lent pm"
proof -
  from kernel_frames.alloc_many_spec [OF assms, of n] obtain pm1 fs where a:
    "alloc_many allocate_kernel_frame n pm = Inr (pm1, fs)" "pm_inv pm1" "distinct fs"
    "set fs \<subseteq> kernel_free pm" "kernel_free pm1 = kernel_free pm - set fs"
    "length fs = min n (card (kernel_free pm))" by blast
  moreover from kernel_frames.alloc_many_dealloc_many [OF assms a(1)] obtain pm2 where
    "dealloc_many pm_deallocate_frame fs pm1 = Inr pm2" "pm_inv pm2"
    "kernel_free pm2 = kernel_free pm" "pm_lent pm2 = pm_lent pm" by blast
  moreover have "set fs \<subseteq> {..<NORMAL_REGION_FRAMES}"
    using a(4) kernel_free_mapped [OF assms] by auto
  ultimately show ?thesis by (intro exI [of _ pm1] exI [of _ fs] exI [of _ pm2]) simp
qed

theorem kernel_frames_distinct_and_restored_witness:
  "pm_inv example_physmem \<and> (\<exists>pm1 fs. alloc_many allocate_kernel_frame 2 example_physmem = Inr (pm1, fs)
     \<and> distinct fs \<and> length fs = 2 \<and> set fs \<subseteq> {258, 264, 265})"
  using kernel_frames_distinct_and_restored [OF example_physmem_inv, of 2] example_physmem_inv
  by (auto simp: example_physmem_free)

text \<open>
  A user frame allocation never panics on a well-formed memory manager, fails exactly when
  all three regions are exhausted, and takes a frame of the high region whenever that has one.
  The frame it returns leaves the free set and nothing else does.
\<close>

theorem allocate_user_frame_total:
  assumes "pm_inv pm"
  shows "\<exists>pm' x. allocate_user_frame pm = Inr (pm', x) \<and> pm_inv pm'
     \<and> (x = None \<longleftrightarrow> user_free pm = {})
     \<and> user_free pm' = user_free pm - set_option x
     \<and> set_option x \<subseteq> (if im_free (high_region pm) = {} then kernel_free pm else im_free (high_region pm))"
proof (cases "im_free (high_region pm) = {}")
  case True
  then have u: "user_free pm = kernel_free pm" by (simp add: user_free_def)
  show ?thesis
  proof (cases "user_free pm = {}")
    case True
    with allocate_user_none [OF assms] assms show ?thesis by simp
  next
    case False
    from allocate_user_some [OF assms this] obtain pm' f where
      "allocate_user_frame pm = Inr (pm', Some f)" "took user_free user_owns pm pm' f" by blast
    with True u False show ?thesis by (auto simp: took_def)
  qed
next
  case False
  from try_high_some [OF assms this] obtain pm' f where h: "try_high pm = Inr (pm', Some f)"
      "took_from high_region pm pm' f" "low_region pm' = low_region pm"
      "normal_region pm' = normal_region pm" by blast
  then have "allocate_user_frame pm = Inr (pm', Some f)" "took user_free user_owns pm pm' f"
    using took_user_of_high [OF assms] by (auto simp: allocate_user_eq or_else_alloc_def)
  with False h(2) show ?thesis by (auto simp: took_def took_from_def)
qed

theorem allocate_user_frame_total_witness:
  "pm_inv example_physmem \<and> (\<exists>pm' f. allocate_user_frame example_physmem = Inr (pm', Some f)
     \<and> f \<in> {258, 264, 265} \<and> user_free pm' = {258, 264, 265} - {f})"
proof -
  from allocate_user_frame_total [OF example_physmem_inv] obtain pm' x where a:
    "allocate_user_frame example_physmem = Inr (pm', x)" "x = None \<longleftrightarrow> user_free example_physmem = {}"
    "user_free pm' = user_free example_physmem - set_option x"
    "set_option x \<subseteq> (if im_free (high_region example_physmem) = {} then kernel_free example_physmem
        else im_free (high_region example_physmem))" by blast
  have "x \<noteq> None" using a(2) by (simp add: example_physmem_free)
  then obtain f where x: "x = Some f" by blast
  have "im_free (high_region example_physmem) = {}" by (simp add: example_physmem_def)
  then have "f \<in> {258, 264, 265}" using a(4) x by (simp add: example_physmem_free)
  then show ?thesis using a(1,3) x example_physmem_inv example_physmem_free(2) by simp
qed

end
