(* ===== verification/Page_Table.thy ===== *)
theory Page_Table
  imports Page_Entry Phys_Mem
begin

text \<open>
  \<^verbatim>\<open>src/src/paging/table.rs\<close>, \<^verbatim>\<open>src/src/paging/mapper.rs\<close> and the active page table of
  \<^verbatim>\<open>src/src/paging/mod.rs\<close>. The kernel reaches a table through the identity mapping of
  physical memory, so a table is named by its frame and the state holds, for every frame,
  the 512 entries its memory spells. The four levels share one table type; the level
  markers of the source have no run-time content.
\<close>

section \<open>State\<close>

datatype memory_error =
  NotMapped | NoRegionAddressSpaceAvailable | OutOfMemory | InvalidStack | InvalidRegion

text \<open>TLB maintenance: one page, or everything together with a TLB interrupt to the other CPUs.\<close>

datatype tlb_event = FlushPage usize | FlushAll

record kmem =
  km_phys :: physmem
  km_tables :: "frame \<Rightarrow> nat \<Rightarrow> raw_pte"
  km_cr3 :: u64
  km_page_lock :: bool
  km_tlb :: "tlb_event list"

type_synonym 'a kop = "(kmem, memory_error, 'a) op"

section \<open>Table indices and the identity map\<close>

definition ENTRY_COUNT :: nat where
  "ENTRY_COUNT = 512"

definition new_truncate :: "nat \<Rightarrow> nat" where
  "new_truncate val = val mod ENTRY_COUNT"

definition index_try_from :: "nat \<Rightarrow> nat option" where
  "index_try_from val = (if val < 2 ^ 16 then if val < ENTRY_COUNT then Some val else None else None)"

definition p1_index :: "usize \<Rightarrow> nat" where
  "p1_index va = new_truncate (drop_bit 12 va mod 2 ^ 16)"

definition p2_index :: "usize \<Rightarrow> nat" where
  "p2_index va = new_truncate (drop_bit 9 (drop_bit 12 va) mod 2 ^ 16)"

definition p3_index :: "usize \<Rightarrow> nat" where
  "p3_index va = new_truncate (drop_bit 9 (drop_bit 9 (drop_bit 12 va)) mod 2 ^ 16)"

definition p4_index :: "usize \<Rightarrow> nat" where
  "p4_index va = new_truncate (drop_bit 9 (drop_bit 9 (drop_bit 9 (drop_bit 12 va))) mod 2 ^ 16)"

definition IDENTITY_MAP_REGION :: usize where
  "IDENTITY_MAP_REGION = 0xffff808000000000"

definition IDENTITY_MAP_SIZE :: usize where
  "IDENTITY_MAP_SIZE = 0x100000000"

definition phys_to_virt_addr :: "usize \<Rightarrow> usize \<Rightarrow> usize res" where
  "phys_to_virt_addr phys_addr len =
     bindR (uadd phys_addr len) (\<lambda>e.
     bindR (guardR (e < IDENTITY_MAP_SIZE) (Assertion ''phys_addr + length < IDENTITY_MAP_SIZE'')) (\<lambda>_.
     uadd phys_addr IDENTITY_MAP_REGION))"

text \<open>
  \<^verbatim>\<open>&mut *phys_to_virt_mut(f.physical_address())\<close> for a page table: the table in frame \<open>f\<close>,
  provided the identity map covers it.
\<close>

definition table_ref :: "frame \<Rightarrow> frame res" where
  "table_ref f =
     bindR (physical_address f) (\<lambda>pa. bindR (phys_to_virt_addr pa (8 * ENTRY_COUNT)) (\<lambda>_. Inr f))"

section \<open>Tables\<close>

definition get_entry :: "kmem \<Rightarrow> frame \<Rightarrow> nat \<Rightarrow> raw_pte res" where
  "get_entry km t i = (if i < ENTRY_COUNT then Inr (km_tables km t i) else Inl IndexOutOfBounds)"

definition set_entry :: "frame \<Rightarrow> nat \<Rightarrow> raw_pte \<Rightarrow> kmem \<Rightarrow> kmem res" where
  "set_entry t i p km =
     (if i < ENTRY_COUNT then Inr (km\<lparr>km_tables := (km_tables km)(t := (km_tables km t)(i := p))\<rparr>)
      else Inl IndexOutOfBounds)"

definition next_table_frame :: "kmem \<Rightarrow> frame \<Rightarrow> nat \<Rightarrow> frame option res" where
  "next_table_frame km t i =
     bindR (get_entry km t i) (\<lambda>e.
     Inr (case pte_present e of Inl _ \<Rightarrow> None | Inr p \<Rightarrow> Some (pte_frame p)))"

definition next_table :: "kmem \<Rightarrow> frame \<Rightarrow> nat \<Rightarrow> frame option res" where
  "next_table km t i =
     bindR (next_table_frame km t i) (\<lambda>x. case x of
        None \<Rightarrow> Inr None
      | Some f \<Rightarrow> bindR (table_ref f) (\<lambda>u. Inr (Some u)))"

definition create_next_table :: "frame \<Rightarrow> nat \<Rightarrow> frame kop" where
  "create_next_table t i = (\<lambda>km.
     bindR (next_table_frame km t i) (\<lambda>x.
     bindR (case x of
        Some _ \<Rightarrow> Inr km
      | None \<Rightarrow>
          bindR (get_entry km t i) (\<lambda>e.
          bindR (guardR (\<not> (case pte_present e of Inl _ \<Rightarrow> False | Inr p \<Rightarrow> is_huge p))
                   (Assertion ''Huge page not supported'')) (\<lambda>_.
          bindR (allocate_kernel_frame (km_phys km)) (\<lambda>(pm', y).
          bindR (unwrapR (Expectation ''Failed to allocate frame in boot_create_next_table'') y) (\<lambda>f.
          bindR (from_frame_and_flags f (WRITABLE OR USER_ACCESSIBLE)) (\<lambda>p.
          set_entry t i p (km\<lparr>km_phys := pm'\<rparr>))))))) (\<lambda>km'.
     bindR (next_table km' t i) (\<lambda>z.
     bindR (unwrapR UnwrapNone z) (\<lambda>u. Inr (km', Inr u))))))"

definition table_zero :: "frame \<Rightarrow> kmem \<Rightarrow> kmem" where
  "table_zero t km = km\<lparr>km_tables := (km_tables km)(t := (\<lambda>i. if i < ENTRY_COUNT then raw_unused
     else km_tables km t i))\<rparr>"

definition table_do_set_pte :: "frame \<Rightarrow> nat \<Rightarrow> raw_pte \<Rightarrow> kmem \<Rightarrow> kmem res" where
  "table_do_set_pte t i new_pte km =
     bindR (get_entry km t i) (\<lambda>e.
     bindR (guardR (\<not> is_present e) (Assertion ''!pte.is_present()'')) (\<lambda>_.
     set_entry t i new_pte km))"

section \<open>Mapper\<close>

text \<open>
  A \<^verbatim>\<open>Mapper\<close> is the frame of its level 4 table; a reference to an entry is a table frame and
  an index. The pending \<^verbatim>\<open>MapperFlush\<close> that mapping operations return is the page address.
\<close>

definition mapper_new :: "frame \<Rightarrow> frame res" where
  "mapper_new p4_frame = table_ref p4_frame"

definition and_then_table :: "kmem \<Rightarrow> frame option res \<Rightarrow> nat \<Rightarrow> frame option res" where
  "and_then_table km m i = bindR m (\<lambda>x. case x of None \<Rightarrow> Inr None | Some t \<Rightarrow> next_table km t i)"

definition get_pte_for_address :: "kmem \<Rightarrow> frame \<Rightarrow> usize \<Rightarrow> (frame \<times> nat) option res" where
  "get_pte_for_address km p4 addr =
     bindR (and_then_table km
              (and_then_table km (next_table km p4 (p4_index addr)) (p3_index addr)) (p2_index addr))
       (\<lambda>x. Inr (case x of None \<Rightarrow> None | Some p1 \<Rightarrow> Some (p1, p1_index addr)))"

definition create_pte_mut_for_address :: "frame \<Rightarrow> usize \<Rightarrow> (frame \<times> nat) kop" where
  "create_pte_mut_for_address p4 addr =
     bindE (create_next_table p4 (p4_index addr)) (\<lambda>p3.
     bindE (create_next_table p3 (p3_index addr)) (\<lambda>p2.
     bindE (create_next_table p2 (p2_index addr)) (\<lambda>p1.
     okE (p1, p1_index addr))))"

definition map_to :: "frame \<Rightarrow> usize \<Rightarrow> frame \<Rightarrow> u64 \<Rightarrow> usize kop" where
  "map_to p4 page frm flags =
     bindE (create_pte_mut_for_address p4 page) (\<lambda>(t, i) km.
     bindR (get_entry km t i) (\<lambda>e.
     bindR (guardR (e = raw_unused) (Assertion ''*pte == RawPte::unused()'')) (\<lambda>_.
     bindR (guardR (is_unused e) (Assertion ''pte.is_unused()'')) (\<lambda>_.
     bindR (from_frame_and_flags frm flags) (\<lambda>p.
     bindR (set_entry t i p km) (\<lambda>km'. Inr (km', Inr page)))))))"

definition unmap :: "frame \<Rightarrow> usize \<Rightarrow> bool \<Rightarrow> kmem \<Rightarrow> (kmem \<times> usize) res" where
  "unmap p4 page free km =
     bindR (get_pte_for_address km p4 page) (\<lambda>x. case x of
        None \<Rightarrow> Inr (km, page)
      | Some (t, i) \<Rightarrow>
          bindR (get_entry km t i) (\<lambda>e.
          bindR (if free
                 then case pte_present e of
                        Inl _ \<Rightarrow> Inr km
                      | Inr p \<Rightarrow> bindR (pm_deallocate_frame (km_phys km) (pte_frame p))
                                  (\<lambda>pm'. Inr (km\<lparr>km_phys := pm'\<rparr>))
                 else Inr km) (\<lambda>km'.
          bindR (set_entry t i np_unused km') (\<lambda>km''. Inr (km'', page)))))"

definition do_set_pte :: "frame \<Rightarrow> usize \<Rightarrow> raw_pte \<Rightarrow> usize kop" where
  "do_set_pte p4 page new_pte =
     bindE (create_pte_mut_for_address p4 page) (\<lambda>(t, i) km.
     bindR (get_entry km t i) (\<lambda>e.
     bindR (guardR (\<not> is_present e) (Assertion ''!pte.is_present()'')) (\<lambda>_.
     bindR (set_entry t i new_pte km) (\<lambda>km'. Inr (km', Inr page)))))"

section \<open>The active page table\<close>

text \<open>
  \<^verbatim>\<open>lock_page_table\<close> spins on the page lock: a second acquisition by the holder never
  returns. Its result stands for the guard and the mapper on the current \<^verbatim>\<open>cr3\<close>; dropping
  the guard is \<open>unlock_page_table\<close>.
\<close>

definition lock_page_table :: "kmem \<Rightarrow> (kmem \<times> frame) res" where
  "lock_page_table km =
     (if km_page_lock km then Inl Deadlock
      else bindR (mapper_new (containing_address (unat (km_cr3 km)))) (\<lambda>p4.
           Inr (km\<lparr>km_page_lock := True\<rparr>, p4)))"

definition unlock_page_table :: "kmem \<Rightarrow> kmem" where
  "unlock_page_table km = km\<lparr>km_page_lock := False\<rparr>"

definition mapper_flush :: "usize \<Rightarrow> kmem \<Rightarrow> kmem" where
  "mapper_flush addr km = km\<lparr>km_tlb := km_tlb km @ [FlushPage addr]\<rparr>"

definition flush_consume :: "bool \<Rightarrow> bool" where
  "flush_consume pending = True"

definition flush_all :: "bool \<Rightarrow> kmem \<Rightarrow> kmem" where
  "flush_all pending km = (if pending then km\<lparr>km_tlb := km_tlb km @ [FlushAll]\<rparr> else km)"

end
