(* ===== verification/Region_Table.thy ===== *)
theory Region_Table
  imports Page_Table
begin

text \<open>
  The region map of \<^verbatim>\<open>src/src/paging/heap_region.rs\<close>: a chain of pages, each with a fixed
  number of entries, that lists the kernel heap's address ranges in order. Entries are
  shuffled up and down across pages when a range is split or merged. The number of
  entries in a page and the size of the page structure depend on the compiler's layout of
  the entry type and are parameters.
\<close>

section \<open>Entries and pages\<close>

definition UNCACHED :: u64 where "UNCACHED = push_bit 0 1"
definition READ_ONLY :: u64 where "READ_ONLY = push_bit 1 1"

definition physical_mapping_page_flags :: "u64 \<Rightarrow> u64" where
  "physical_mapping_page_flags pmf =
     (let ret = GLOBAL OR NO_EXECUTE;
          ret = (if \<not> flags_contains pmf READ_ONLY then ret OR WRITABLE else ret)
      in if flags_contains pmf UNCACHED then ret OR NO_CACHE else ret)"

record physical_mapping =
  pmap_address :: usize
  pmap_flags :: u64

datatype region_kind = FreeRegion | Heap | KernelStack | PhysicalMapping physical_mapping

record region_map_entry =
  re_base :: usize
  re_limit :: usize
  re_type :: "region_kind option"

record region_info =
  ri_start :: usize
  ri_limit :: usize

record region_map_page =
  rp_frame :: "frame option"
  rp_entries :: "region_map_entry list"

text \<open>The compiler's layout: entries per page, and the size of \<^verbatim>\<open>RegionMapPage\<close>.\<close>

record region_layout =
  rl_entries :: nat
  rl_page_size :: usize

definition empty_entry :: region_map_entry where
  "empty_entry = \<lparr>re_base = 0, re_limit = 0, re_type = None\<rparr>"

definition entry_size :: "region_map_entry \<Rightarrow> usize res" where
  "entry_size e = usub (re_limit e) (re_base e)"

definition entry_info :: "region_map_entry \<Rightarrow> region_info" where
  "entry_info e = \<lparr>ri_start = re_base e, ri_limit = re_limit e\<rparr>"

definition info_size :: "region_info \<Rightarrow> usize res" where
  "info_size r = usub (ri_limit r) (ri_start r)"

definition page_from_frame :: "region_layout \<Rightarrow> frame \<Rightarrow> region_map_page" where
  "page_from_frame rl f = \<lparr>rp_frame = Some f, rp_entries = replicate (rl_entries rl) empty_entry\<rparr>"

text \<open>The manager is its chain of pages, the head page first.\<close>

definition manager_new :: "region_layout \<Rightarrow> usize \<Rightarrow> usize \<Rightarrow> region_map_page list" where
  "manager_new rl base limit =
     [\<lparr>rp_frame = None,
       rp_entries = (replicate (rl_entries rl) empty_entry)
         [0 := \<lparr>re_base = base, re_limit = limit, re_type = Some FreeRegion\<rparr>]\<rparr>]"

section \<open>Shuffling\<close>

text \<open>The inner loop of \<^verbatim>\<open>shuffle_entries_up\<close> over the entries of one page from its position on.\<close>

fun shift_in :: "region_map_entry \<Rightarrow> region_map_entry list \<Rightarrow> region_map_entry list \<times> region_map_entry" where
  "shift_in fill [] = ([], fill)"
| "shift_in fill (e # es) =
     (if re_type fill = None then (e # es, fill)
      else let (es', out) = shift_in e es in (fill # es', out))"

function shuffle_entries_up ::
  "region_layout \<Rightarrow> region_map_page list \<Rightarrow> nat \<Rightarrow> region_map_entry \<Rightarrow> frame option
     \<Rightarrow> (region_map_page list \<times> frame option) res" where
  "shuffle_entries_up rl [] pos fill table_frame = Inr ([], table_frame)"
| "shuffle_entries_up rl (p # ps) pos fill table_frame =
     (let (es, out) = shift_in fill (drop pos (rp_entries p));
          p' = p\<lparr>rp_entries := take pos (rp_entries p) @ es\<rparr>
      in if re_type out = None then Inr (p' # ps, table_frame)
         else if ps = [] then
           (case table_frame of
              None \<Rightarrow> Inl (Expectation ''No table frame provided'')
            | Some f \<Rightarrow>
                bindR (physical_address f) (\<lambda>pa.
                bindR (phys_to_virt_addr pa (rl_page_size rl)) (\<lambda>_.
                bindR (shuffle_entries_up rl [page_from_frame rl f] 0 out None) (\<lambda>(ps', tf).
                Inr (p' # ps', tf)))))
         else bindR (shuffle_entries_up rl ps 0 out table_frame) (\<lambda>(ps', tf). Inr (p' # ps', tf)))"
  by pat_completeness auto

termination
  by (relation "measure (\<lambda>(rl, ps, pos, fill, tf). length ps + (if tf = None then 0 else 1))") auto

declare shuffle_entries_up.simps [simp del]

text \<open>
  The inner loop of \<^verbatim>\<open>shuffle_entries_down\<close> over the entries of one page from its position
  on; the flag says that it reached the last entry of the page.
\<close>

fun slide :: "region_map_entry list \<Rightarrow> region_map_entry list \<times> bool" where
  "slide [] = ([], False)"
| "slide [e] = ([e], True)"
| "slide (e # e' # es) =
     (if re_type e' = None then (e' # e' # es, False)
      else let (es', b) = slide (e' # es) in (e' # es', b))"

fun shuffle_entries_down ::
  "region_map_page list \<Rightarrow> nat \<Rightarrow> physmem \<Rightarrow> (region_map_page list \<times> physmem) res" where
  "shuffle_entries_down [] pos pm = Inr ([], pm)"
| "shuffle_entries_down (p # ps) pos pm =
     (if length (rp_entries p) \<le> pos then Inl IndexOutOfBounds
      else let (es, last_reached) = slide (drop pos (rp_entries p));
          p' = p\<lparr>rp_entries := take pos (rp_entries p) @ es\<rparr>; lst = length (rp_entries p) - 1
      in if \<not> last_reached then Inr (p' # ps, pm)
         else case ps of
             [] \<Rightarrow> Inr ([p'\<lparr>rp_entries := (rp_entries p')[lst := empty_entry]\<rparr>], pm)
           | q # qs \<Rightarrow>
               if rp_entries q = [] then Inl IndexOutOfBounds
               else let e = rp_entries q ! 0; p'' = p'\<lparr>rp_entries := (rp_entries p')[lst := e]\<rparr>
               in if re_type e = None
                  then bindR (case rp_frame q of None \<Rightarrow> Inr pm | Some f \<Rightarrow> pm_deallocate_frame pm f)
                         (\<lambda>pm'. Inr ([p''], pm'))
                  else bindR (shuffle_entries_down ps 0 pm) (\<lambda>(ps', pm'). Inr (p'' # ps', pm')))"

section \<open>First fit\<close>

datatype scan_result = NoSpace | SplitAt nat | ExactAt nat | NextPage

fun scan_page :: "region_map_entry list \<Rightarrow> bool \<Rightarrow> usize \<Rightarrow> nat \<Rightarrow> scan_result res" where
  "scan_page [] last_page required i = Inr NextPage"
| "scan_page (e # es) last_page required i =
     (case re_type e of
        None \<Rightarrow> bindR (guardR last_page (Assertion ''Unexpected untyped entry'')) (\<lambda>_. Inr NoSpace)
      | Some FreeRegion \<Rightarrow>
          bindR (entry_size e) (\<lambda>s.
          if s > required then Inr (SplitAt i)
          else if s = required then Inr (ExactAt i)
          else scan_page es last_page required (Suc i))
      | Some _ \<Rightarrow> scan_page es last_page required (Suc i))"

text \<open>
  The mapper is the closure that \<^verbatim>\<open>allocate_region\<close> passes in: it maps the entry's pages and
  names the entry's new type.
\<close>

type_synonym region_mapper = "region_map_entry \<Rightarrow> region_kind kop"

definition free_frame :: "frame \<Rightarrow> kmem \<Rightarrow> kmem res" where
  "free_frame f km = bindR (pm_deallocate_frame (km_phys km) f) (\<lambda>pm. Inr (km\<lparr>km_phys := pm\<rparr>))"

definition allocate_split ::
  "region_layout \<Rightarrow> region_map_page \<Rightarrow> region_map_page list \<Rightarrow> nat \<Rightarrow> usize \<Rightarrow> region_mapper \<Rightarrow> kmem
     \<Rightarrow> (kmem \<times> region_map_page list \<times> (memory_error + region_info)) res" where
  "allocate_split rl p ps i required mapper km =
     (let e = rp_entries p ! i in
     bindR (allocate_kernel_frame (km_phys km)) (\<lambda>(pm, x). case x of
        None \<Rightarrow> Inr (km\<lparr>km_phys := pm\<rparr>, p # ps, Inl OutOfMemory)
      | Some table_frame \<Rightarrow>
          bindR (uadd (re_base e) required) (\<lambda>mid.
          let last_entry = \<lparr>re_base = mid, re_limit = re_limit e, re_type = Some FreeRegion\<rparr>;
              e' = e\<lparr>re_limit := mid\<rparr>
          in bindR (mapper e' (km\<lparr>km_phys := pm\<rparr>)) (\<lambda>(km', r). case r of
               Inl err \<Rightarrow>
                 bindR (free_frame table_frame km') (\<lambda>km''.
                 Inr (km'', p\<lparr>rp_entries := (rp_entries p)[i := e'\<lparr>re_limit := re_limit last_entry\<rparr>]\<rparr> # ps, Inl err))
             | Inr kind \<Rightarrow>
                 let p' = p\<lparr>rp_entries := (rp_entries p)[i := e'\<lparr>re_type := Some kind\<rparr>]\<rparr>
                 in bindR (shuffle_entries_up rl (p' # ps) (i + 1) last_entry (Some table_frame)) (\<lambda>(ps', tf).
                    bindR (case tf of None \<Rightarrow> Inr km' | Some f \<Rightarrow> free_frame f km') (\<lambda>km''.
                    Inr (km'', ps', Inr (entry_info e'))))))))"

definition allocate_exact ::
  "region_map_page \<Rightarrow> region_map_page list \<Rightarrow> nat \<Rightarrow> region_mapper \<Rightarrow> kmem
     \<Rightarrow> (kmem \<times> region_map_page list \<times> (memory_error + region_info)) res" where
  "allocate_exact p ps i mapper km =
     (let e = rp_entries p ! i in
     bindR (mapper e km) (\<lambda>(km', r). case r of
        Inl err \<Rightarrow> Inr (km', p # ps, Inl err)
      | Inr kind \<Rightarrow>
          Inr (km', p\<lparr>rp_entries := (rp_entries p)[i := e\<lparr>re_type := Some kind\<rparr>]\<rparr> # ps, Inr (entry_info e))))"

fun allocate_first_fit ::
  "region_layout \<Rightarrow> region_map_page list \<Rightarrow> usize \<Rightarrow> region_mapper \<Rightarrow> kmem
     \<Rightarrow> (kmem \<times> region_map_page list \<times> (memory_error + region_info)) res" where
  "allocate_first_fit rl [] required mapper km = Inr (km, [], Inl NoRegionAddressSpaceAvailable)"
| "allocate_first_fit rl (p # ps) required mapper km =
     bindR (scan_page (rp_entries p) (ps = []) required 0) (\<lambda>s. case s of
        NoSpace \<Rightarrow> Inr (km, p # ps, Inl NoRegionAddressSpaceAvailable)
      | SplitAt i \<Rightarrow> allocate_split rl p ps i required mapper km
      | ExactAt i \<Rightarrow> allocate_exact p ps i mapper km
      | NextPage \<Rightarrow>
          bindR (allocate_first_fit rl ps required mapper km) (\<lambda>(km', ps', r). Inr (km', p # ps', r)))"

section \<open>The table as a list\<close>

text \<open>
  A chain of pages represents the list of its typed entries: they fill the pages in order,
  and fewer than a page's worth of empty entries, or one empty page, follow them.
\<close>

definition typed :: "region_map_entry list \<Rightarrow> bool" where
  "typed us \<longleftrightarrow> (\<forall>u \<in> set us. re_type u \<noteq> None)"

definition table_rep :: "region_layout \<Rightarrow> region_map_page list \<Rightarrow> region_map_entry list \<Rightarrow> bool" where
  "table_rep rl ps us \<longleftrightarrow> ps \<noteq> [] \<and> (\<forall>p \<in> set ps. length (rp_entries p) = rl_entries rl) \<and> typed us
     \<and> (\<exists>k \<le> rl_entries rl. concat (map rp_entries ps) = us @ replicate k empty_entry)"

definition layout_wf :: "region_layout \<Rightarrow> bool" where
  "layout_wf rl \<longleftrightarrow> 0 < rl_entries rl \<and> rl_page_size rl \<le> PAGE_SIZE"

lemma typed_simps [simp]:
  "typed []" "typed (u # us) \<longleftrightarrow> re_type u \<noteq> None \<and> typed us" "typed (us @ vs) \<longleftrightarrow> typed us \<and> typed vs"
  by (auto simp: typed_def)

lemma typed_parts: "typed us \<Longrightarrow> typed (take n us) \<and> typed (drop n us) \<and> typed (butlast us)"
  by (auto simp: typed_def dest: in_set_takeD in_set_dropD in_set_butlastD)

lemma typed_last: "typed (u # us) \<Longrightarrow> re_type (last (u # us)) \<noteq> None"
  unfolding typed_def by (drule bspec, rule last_in_set, simp_all)

lemma empty_entry_type [simp]: "re_type empty_entry = None"
  by (simp add: empty_entry_def)

lemma table_rep_single:
  "table_rep rl [p] us \<longleftrightarrow> length (rp_entries p) = rl_entries rl \<and> typed us
     \<and> (\<exists>k. rp_entries p = us @ replicate k empty_entry)"
  by (auto simp: table_rep_def)

lemma table_rep_Cons:
  assumes ps: "ps \<noteq> []"
  shows "table_rep rl (p # ps) us \<longleftrightarrow> length (rp_entries p) = rl_entries rl \<and> typed (rp_entries p)
     \<and> (\<exists>us'. us = rp_entries p @ us' \<and> table_rep rl ps us')" (is "?l \<longleftrightarrow> ?r")
proof
  assume l: ?l
  then obtain k where k: "k \<le> rl_entries rl" "length (rp_entries p) = rl_entries rl" "typed us"
      "\<forall>p \<in> set ps. length (rp_entries p) = rl_entries rl"
      "rp_entries p @ concat (map rp_entries ps) = us @ replicate k empty_entry"
    by (auto simp: table_rep_def)
  obtain q qs where q: "ps = q # qs" using ps by (cases ps) auto
  have "rl_entries rl \<le> length (concat (map rp_entries ps))" using k(4) q by simp
  moreover have "length (rp_entries p) + length (concat (map rp_entries ps)) = length us + k"
    using arg_cong [OF k(5), of length] by simp
  ultimately have "length (rp_entries p) \<le> length us" using k(1) by simp
  then obtain us' where u: "us = rp_entries p @ us'" "concat (map rp_entries ps) = us' @ replicate k empty_entry"
    using k(5) by (auto simp: append_eq_append_conv2)
  then show ?r using k ps by (auto simp: table_rep_def)
next
  assume ?r
  then show ?l using ps by (auto simp: table_rep_def)
qed

lemma shift_in_rep:
  "re_type fill \<noteq> None \<Longrightarrow> typed us \<Longrightarrow> shift_in fill (us @ replicate k empty_entry) =
     (if k = 0 then (butlast (fill # us), last (fill # us))
      else (fill # us @ replicate (k - 1) empty_entry, empty_entry))"
proof (induction us arbitrary: fill)
  case Nil
  then show ?case by (cases k; cases "k - 1") auto
next
  case (Cons u us)
  then have IH: "shift_in u (us @ replicate k empty_entry) =
      (if k = 0 then (butlast (u # us), last (u # us))
       else (u # us @ replicate (k - 1) empty_entry, empty_entry))" by (intro Cons.IH) auto
  obtain y where "re_type fill = Some y" using Cons.prems(1) by auto
  then show ?case using IH by (cases "k = 0") auto
qed

lemma slide_rep:
  "typed us \<Longrightarrow> slide (e # us @ replicate k empty_entry) =
     (if k = 0 then (us @ [last (e # us)], True) else (us @ empty_entry # replicate k empty_entry, False))"
proof (induction us arbitrary: e)
  case Nil
  then show ?case by (cases k) auto
next
  case (Cons u us)
  then have "slide (u # us @ replicate k empty_entry) =
      (if k = 0 then (us @ [last (u # us)], True) else (us @ empty_entry # replicate k empty_entry, False))"
    by (intro Cons.IH) simp
  with Cons.prems show ?case by auto
qed

text \<open>A frame that the identity map covers can hold a page of the table.\<close>

definition table_frame_ok :: "region_layout \<Rightarrow> frame \<Rightarrow> bool" where
  "table_frame_ok rl f \<longleftrightarrow> f * PAGE_SIZE + rl_page_size rl < IDENTITY_MAP_SIZE"

lemma table_frame_virt:
  assumes "table_frame_ok rl f"
  shows "physical_address f = Inr (f * PAGE_SIZE)" "\<exists>v. phys_to_virt_addr (f * PAGE_SIZE) (rl_page_size rl) = Inr v"
  using assms by (simp_all add: table_frame_ok_def physical_address_def phys_to_virt_addr_def
      IDENTITY_MAP_SIZE_def IDENTITY_MAP_REGION_def usize_limit_def)

definition used_table_frame ::
  "region_map_page list \<Rightarrow> region_map_page list \<Rightarrow> frame \<Rightarrow> frame option \<Rightarrow> bool" where
  "used_table_frame ps ps' f tf \<longleftrightarrow>
     tf = Some f \<and> map rp_frame ps' = map rp_frame ps \<or>
     tf = None \<and> map rp_frame ps' = map rp_frame ps @ [Some f]"

lemma shuffle_up_page:
  assumes "shift_in fill (drop pos (rp_entries p)) = (es, out)"
  shows "re_type out = None \<Longrightarrow> shuffle_entries_up rl (p # ps) pos fill tf =
           Inr (p\<lparr>rp_entries := take pos (rp_entries p) @ es\<rparr> # ps, tf)"
    and "re_type out \<noteq> None \<Longrightarrow> ps \<noteq> [] \<Longrightarrow> shuffle_entries_up rl ps 0 out tf = Inr (qs, tf') \<Longrightarrow>
         shuffle_entries_up rl (p # ps) pos fill tf =
           Inr (p\<lparr>rp_entries := take pos (rp_entries p) @ es\<rparr> # qs, tf')"
    and "re_type out \<noteq> None \<Longrightarrow> table_frame_ok rl f \<Longrightarrow>
         shuffle_entries_up rl [page_from_frame rl f] 0 out None = Inr (qs, tf') \<Longrightarrow>
         shuffle_entries_up rl [p] pos fill (Some f) =
           Inr (p\<lparr>rp_entries := take pos (rp_entries p) @ es\<rparr> # qs, tf')"
  using assms table_frame_virt [of rl f] by (auto simp: shuffle_entries_up.simps)

lemma shuffle_up_single:
  assumes wf: "layout_wf rl" and rep: "table_rep rl [p] us" and pos: "pos \<le> length us"
    and fill: "re_type fill \<noteq> None" and f: "table_frame_ok rl f"
  shows "\<exists>ps' tf. shuffle_entries_up rl [p] pos fill (Some f) = Inr (ps', tf)
           \<and> table_rep rl ps' (take pos us @ fill # drop pos us) \<and> used_table_frame [p] ps' f tf"
proof -
  obtain k where k: "rp_entries p = us @ replicate k empty_entry" "length us + k = rl_entries rl" "typed us"
    using rep by (auto simp: table_rep_single)
  have dr: "drop pos (rp_entries p) = drop pos us @ replicate k empty_entry"
      "take pos (rp_entries p) = take pos us" using k(1) pos by simp_all
  have ty: "typed (drop pos us)" "typed (take pos us)" using typed_parts [OF k(3)] by auto
  note sh = shift_in_rep [OF fill ty(1), of k]
  show ?thesis
  proof (cases "k = 0")
    case False
    let ?p = "p\<lparr>rp_entries := take pos us @ fill # drop pos us @ replicate (k - 1) empty_entry\<rparr>"
    have "shift_in fill (drop pos (rp_entries p))
        = (fill # drop pos us @ replicate (k - 1) empty_entry, empty_entry)" using False sh unfolding dr by simp
    from shuffle_up_page(1) [OF this]
    have "shuffle_entries_up rl [p] pos fill (Some f) = Inr ([?p], Some f)" by (simp add: dr)
    moreover have "table_rep rl [?p] (take pos us @ fill # drop pos us)"
      using False k pos ty fill by (auto simp: table_rep_single)
    ultimately show ?thesis by (auto simp: used_table_frame_def)
  next
    case True
    let ?out = "last (fill # drop pos us)"
    let ?p = "p\<lparr>rp_entries := take pos us @ butlast (fill # drop pos us)\<rparr>"
    let ?q = "(page_from_frame rl f)\<lparr>rp_entries := ?out # replicate (rl_entries rl - 1) empty_entry\<rparr>"
    have out: "re_type ?out \<noteq> None" by (rule typed_last) (use fill ty(1) in simp)
    have n: "0 < rl_entries rl" using wf by (simp add: layout_wf_def)
    have "shift_in ?out (drop 0 (rp_entries (page_from_frame rl f)))
        = (?out # replicate (rl_entries rl - 1) empty_entry, empty_entry)"
      using shift_in_rep [OF out typed_simps(1), of "rl_entries rl"] n by (simp add: page_from_frame_def)
    from shuffle_up_page(1) [OF this, of rl "[]" None]
    have q: "shuffle_entries_up rl [page_from_frame rl f] 0 ?out None = Inr ([?q], None)" by simp
    have "shift_in fill (drop pos (rp_entries p)) = (butlast (fill # drop pos us), ?out)"
      using True sh unfolding dr by simp
    from shuffle_up_page(3) [OF this out f q]
    have "shuffle_entries_up rl [p] pos fill (Some f) = Inr ([?p, ?q], None)" unfolding dr(2) .
    moreover have "table_rep rl [?p, ?q] (take pos us @ fill # drop pos us)"
    proof -
      have "typed (fill # drop pos us)" using fill ty(1) by simp
      then have "typed (rp_entries ?p)" using ty(2) typed_parts [of "fill # drop pos us" 0] by simp
      moreover have "length (rp_entries ?p) = rl_entries rl" using k(2) pos True by simp
      moreover have "table_rep rl [?q] [?out]" using out n by (auto simp: table_rep_single)
      moreover have "take pos us @ fill # drop pos us = rp_entries ?p @ [?out]"
        using append_butlast_last_id [of "fill # drop pos us"] by simp
      ultimately show ?thesis by (subst table_rep_Cons) auto
    qed
    ultimately show ?thesis by (auto simp: used_table_frame_def page_from_frame_def)
  qed
qed

lemma shuffle_up_spec:
  assumes wf: "layout_wf rl" and f: "table_frame_ok rl f"
  shows "table_rep rl ps us \<Longrightarrow> pos \<le> length us \<Longrightarrow> pos \<le> rl_entries rl \<Longrightarrow> re_type fill \<noteq> None \<Longrightarrow>
    \<exists>ps' tf. shuffle_entries_up rl ps pos fill (Some f) = Inr (ps', tf)
       \<and> table_rep rl ps' (take pos us @ fill # drop pos us) \<and> used_table_frame ps ps' f tf"
proof (induction ps arbitrary: us pos fill)
  case Nil
  then show ?case by (simp add: table_rep_def)
next
  case (Cons p ps)
  show ?case
  proof (cases "ps = []")
    case True
    then show ?thesis using shuffle_up_single [OF wf _ _ _ f] Cons.prems by simp
  next
    case ps: False
    let ?es = "rp_entries p"
    obtain us' where u: "us = ?es @ us'" "table_rep rl ps us'" "length ?es = rl_entries rl" "typed ?es"
      using Cons.prems(1) ps by (auto simp: table_rep_Cons)
    let ?out = "last (fill # drop pos ?es)"
    have ty: "typed (fill # drop pos ?es)" "typed (take pos ?es)"
      using typed_parts [OF u(4)] Cons.prems(4) by auto
    have out: "re_type ?out \<noteq> None" by (rule typed_last) (rule ty(1))
    have sh: "shift_in fill (drop pos ?es) = (butlast (fill # drop pos ?es), ?out)"
      using shift_in_rep [OF Cons.prems(4), of "drop pos ?es" 0] ty by simp
    from Cons.IH [OF u(2) _ _ out, of 0] obtain qs tf where q:
      "shuffle_entries_up rl ps 0 ?out (Some f) = Inr (qs, tf)" "table_rep rl qs (?out # us')"
      "used_table_frame ps qs f tf" by auto
    let ?p = "p\<lparr>rp_entries := take pos ?es @ butlast (fill # drop pos ?es)\<rparr>"
    note shuffle_up_page(2) [OF sh out ps q(1)]
    moreover have "table_rep rl (?p # qs) (take pos us @ fill # drop pos us)"
    proof -
      have "typed (rp_entries ?p)" using ty typed_parts [OF ty(1), of 0] by simp
      moreover have "length (rp_entries ?p) = rl_entries rl" using u(3) Cons.prems(3) by simp
      moreover have "qs \<noteq> []" using q(2) by (simp add: table_rep_def)
      moreover have "take pos us @ fill # drop pos us = rp_entries ?p @ ?out # us'"
        using u(1,3) Cons.prems(3) append_butlast_last_id [of "fill # drop pos ?es"] by simp
      ultimately show ?thesis using q(2) by (subst table_rep_Cons) auto
    qed
    ultimately show ?thesis using q(3) by (auto simp: used_table_frame_def)
  qed
qed

text \<open>Shuffling down removes one entry; the last page goes away when it is no longer needed.\<close>

definition release_page :: "region_map_page \<Rightarrow> physmem \<Rightarrow> physmem res" where
  "release_page q pm = (case rp_frame q of None \<Rightarrow> Inr pm | Some f \<Rightarrow> pm_deallocate_frame pm f)"

definition dropped_page :: "region_map_page list \<Rightarrow> region_map_page list \<Rightarrow> physmem \<Rightarrow> physmem \<Rightarrow> bool" where
  "dropped_page ps ps' pm pm' \<longleftrightarrow>
     map rp_frame ps' = map rp_frame ps \<and> pm' = pm \<or>
     2 \<le> length ps \<and> map rp_frame ps' = map rp_frame (butlast ps) \<and> release_page (last ps) pm = Inr pm'"

lemma take_butlast_upd:
  assumes "xs \<noteq> []"
  shows "(as @ xs)[length as + length xs - 1 := e] = as @ butlast xs @ [e]"
  using assms by (cases xs rule: rev_cases) (auto simp: list_update_append)

lemma shuffle_down_page:
  assumes len: "length (rp_entries p) = n" and pos: "pos < n" and ty: "typed (rp_entries p)"
  shows "\<exists>e es. drop pos (rp_entries p) = e # es \<and> slide (drop pos (rp_entries p)) = (es @ [last (e # es)], True)
           \<and> (take pos (rp_entries p) @ es @ [last (e # es)])[n - 1 := x] = take pos (rp_entries p) @ es @ [x]
           \<and> es = drop (Suc pos) (rp_entries p)"
proof -
  obtain e es where e: "drop pos (rp_entries p) = e # es" using len pos by (cases "drop pos (rp_entries p)") auto
  have es: "es = drop (Suc pos) (rp_entries p)" using e by (metis drop_Suc list.sel(3) tl_drop)
  have "typed es" using typed_parts [OF ty, of "Suc pos"] es by simp
  then have "slide (drop pos (rp_entries p)) = (es @ [last (e # es)], True)"
    using slide_rep [of es e 0] e by simp
  moreover have "(take pos (rp_entries p) @ (es @ [last (e # es)]))[n - 1 := x]
      = take pos (rp_entries p) @ butlast (es @ [last (e # es)]) @ [x]"
    using take_butlast_upd [of "es @ [last (e # es)]" "take pos (rp_entries p)" x] len pos es by simp
  ultimately show ?thesis using e es by simp
qed

lemma shuffle_down_single:
  assumes wf: "layout_wf rl" and rep: "table_rep rl [p] us" and pos: "pos < length us"
  shows "\<exists>p'. shuffle_entries_down [p] pos pm = Inr ([p'], pm) \<and> rp_frame p' = rp_frame p
           \<and> table_rep rl [p'] (take pos us @ drop (Suc pos) us)"
proof -
  obtain k where k: "rp_entries p = us @ replicate k empty_entry" "length us + k = rl_entries rl" "typed us"
    using rep by (auto simp: table_rep_single)
  show ?thesis
  proof (cases "k = 0")
    case True
    then have en: "rp_entries p = us" "length (rp_entries p) = rl_entries rl" using k by auto
    have "pos < rl_entries rl" "typed (rp_entries p)" using pos en k(3) by auto
    from shuffle_down_page [OF en(2) this, of empty_entry] obtain e es where s:
      "slide (drop pos us) = (es @ [last (e # es)], True)" "es = drop (Suc pos) us"
      "(take pos us @ es @ [last (e # es)])[rl_entries rl - 1 := empty_entry] = take pos us @ es @ [empty_entry]"
      unfolding en(1) by blast
    let ?p = "p\<lparr>rp_entries := take pos us @ es @ [empty_entry]\<rparr>"
    have "shuffle_entries_down [p] pos pm = Inr ([?p], pm)"
      using s pos en by (auto simp: Let_def)
    moreover have "table_rep rl [?p] (take pos us @ drop (Suc pos) us)"
      using s(2) pos en typed_parts [OF k(3)] by (auto simp: table_rep_single intro!: exI [of _ 1])
    ultimately show ?thesis by auto
  next
    case False
    obtain e es where e: "drop pos us = e # es" using pos by (cases "drop pos us") auto
    have es: "es = drop (Suc pos) us" using e by (metis drop_Suc list.sel(3) tl_drop)
    have dr: "drop pos (rp_entries p) = e # es @ replicate k empty_entry" "take pos (rp_entries p) = take pos us"
      using k(1) pos e by simp_all
    have "slide (drop pos (rp_entries p)) = (es @ empty_entry # replicate k empty_entry, False)"
      unfolding dr using slide_rep [of es e k] False typed_parts [OF k(3), of "Suc pos"] es by simp
    then have "shuffle_entries_down [p] pos pm =
        Inr ([p\<lparr>rp_entries := take pos us @ es @ replicate (Suc k) empty_entry\<rparr>], pm)"
      using pos k(1) dr(2) by simp
    moreover have "table_rep rl [p\<lparr>rp_entries := take pos us @ es @ replicate (Suc k) empty_entry\<rparr>]
        (take pos us @ drop (Suc pos) us)"
      using k es typed_parts [OF k(3)] pos by (auto simp: table_rep_single simp del: replicate_Suc)
    ultimately show ?thesis by auto
  qed
qed

lemma table_rep_first:
  assumes wf: "layout_wf rl" and rep: "table_rep rl (q # qs) us"
  shows "rp_entries q \<noteq> []" and "us = [] \<Longrightarrow> qs = [] \<and> re_type (rp_entries q ! 0) = None"
    and "us \<noteq> [] \<Longrightarrow> rp_entries q ! 0 = hd us \<and> re_type (hd us) \<noteq> None"
proof -
  have n: "length (rp_entries q) = rl_entries rl" "0 < rl_entries rl"
    using rep wf by (auto simp: table_rep_def layout_wf_def)
  then show ne: "rp_entries q \<noteq> []" by auto
  obtain k where k: "k \<le> rl_entries rl" "rp_entries q @ concat (map rp_entries qs) = us @ replicate k empty_entry"
      "typed us" using rep by (auto simp: table_rep_def)
  have z: "rp_entries q ! 0 = (us @ replicate k empty_entry) ! 0"
    using ne arg_cong [OF k(2), of "\<lambda>xs. xs ! 0"] by (simp add: nth_append)
  show "qs = [] \<and> re_type (rp_entries q ! 0) = None" if "us = []"
  proof -
    have "length (rp_entries q) + length (concat (map rp_entries qs)) = k"
      using arg_cong [OF k(2), of length] that by simp
    then have "concat (map rp_entries qs) = []" "0 < k" using n k(1) by auto
    moreover have "\<forall>p \<in> set qs. rp_entries p \<noteq> []" using rep n(2) by (auto simp: table_rep_def)
    ultimately show ?thesis using z that by (cases qs) auto
  qed
  show "rp_entries q ! 0 = hd us \<and> re_type (hd us) \<noteq> None" if "us \<noteq> []"
    using that z k(3) by (cases us) auto
qed

lemma shuffle_down_Cons:
  assumes len: "length (rp_entries p) = n" and pos: "pos < n" and ty: "typed (rp_entries p)"
    and q: "rp_entries q \<noteq> []"
  shows "shuffle_entries_down (p # q # qs) pos pm =
    (let p'' = p\<lparr>rp_entries := take pos (rp_entries p) @ drop (Suc pos) (rp_entries p) @ [rp_entries q ! 0]\<rparr>
     in if re_type (rp_entries q ! 0) = None then bindR (release_page q pm) (\<lambda>pm'. Inr ([p''], pm'))
        else bindR (shuffle_entries_down (q # qs) 0 pm) (\<lambda>(ps', pm'). Inr (p'' # ps', pm')))"
proof -
  from shuffle_down_page [OF len pos ty, of "rp_entries q ! 0"] obtain e es where s:
    "slide (drop pos (rp_entries p)) = (es @ [last (e # es)], True)" "es = drop (Suc pos) (rp_entries p)"
    "(take pos (rp_entries p) @ es @ [last (e # es)])[n - 1 := rp_entries q ! 0]
       = take pos (rp_entries p) @ es @ [rp_entries q ! 0]" by blast
  then show ?thesis
    using len pos q unfolding shuffle_entries_down.simps(2) release_page_def
    by (simp add: Let_def s(1) del: shuffle_entries_down.simps)
qed

lemma shuffle_down_spec:
  assumes wf: "layout_wf rl"
  shows "table_rep rl ps us \<Longrightarrow> pos < length us \<Longrightarrow> pos < rl_entries rl \<Longrightarrow>
    (2 \<le> length ps \<Longrightarrow> \<exists>pm'. release_page (last ps) pm = Inr pm') \<Longrightarrow>
    \<exists>ps' pm'. shuffle_entries_down ps pos pm = Inr (ps', pm')
       \<and> table_rep rl ps' (take pos us @ drop (Suc pos) us) \<and> dropped_page ps ps' pm pm'"
proof (induction ps arbitrary: us pos)
  case Nil
  then show ?case by (simp add: table_rep_def)
next
  case (Cons p ps)
  show ?case
  proof (cases ps)
    case Nil
    with shuffle_down_single [OF wf, of p us pos pm] Cons.prems(1,2) show ?thesis
      by (auto simp: dropped_page_def)
  next
    case (Cons q qs)
    let ?es = "rp_entries p"
    obtain us' where u: "us = ?es @ us'" "table_rep rl (q # qs) us'" "length ?es = rl_entries rl" "typed ?es"
      using Cons.prems(1) Cons by (auto simp: table_rep_Cons)
    note tf = table_rep_first [OF wf u(2)]
    let ?p = "p\<lparr>rp_entries := take pos ?es @ drop (Suc pos) ?es @ [rp_entries q ! 0]\<rparr>"
    note eq = shuffle_down_Cons [OF u(3) Cons.prems(3) u(4) tf(1), of qs pm]
    have lp: "length (rp_entries ?p) = rl_entries rl" using u(3) Cons.prems(3) by simp
    have tys: "typed (take pos ?es)" "typed (drop (Suc pos) ?es)"
      using typed_parts [OF u(4), of pos] typed_parts [OF u(4), of "Suc pos"] by auto
    have usd: "take pos us @ drop (Suc pos) us = take pos ?es @ drop (Suc pos) ?es @ us'"
      using u(1,3) Cons.prems(3) by simp
    obtain pm1 where rel: "release_page (last (q # qs)) pm = Inr pm1" using Cons.prems(4) Cons by auto
    show ?thesis
    proof (cases "us' = []")
      case True
      then have qe: "qs = []" "re_type (rp_entries q ! 0) = None" using tf(2) by auto
      have "rp_entries q ! 0 = empty_entry"
        using u(2) True tf(1) qe(1) by (auto simp: table_rep_single)
      then have "table_rep rl [?p] (take pos us @ drop (Suc pos) us)"
        using usd True lp tys by (auto simp: table_rep_single intro!: exI [of _ 1])
      moreover have "shuffle_entries_down (p # ps) pos pm = Inr ([?p], pm1)"
        using eq qe rel Cons by (simp add: Let_def)
      ultimately show ?thesis
        using rel qe(1) Cons by (auto simp: dropped_page_def)
    next
      case False
      then have h: "rp_entries q ! 0 = hd us'" "re_type (hd us') \<noteq> None" using tf(3) by auto
      have "0 < length us'" "0 < rl_entries rl" using False wf by (auto simp: layout_wf_def)
      from Cons.IH [OF u(2) [folded Cons] this] rel Cons obtain ps' pm' where r:
        "shuffle_entries_down (q # qs) 0 pm = Inr (ps', pm')" "table_rep rl ps' (drop (Suc 0) us')"
        "dropped_page (q # qs) ps' pm pm'" by auto
      have "table_rep rl (?p # ps') (take pos us @ drop (Suc pos) us)"
      proof -
        have "ps' \<noteq> []" using r(2) by (simp add: table_rep_def)
        moreover have "typed (rp_entries ?p)" using tys h by simp
        moreover have "take pos us @ drop (Suc pos) us = rp_entries ?p @ drop (Suc 0) us'"
          using usd h(1) False by (cases us') simp_all
        ultimately show ?thesis using lp r(2) by (subst table_rep_Cons) auto
      qed
      moreover have "shuffle_entries_down (p # ps) pos pm = Inr (?p # ps', pm')"
        using eq h r(1) Cons by (simp add: Let_def del: shuffle_entries_down.simps)
      ultimately show ?thesis using r(3) Cons by (auto simp: dropped_page_def)
    qed
  qed
qed

section \<open>First fit on the list\<close>

definition entry_wf :: "region_map_entry \<Rightarrow> bool" where
  "entry_wf u \<longleftrightarrow> re_base u \<le> re_limit u \<and> re_limit u < usize_limit"

definition entry_fits :: "usize \<Rightarrow> region_map_entry \<Rightarrow> bool" where
  "entry_fits required u \<longleftrightarrow> re_type u = Some FreeRegion \<and> required \<le> re_limit u - re_base u"

lemma scan_skip:
  "typed xs \<Longrightarrow> \<forall>x \<in> set xs. entry_wf x \<and> \<not> entry_fits required x \<Longrightarrow>
   scan_page (xs @ es) l required i = scan_page es l required (i + length xs)"
proof (induction xs arbitrary: i)
  case (Cons x xs)
  then obtain t where t: "re_type x = Some t" by auto
  have "scan_page ((x # xs) @ es) l required i = scan_page (xs @ es) l required (Suc i)"
    using Cons.prems t by (cases t) (auto simp: entry_size_def entry_wf_def entry_fits_def)
  then show ?case using Cons by simp
qed simp

lemma scan_found:
  assumes "typed xs" and "\<forall>x \<in> set xs. entry_wf x \<and> \<not> entry_fits required x"
    and "entry_wf u" and "entry_fits required u"
  shows "scan_page (xs @ u # es) l required 0 =
    Inr (if re_limit u - re_base u = required then ExactAt (length xs) else SplitAt (length xs))"
  using scan_skip [OF assms(1,2), of "u # es" l 0] assms(3,4)
  by (auto simp: entry_size_def entry_wf_def entry_fits_def)

lemma table_rep_append:
  assumes "table_rep rl qs us" and "\<forall>p \<in> set ps. length (rp_entries p) = rl_entries rl \<and> typed (rp_entries p)"
  shows "table_rep rl (ps @ qs) (concat (map rp_entries ps) @ us)"
  using assms(2)
proof (induction ps)
  case (Cons p ps)
  moreover have "ps @ qs \<noteq> []" using assms(1) by (simp add: table_rep_def)
  ultimately show ?case by (simp add: table_rep_Cons)
qed (use assms(1) in simp)

lemma allocate_none:
  assumes "\<forall>u \<in> set us. entry_wf u \<and> \<not> entry_fits required u" and "table_rep rl ps us"
  shows "allocate_first_fit rl ps required mapper km = Inr (km, ps, Inl NoRegionAddressSpaceAvailable)"
  using assms
proof (induction ps arbitrary: us)
  case (Cons p ps)
  show ?case
  proof (cases "ps = []")
    case True
    then obtain k where k: "rp_entries p = us @ replicate k empty_entry" "typed us"
      using Cons.prems(2) by (auto simp: table_rep_single)
    then have "scan_page (rp_entries p) True required 0 = Inr (if k = 0 then NextPage else NoSpace)"
      using scan_skip [OF k(2) Cons.prems(1), of "replicate k empty_entry" True 0] by (cases k) simp_all
    then show ?thesis using True by (cases "k = 0") simp_all
  next
    case False
    then obtain us' where u: "us = rp_entries p @ us'" "table_rep rl ps us'" "typed (rp_entries p)"
      using Cons.prems(2) by (auto simp: table_rep_Cons)
    then have "scan_page (rp_entries p) False required 0 = Inr NextPage"
      using scan_skip [OF u(3), of required "[]" False 0] Cons.prems(1) by simp
    then show ?thesis using False Cons.IH [OF _ u(2)] Cons.prems(1) u(1) by simp
  qed
qed simp

text \<open>The first entry that fits sits in one page of the chain; the pages before it are full.\<close>

lemma allocate_locate:
  assumes "\<forall>x \<in> set xs. entry_wf x \<and> \<not> entry_fits required x" and "entry_wf u" "entry_fits required u"
    and "table_rep rl ps (xs @ u # ys)"
  shows "\<exists>ps1 p ps2 xs2. ps = ps1 @ p # ps2 \<and> table_rep rl (p # ps2) (xs2 @ u # ys)
     \<and> xs = concat (map rp_entries ps1) @ xs2 \<and> length xs2 < rl_entries rl \<and> rp_entries p ! length xs2 = u
     \<and> (\<forall>p \<in> set ps1. length (rp_entries p) = rl_entries rl \<and> typed (rp_entries p))
     \<and> allocate_first_fit rl ps required mapper km =
         bindR (if re_limit u - re_base u = required then allocate_exact p ps2 (length xs2) mapper km
                else allocate_split rl p ps2 (length xs2) required mapper km)
           (\<lambda>(km', ps', r). Inr (km', ps1 @ ps', r))"
  using assms(1,4)
proof (induction ps arbitrary: xs)
  case Nil
  then show ?case by (simp add: table_rep_def)
next
  case (Cons p ps)
  note uw = assms(2,3)
  show ?case
  proof (cases "length xs < rl_entries rl")
    case True
    obtain es where es: "rp_entries p = xs @ u # es"
    proof (cases "ps = []")
      case True
      then show ?thesis using Cons.prems(2) that by (auto simp: table_rep_single)
    next
      case False
      then obtain us' where "xs @ u # ys = rp_entries p @ us'" "length (rp_entries p) = rl_entries rl"
        using Cons.prems(2) by (auto simp: table_rep_Cons)
      then have "rp_entries p = take (rl_entries rl) (xs @ u # ys)" by simp
      then show ?thesis using \<open>length xs < rl_entries rl\<close> that by (simp add: take_Cons')
    qed
    have ty: "typed xs" using Cons.prems(2) by (auto simp: table_rep_def)
    have "allocate_first_fit rl (p # ps) required mapper km =
        (if re_limit u - re_base u = required then allocate_exact p ps (length xs) mapper km
         else allocate_split rl p ps (length xs) required mapper km)"
      using scan_found [OF ty Cons.prems(1) uw, of es] es by simp
    moreover have "bindR m (\<lambda>(km', ps', r). Inr (km', [] @ ps', r)) = m" for m :: "(kmem \<times> region_map_page list \<times> (memory_error + region_info)) res"
      by (cases m) auto
    ultimately show ?thesis
      using True es Cons.prems(2)
      by (intro exI [of _ "[]"] exI [of _ p] exI [of _ ps] exI [of _ xs]) simp
  next
    case False
    have ps: "ps \<noteq> []"
    proof
      assume "ps = []"
      then have "length (xs @ u # ys) \<le> rl_entries rl" using Cons.prems(2) by (auto simp: table_rep_single)
      then show False using False by simp
    qed
    then obtain us' where u: "xs @ u # ys = rp_entries p @ us'" "length (rp_entries p) = rl_entries rl"
        "typed (rp_entries p)" "table_rep rl ps us'" using Cons.prems(2) by (auto simp: table_rep_Cons)
    define xs' where "xs' = drop (rl_entries rl) xs"
    have "take (rl_entries rl) (xs @ u # ys) = rp_entries p" "drop (rl_entries rl) (xs @ u # ys) = us'"
      using u(1,2) by simp_all
    then have x: "xs = rp_entries p @ xs'" "us' = xs' @ u # ys"
      using False append_take_drop_id [of "rl_entries rl" xs] by (simp_all add: xs'_def)
    from Cons.IH [of xs'] Cons.prems(1) u(4) x obtain ps1 q ps2 xs2 where r:
      "ps = ps1 @ q # ps2" "table_rep rl (q # ps2) (xs2 @ u # ys)" "xs' = concat (map rp_entries ps1) @ xs2"
      "length xs2 < rl_entries rl" "rp_entries q ! length xs2 = u"
      "\<forall>p \<in> set ps1. length (rp_entries p) = rl_entries rl \<and> typed (rp_entries p)"
      "allocate_first_fit rl ps required mapper km =
         bindR (if re_limit u - re_base u = required then allocate_exact q ps2 (length xs2) mapper km
                else allocate_split rl q ps2 (length xs2) required mapper km)
           (\<lambda>(km', ps', r). Inr (km', ps1 @ ps', r))" by auto
    have "scan_page (rp_entries p) False required 0 = Inr NextPage"
      using scan_skip [OF u(3), of required "[]" False 0] Cons.prems(1) x(1) by simp
    then have "allocate_first_fit rl (p # ps) required mapper km =
        bindR (allocate_first_fit rl ps required mapper km) (\<lambda>(km', ps', r). Inr (km', p # ps', r))"
      using ps by simp
    then show ?thesis
      using r x u by (intro exI [of _ "p # ps1"] exI [of _ q] exI [of _ ps2] exI [of _ xs2])
        (simp add: bindR_assoc split_beta)
  qed
qed

lemma table_rep_update:
  assumes rep: "table_rep rl (p # ps) (xs @ u # ys)" and i: "length xs < rl_entries rl"
    and v: "re_type v \<noteq> None"
  shows "table_rep rl (p\<lparr>rp_entries := (rp_entries p)[length xs := v]\<rparr> # ps) (xs @ v # ys)"
proof (cases "ps = []")
  case True
  then show ?thesis using rep v by (auto simp: table_rep_single list_update_append)
next
  case False
  then obtain us' where u: "xs @ u # ys = rp_entries p @ us'" "length (rp_entries p) = rl_entries rl"
      "typed (rp_entries p)" "table_rep rl ps us'" using rep by (auto simp: table_rep_Cons)
  have "(xs @ u # ys)[length xs := v] = (rp_entries p)[length xs := v] @ us'"
    using u(1,2) i by (simp add: list_update_append1)
  then have "xs @ v # ys = (rp_entries p)[length xs := v] @ us'" by simp
  moreover have "typed ((rp_entries p)[length xs := v])"
    using u(3) v set_update_subset_insert [of "rp_entries p" "length xs" v] by (auto simp: typed_def)
  ultimately show ?thesis using False u(2,4) by (simp add: table_rep_Cons)
qed

lemma update_same: "xs ! i = u \<Longrightarrow> xs[i := u] = xs"
  by (metis list_update_id)

text \<open>What an allocation does to the list of entries.\<close>

definition split_entry :: "region_map_entry \<Rightarrow> usize \<Rightarrow> region_kind \<Rightarrow> region_map_entry list" where
  "split_entry u required kind =
     u\<lparr>re_limit := re_base u + required, re_type := Some kind\<rparr> #
     (if re_limit u - re_base u = required then []
      else [\<lparr>re_base = re_base u + required, re_limit = re_limit u, re_type = Some FreeRegion\<rparr>])"

lemma allocate_exact_spec:
  assumes x: "\<forall>x \<in> set xs. entry_wf x \<and> \<not> entry_fits required x" and u: "entry_wf u" "entry_fits required u"
    and rep: "table_rep rl ps (xs @ u # ys)" and ex: "re_limit u - re_base u = required"
  shows "mapper u km = Inr (km', Inl e) \<Longrightarrow>
           allocate_first_fit rl ps required mapper km = Inr (km', ps, Inl e)"
    and "mapper u km = Inr (km', Inr kind) \<Longrightarrow>
           \<exists>ps'. allocate_first_fit rl ps required mapper km =
               Inr (km', ps', Inr \<lparr>ri_start = re_base u, ri_limit = re_base u + required\<rparr>)
             \<and> table_rep rl ps' (xs @ split_entry u required kind @ ys) \<and> map rp_frame ps' = map rp_frame ps"
proof -
  from allocate_locate [OF x u rep, of mapper km] obtain ps1 p ps2 xs2 where l: "ps = ps1 @ p # ps2"
    "table_rep rl (p # ps2) (xs2 @ u # ys)" "xs = concat (map rp_entries ps1) @ xs2"
    "length xs2 < rl_entries rl" "rp_entries p ! length xs2 = u"
    "\<forall>p \<in> set ps1. length (rp_entries p) = rl_entries rl \<and> typed (rp_entries p)"
    "allocate_first_fit rl ps required mapper km =
       bindR (allocate_exact p ps2 (length xs2) mapper km) (\<lambda>(km', ps', r). Inr (km', ps1 @ ps', r))"
    using ex by auto
  show "allocate_first_fit rl ps required mapper km = Inr (km', ps, Inl e)" if "mapper u km = Inr (km', Inl e)"
    using that l(1,5,7) by (simp add: allocate_exact_def)
  assume m: "mapper u km = Inr (km', Inr kind)"
  let ?v = "u\<lparr>re_type := Some kind\<rparr>"
  let ?p = "p\<lparr>rp_entries := (rp_entries p)[length xs2 := ?v]\<rparr>"
  have lim: "re_base u + required = re_limit u" using ex u(1) by (auto simp: entry_wf_def)
  have "table_rep rl (?p # ps2) (xs2 @ ?v # ys)" by (rule table_rep_update [OF l(2,4)]) simp
  from table_rep_append [OF this l(6)] have "table_rep rl (ps1 @ ?p # ps2) (xs @ ?v # ys)"
    using l(3) by simp
  moreover have "split_entry u required kind = [?v]" using ex lim by (simp add: split_entry_def)
  ultimately show "\<exists>ps'. allocate_first_fit rl ps required mapper km =
      Inr (km', ps', Inr \<lparr>ri_start = re_base u, ri_limit = re_base u + required\<rparr>)
    \<and> table_rep rl ps' (xs @ split_entry u required kind @ ys) \<and> map rp_frame ps' = map rp_frame ps"
    using m l(1,5,7) lim by (intro exI [of _ "ps1 @ ?p # ps2"]) (simp add: allocate_exact_def entry_info_def)
qed

lemma used_table_frame_append:
  "used_table_frame ps ps' f tf \<Longrightarrow> used_table_frame (qs @ ps) (qs @ ps') f tf"
  by (auto simp: used_table_frame_def)

lemma allocate_split_spec:
  assumes x: "\<forall>x \<in> set xs. entry_wf x \<and> \<not> entry_fits required x" and u: "entry_wf u" "entry_fits required u"
    and rep: "table_rep rl ps (xs @ u # ys)" and lt: "re_limit u - re_base u \<noteq> required"
    and wf: "layout_wf rl"
  shows "allocate_kernel_frame (km_phys km) = Inr (pm, None) \<Longrightarrow>
           allocate_first_fit rl ps required mapper km = Inr (km\<lparr>km_phys := pm\<rparr>, ps, Inl OutOfMemory)"
    and "allocate_kernel_frame (km_phys km) = Inr (pm, Some f) \<Longrightarrow>
         mapper (u\<lparr>re_limit := re_base u + required\<rparr>) (km\<lparr>km_phys := pm\<rparr>) = Inr (km', Inl e) \<Longrightarrow>
         free_frame f km' = Inr km'' \<Longrightarrow>
           allocate_first_fit rl ps required mapper km = Inr (km'', ps, Inl e)"
    and "allocate_kernel_frame (km_phys km) = Inr (pm, Some f) \<Longrightarrow>
         mapper (u\<lparr>re_limit := re_base u + required\<rparr>) (km\<lparr>km_phys := pm\<rparr>) = Inr (km', Inr kind) \<Longrightarrow>
         table_frame_ok rl f \<Longrightarrow> free_frame f km' = Inr km'' \<Longrightarrow>
           \<exists>ps' tf. allocate_first_fit rl ps required mapper km =
               Inr (if tf = None then km' else km'', ps',
                    Inr \<lparr>ri_start = re_base u, ri_limit = re_base u + required\<rparr>)
             \<and> table_rep rl ps' (xs @ split_entry u required kind @ ys) \<and> used_table_frame ps ps' f tf"
proof -
  from allocate_locate [OF x u rep, of mapper km] obtain ps1 p ps2 xs2 where l: "ps = ps1 @ p # ps2"
    "table_rep rl (p # ps2) (xs2 @ u # ys)" "xs = concat (map rp_entries ps1) @ xs2"
    "length xs2 < rl_entries rl" "rp_entries p ! length xs2 = u"
    "\<forall>p \<in> set ps1. length (rp_entries p) = rl_entries rl \<and> typed (rp_entries p)"
    "allocate_first_fit rl ps required mapper km =
       bindR (allocate_split rl p ps2 (length xs2) required mapper km) (\<lambda>(km', ps', r). Inr (km', ps1 @ ps', r))"
    using lt by auto
  have lim: "uadd (re_base u) required = Inr (re_base u + required)"
    using u by (intro uadd_Inr) (auto simp: entry_wf_def entry_fits_def)
  show "allocate_first_fit rl ps required mapper km = Inr (km\<lparr>km_phys := pm\<rparr>, ps, Inl OutOfMemory)"
    if "allocate_kernel_frame (km_phys km) = Inr (pm, None)"
    using that l(1,5,7) by (simp add: allocate_split_def)
  show "allocate_first_fit rl ps required mapper km = Inr (km'', ps, Inl e)"
    if "allocate_kernel_frame (km_phys km) = Inr (pm, Some f)"
      "mapper (u\<lparr>re_limit := re_base u + required\<rparr>) (km\<lparr>km_phys := pm\<rparr>) = Inr (km', Inl e)"
      "free_frame f km' = Inr km''"
    using that l(1,5,7) lim by (simp add: allocate_split_def update_same [OF l(5)])
  assume a: "allocate_kernel_frame (km_phys km) = Inr (pm, Some f)"
    and m: "mapper (u\<lparr>re_limit := re_base u + required\<rparr>) (km\<lparr>km_phys := pm\<rparr>) = Inr (km', Inr kind)"
    and f: "table_frame_ok rl f" and fr: "free_frame f km' = Inr km''"
  let ?v = "u\<lparr>re_limit := re_base u + required, re_type := Some kind\<rparr>"
  let ?w = "\<lparr>re_base = re_base u + required, re_limit = re_limit u, re_type = Some FreeRegion\<rparr>"
  let ?p = "p\<lparr>rp_entries := (rp_entries p)[length xs2 := ?v]\<rparr>"
  have r: "table_rep rl (?p # ps2) (xs2 @ ?v # ys)" by (rule table_rep_update [OF l(2,4)]) simp
  have "length xs2 + 1 \<le> length (xs2 @ ?v # ys)" "length xs2 + 1 \<le> rl_entries rl" "re_type ?w \<noteq> None"
    using l(4) by simp_all
  from shuffle_up_spec [OF wf f r this] obtain ps' tf where s:
    "shuffle_entries_up rl (?p # ps2) (length xs2 + 1) ?w (Some f) = Inr (ps', tf)"
    "table_rep rl ps' (xs2 @ ?v # ?w # ys)" "used_table_frame (?p # ps2) ps' f tf" by auto
  have tf: "tf = None \<or> tf = Some f" using s(3) by (auto simp: used_table_frame_def)
  have "allocate_split rl p ps2 (length xs2) required mapper km =
      Inr (if tf = None then km' else km'', ps', Inr \<lparr>ri_start = re_base u, ri_limit = re_base u + required\<rparr>)"
    using a m lim s(1) fr l(5) tf by (auto simp: allocate_split_def Let_def entry_info_def)
  moreover have "table_rep rl (ps1 @ ps') (xs @ split_entry u required kind @ ys)"
    using table_rep_append [OF s(2) l(6)] l(3) lt by (simp add: split_entry_def)
  moreover have "used_table_frame ps (ps1 @ ps') f tf"
    using s(3) l(1) by (auto simp: used_table_frame_def)
  ultimately show "\<exists>ps' tf. allocate_first_fit rl ps required mapper km =
      Inr (if tf = None then km' else km'', ps', Inr \<lparr>ri_start = re_base u, ri_limit = re_base u + required\<rparr>)
    \<and> table_rep rl ps' (xs @ split_entry u required kind @ ys) \<and> used_table_frame ps ps' f tf"
    using l(7) by (intro exI [of _ "ps1 @ ps'"] exI [of _ tf]) simp
qed

end
