(* ===== verification/Address_Space.thy ===== *)
theory Address_Space
  imports Page_Table
begin

text \<open>
  What the page tables mean: the tree below a level 4 table is a map from virtual pages to
  entries, and the mapper's operations are updates of that map. The lemmas follow one
  level at a time: a path of indices names a table, creating a missing table leaves every
  other path alone, and writing a leaf entry changes one page only.
\<close>

section \<open>Paths\<close>

definition child :: "kmem \<Rightarrow> frame \<Rightarrow> nat \<Rightarrow> frame option" where
  "child km t i = (let e = km_tables km t i in
     if is_present e \<and> \<not> is_huge e then Some (pte_frame e) else None)"

fun node_from :: "kmem \<Rightarrow> frame \<Rightarrow> nat list \<Rightarrow> frame option" where
  "node_from km t [] = Some t"
| "node_from km t (i # is) = (case child km t i of None \<Rightarrow> None | Some u \<Rightarrow> node_from km u is)"

text \<open>The tables of a tree: paths of at most three in-range indices.\<close>

definition table_path :: "nat list \<Rightarrow> bool" where
  "table_path p \<longleftrightarrow> length p \<le> 3 \<and> (\<forall>i \<in> set p. i < ENTRY_COUNT)"

definition leaf_entry :: "kmem \<Rightarrow> frame \<Rightarrow> nat list \<Rightarrow> nat \<Rightarrow> raw_pte" where
  "leaf_entry km root p i = (case node_from km root p of None \<Rightarrow> 0 | Some t \<Rightarrow> km_tables km t i)"

definition page_path :: "usize \<Rightarrow> nat list" where
  "page_path va = [p4_index va, p3_index va, p2_index va]"

text \<open>The entry that maps a virtual address; zero when a table on the way is missing.\<close>

definition lookup :: "kmem \<Rightarrow> frame \<Rightarrow> usize \<Rightarrow> raw_pte" where
  "lookup km root va = leaf_entry km root (page_path va) (p1_index va)"

definition vpn :: "usize \<Rightarrow> nat" where
  "vpn va = va div 2 ^ 12 mod 2 ^ 36"

text \<open>
  A tree is well formed when distinct paths name distinct tables, all of them under the
  identity map and none of them free; the frames the kernel may still hand out are mapped
  as well. \<open>free_zeroed\<close> is what \<^verbatim>\<open>create_next_table\<close> relies on without establishing it: a
  frame that becomes a table spells 512 unused entries.
\<close>

definition identity_mapped :: "frame \<Rightarrow> bool" where
  "identity_mapped f \<longleftrightarrow> f * PAGE_SIZE + PAGE_SIZE < IDENTITY_MAP_SIZE"

definition tree_inv :: "kmem \<Rightarrow> frame \<Rightarrow> bool" where
  "tree_inv km root \<longleftrightarrow> pm_inv (km_phys km)
     \<and> (\<forall>p q t. table_path p \<longrightarrow> table_path q \<longrightarrow> node_from km root p = Some t
          \<longrightarrow> node_from km root q = Some t \<longrightarrow> p = q)
     \<and> (\<forall>p t. table_path p \<longrightarrow> node_from km root p = Some t
          \<longrightarrow> identity_mapped t \<and> t \<notin> kernel_free (km_phys km))
     \<and> (\<forall>f \<in> kernel_free (km_phys km). identity_mapped f)"

definition free_zeroed :: "kmem \<Rightarrow> bool" where
  "free_zeroed km \<longleftrightarrow> (\<forall>f \<in> kernel_free (km_phys km). \<forall>i < ENTRY_COUNT. km_tables km f i = 0)"

text \<open>No table entry on the way to a page maps a huge page.\<close>

definition no_huge_on :: "kmem \<Rightarrow> frame \<Rightarrow> nat list \<Rightarrow> bool" where
  "no_huge_on km root p \<longleftrightarrow> (\<forall>n < length p. \<forall>t. node_from km root (take n p) = Some t \<longrightarrow>
      \<not> (is_present (km_tables km t (p ! n)) \<and> is_huge (km_tables km t (p ! n))))"

section \<open>Indices\<close>

lemma index_bounds [simp]:
  "p1_index va < ENTRY_COUNT" "p2_index va < ENTRY_COUNT" "p3_index va < ENTRY_COUNT"
  "p4_index va < ENTRY_COUNT"
  by (simp_all add: p1_index_def p2_index_def p3_index_def p4_index_def new_truncate_def ENTRY_COUNT_def)

lemma page_path_ok [simp]: "table_path (page_path va)"
  by (simp add: table_path_def page_path_def)

lemma truncate_take_bit: "new_truncate (x mod 2 ^ 16) = take_bit 9 x"
proof -
  have "take_bit 9 (take_bit 16 x) = take_bit 9 x" by (simp add: take_bit_take_bit)
  then show ?thesis by (simp add: new_truncate_def ENTRY_COUNT_def take_bit_eq_mod)
qed

lemma vpn_take_bit: "vpn va = take_bit 36 (drop_bit 12 va)"
  by (simp add: vpn_def take_bit_eq_mod drop_bit_eq_div)

lemma index_take_bit:
  "p1_index va = take_bit 9 (vpn va)" "p2_index va = take_bit 9 (drop_bit 9 (vpn va))"
  "p3_index va = take_bit 9 (drop_bit 9 (drop_bit 9 (vpn va)))"
  "p4_index va = drop_bit 9 (drop_bit 9 (drop_bit 9 (vpn va)))"
  unfolding p1_index_def p2_index_def p3_index_def p4_index_def truncate_take_bit vpn_take_bit
  by (simp_all add: drop_bit_take_bit take_bit_take_bit)

lemma index_vpn:
  "p1_index va = vpn va mod 512" "p2_index va = vpn va div 512 mod 512"
  "p3_index va = vpn va div 512 div 512 mod 512" "p4_index va = vpn va div 512 div 512 div 512"
  by (simp_all add: index_take_bit take_bit_eq_mod drop_bit_eq_div)

lemma same_page_iff:
  "page_path a = page_path b \<and> p1_index a = p1_index b \<longleftrightarrow> vpn a = vpn b"
proof
  assume "page_path a = page_path b \<and> p1_index a = p1_index b"
  then have "vpn a mod 512 = vpn b mod 512" "vpn a div 512 mod 512 = vpn b div 512 mod 512"
    "vpn a div 512 div 512 mod 512 = vpn b div 512 div 512 mod 512"
    "vpn a div 512 div 512 div 512 = vpn b div 512 div 512 div 512"
    by (simp_all add: page_path_def index_vpn)
  then show "vpn a = vpn b" by (metis div_mult_mod_eq)
qed (simp add: page_path_def index_vpn)

section \<open>Walking\<close>

lemma node_from_append:
  "node_from km t (p @ q) = (case node_from km t p of None \<Rightarrow> None | Some u \<Rightarrow> node_from km u q)"
  by (induction p arbitrary: t) (auto split: option.splits)

lemma node_from_snoc:
  "node_from km t (p @ [i]) = (case node_from km t p of None \<Rightarrow> None | Some u \<Rightarrow> child km u i)"
  by (simp add: node_from_append split: option.splits)

lemma table_path_snoc: "table_path (p @ [i]) \<longleftrightarrow> length p \<le> 2 \<and> table_path p \<and> i < ENTRY_COUNT"
  by (auto simp: table_path_def)

lemma table_ref_ok [simp]: "identity_mapped f \<Longrightarrow> table_ref f = Inr f"
  by (simp add: identity_mapped_def table_ref_def physical_address_def phys_to_virt_addr_def
      PAGE_SIZE_def ENTRY_COUNT_def IDENTITY_MAP_SIZE_def IDENTITY_MAP_REGION_def usize_limit_def)

lemma tree_invD:
  assumes "tree_inv km root"
  shows "pm_inv (km_phys km)"
    and "table_path p \<Longrightarrow> table_path q \<Longrightarrow> node_from km root p = Some t \<Longrightarrow>
         node_from km root q = Some t \<Longrightarrow> p = q"
    and "table_path p \<Longrightarrow> node_from km root p = Some t \<Longrightarrow> identity_mapped t"
    and "table_path p \<Longrightarrow> node_from km root p = Some t \<Longrightarrow> t \<notin> kernel_free (km_phys km)"
    and "f \<in> kernel_free (km_phys km) \<Longrightarrow> identity_mapped f"
  using assms by (auto simp: tree_inv_def)

section \<open>Creating a missing table\<close>

lemma table_pte:
  assumes "f < 2 ^ 40"
  shows "\<exists>p. from_frame_and_flags f (WRITABLE OR USER_ACCESSIBLE) = Inr p \<and> is_present p
           \<and> \<not> is_huge p \<and> pte_frame p = f"
proof -
  have "(WRITABLE OR USER_ACCESSIBLE) AND NOT present_page_flags = 0" "0 < MAX_COUNTER_VALUE"
    by (simp_all add: present_page_flags_mask mask_eq_exp_minus_1 push_bit_eq_mult WRITABLE_def
        USER_ACCESSIBLE_def MAX_COUNTER_VALUE_eq)
  from present_pte_fields [OF assms this] obtain p where p:
    "from_frame_and_flags f (WRITABLE OR USER_ACCESSIBLE) = Inr p" "is_present p" "pte_frame p = f"
    "present_flags p = WRITABLE OR USER_ACCESSIBLE" by (auto simp: from_frame_and_flags_def)
  have "\<not> flags_contains (WRITABLE OR USER_ACCESSIBLE) HUGE_PAGE"
    by (simp add: flags_contains_def WRITABLE_def USER_ACCESSIBLE_def HUGE_PAGE_def)
  with p show ?thesis by (auto simp: is_huge_def)
qed

lemma identity_mapped_small: "identity_mapped f \<Longrightarrow> f < 2 ^ 40"
  by (simp add: identity_mapped_def IDENTITY_MAP_SIZE_def PAGE_SIZE_def)

text \<open>
  What creating tables may do to the state: the tree stays well formed, no existing path
  moves, no leaf entry changes, at most \<open>n\<close> kernel frames are used up and nothing but
  the tables and the frame database changes.
\<close>

definition grown :: "kmem \<Rightarrow> frame \<Rightarrow> nat \<Rightarrow> kmem \<Rightarrow> bool" where
  "grown km root n km' \<longleftrightarrow> tree_inv km' root \<and> free_zeroed km'
     \<and> (\<forall>q j. table_path q \<longrightarrow> length q = 3 \<longrightarrow> j < ENTRY_COUNT
          \<longrightarrow> leaf_entry km' root q j = leaf_entry km root q j)
     \<and> (\<forall>q t. table_path q \<longrightarrow> node_from km root q = Some t \<longrightarrow> node_from km' root q = Some t)
     \<and> (\<forall>q. table_path q \<longrightarrow> no_huge_on km root q \<longrightarrow> no_huge_on km' root q)
     \<and> kernel_free (km_phys km') \<subseteq> kernel_free (km_phys km)
     \<and> card (kernel_free (km_phys km)) \<le> card (kernel_free (km_phys km')) + n
     \<and> user_free (km_phys km') \<subseteq> user_free (km_phys km)
     \<and> user_owns (km_phys km') = user_owns (km_phys km)
     \<and> (\<forall>c. pm_lent (km_phys km) c \<le> pm_lent (km_phys km') c)
     \<and> km_cr3 km' = km_cr3 km \<and> km_page_lock km' = km_page_lock km \<and> km_tlb km' = km_tlb km
     \<and> (\<forall>q t. table_path q \<longrightarrow> node_from km' root q = Some t
          \<longrightarrow> node_from km root q = Some t \<or> t \<in> kernel_free (km_phys km))"

lemma grown_refl: "tree_inv km root \<Longrightarrow> free_zeroed km \<Longrightarrow> grown km root n km"
  by (simp add: grown_def)

lemma grownD:
  assumes "grown km root n km'"
  shows "tree_inv km' root" and "free_zeroed km'"
    and "table_path q \<Longrightarrow> length q = 3 \<Longrightarrow> j < ENTRY_COUNT \<Longrightarrow> leaf_entry km' root q j = leaf_entry km root q j"
    and "table_path q \<Longrightarrow> node_from km root q = Some t \<Longrightarrow> node_from km' root q = Some t"
    and "table_path q \<Longrightarrow> no_huge_on km root q \<Longrightarrow> no_huge_on km' root q"
    and "kernel_free (km_phys km') \<subseteq> kernel_free (km_phys km)"
    and "card (kernel_free (km_phys km)) \<le> card (kernel_free (km_phys km')) + n"
    and "user_free (km_phys km') \<subseteq> user_free (km_phys km)"
    and "user_owns (km_phys km') = user_owns (km_phys km)"
    and "pm_lent (km_phys km) c \<le> pm_lent (km_phys km') c"
    and "km_cr3 km' = km_cr3 km" and "km_page_lock km' = km_page_lock km" and "km_tlb km' = km_tlb km"
    and "table_path q \<Longrightarrow> node_from km' root q = Some t \<Longrightarrow>
         node_from km root q = Some t \<or> t \<in> kernel_free (km_phys km)"
  using assms by (simp_all add: grown_def)

lemma grown_trans:
  assumes a: "grown km root m km1" and b: "grown km1 root n km2"
  shows "grown km root (m + n) km2"
  unfolding grown_def
proof (intro conjI allI impI)
  show "tree_inv km2 root" "free_zeroed km2" by (rule grownD(1,2) [OF b])+
  show "kernel_free (km_phys km2) \<subseteq> kernel_free (km_phys km)"
    by (rule order_trans [OF grownD(6) [OF b] grownD(6) [OF a]])
  show "user_free (km_phys km2) \<subseteq> user_free (km_phys km)"
    by (rule order_trans [OF grownD(8) [OF b] grownD(8) [OF a]])
  show "card (kernel_free (km_phys km)) \<le> card (kernel_free (km_phys km2)) + (m + n)"
    using grownD(7) [OF a] grownD(7) [OF b] by simp
  show "pm_lent (km_phys km) c \<le> pm_lent (km_phys km2) c" for c
    by (rule order_trans [OF grownD(10) [OF a] grownD(10) [OF b]])
  show "node_from km root q = Some t \<or> t \<in> kernel_free (km_phys km)"
    if "table_path q" "node_from km2 root q = Some t" for q t
    using grownD(14) [OF b that] grownD(14) [OF a that(1)] grownD(6) [OF a] by blast
qed (simp_all add: grownD(3-5,9,11-13) [OF a] grownD(3-5,9,11-13) [OF b])

text \<open>Pointing the entry \<open>i\<close> of table \<open>t\<close> at a fresh, zeroed frame adds one path.\<close>

definition link :: "kmem \<Rightarrow> frame \<Rightarrow> nat \<Rightarrow> raw_pte \<Rightarrow> physmem \<Rightarrow> kmem" where
  "link km t i e pm' = km\<lparr>km_phys := pm', km_tables := (km_tables km)(t := (km_tables km t)(i := e))\<rparr>"

lemma link_tables:
  "km_tables (link km t i e pm') u j = (if u = t \<and> j = i then e else km_tables km u j)"
  by (simp add: link_def)

lemma child_link:
  "child (link km t i e pm') u j =
     (if u = t \<and> j = i then if is_present e \<and> \<not> is_huge e then Some (pte_frame e) else None
      else child km u j)"
  by (simp add: child_def link_tables)

lemma node_from_link:
  assumes inv: "tree_inv km root" and path: "table_path (p @ [i])"
    and node: "node_from km root p = Some t" and none: "child km t i = None"
    and e: "is_present e" "\<not> is_huge e"
    and f: "pte_frame e \<in> kernel_free (km_phys km)" "\<forall>j < ENTRY_COUNT. km_tables km (pte_frame e) j = 0"
  shows "table_path q \<Longrightarrow> node_from (link km t i e pm') root q =
           (if q = p @ [i] then Some (pte_frame e) else node_from km root q)"
proof (induction q rule: rev_induct)
  case Nil
  show ?case by simp
next
  case (snoc j q)
  let ?km = "link km t i e pm'" and ?f = "pte_frame e"
  have pq: "table_path p" "table_path q" "length q \<le> 2" "j < ENTRY_COUNT" "length p \<le> 2"
    using path snoc.prems by (auto simp: table_path_snoc)
  note IH = snoc.IH [OF pq(2)]
  have ft: "?f \<noteq> t" using tree_invD(4) [OF inv pq(1) node] f(1) by auto
  show ?case
  proof (cases "q = p @ [i]")
    case True
    have "child ?km ?f j = None"
      using ft f(2) pq(4) by (simp add: child_link) (simp add: child_def is_present_bit)
    moreover have "node_from km root (q @ [j]) = None"
      using True node none by (simp add: node_from_append)
    moreover have "node_from ?km root q = Some ?f" using IH True by simp
    then have "node_from ?km root (q @ [j]) = child ?km ?f j" unfolding node_from_snoc by simp
    moreover have "q @ [j] \<noteq> p @ [i]" using True by simp
    ultimately show ?thesis by simp
  next
    case False
    then have q: "node_from ?km root q = node_from km root q" using IH by simp
    show ?thesis
    proof (cases "node_from km root q")
      case None
      with q node show ?thesis by (auto simp: node_from_snoc)
    next
      case (Some v)
      have "v = t \<longleftrightarrow> q = p"
        using tree_invD(2) [OF inv pq(2,1)] Some node by auto
      then show ?thesis using q Some e by (auto simp: node_from_snoc child_link)
    qed
  qed
qed

lemma next_table_child:
  assumes "i < ENTRY_COUNT" and "child km t i = Some u"
  shows "next_table_frame km t i = Inr (Some u)" and "identity_mapped u \<Longrightarrow> next_table km t i = Inr (Some u)"
  using assms by (auto simp: next_table_frame_def next_table_def get_entry_def child_def pte_present_def
      Let_def split: if_splits)

lemma next_table_none:
  assumes "i < ENTRY_COUNT" and "\<not> is_present (km_tables km t i)"
  shows "next_table_frame km t i = Inr None" and "next_table km t i = Inr None"
  using assms by (auto simp: next_table_frame_def next_table_def get_entry_def pte_present_def)

text \<open>The situation in which \<^verbatim>\<open>create_next_table\<close> links a new table.\<close>

definition fresh_link :: "kmem \<Rightarrow> frame \<Rightarrow> nat list \<Rightarrow> frame \<Rightarrow> nat \<Rightarrow> raw_pte \<Rightarrow> physmem \<Rightarrow> bool" where
  "fresh_link km root p t i e pm' \<longleftrightarrow> tree_inv km root \<and> free_zeroed km \<and> table_path (p @ [i])
     \<and> node_from km root p = Some t \<and> child km t i = None \<and> is_present e \<and> \<not> is_huge e
     \<and> took kernel_free kernel_owns (km_phys km) pm' (pte_frame e)
     \<and> high_region pm' = high_region (km_phys km)"

lemma fresh_linkD:
  assumes "fresh_link km root p t i e pm'"
  shows "tree_inv km root" "free_zeroed km" "table_path (p @ [i])" "node_from km root p = Some t"
    "child km t i = None" "is_present e" "\<not> is_huge e"
    "took kernel_free kernel_owns (km_phys km) pm' (pte_frame e)"
    "high_region pm' = high_region (km_phys km)" "table_path p"
    "\<forall>j < ENTRY_COUNT. km_tables km (pte_frame e) j = 0" "t \<notin> kernel_free (km_phys km)"
    "pte_frame e \<noteq> t"
  using assms tree_invD(4) [of km root p t]
  by (auto simp: fresh_link_def free_zeroed_def took_def table_path_snoc)

lemma fresh_link_nodes:
  assumes "fresh_link km root p t i e pm'" and "table_path q"
  shows "node_from (link km t i e pm') root q =
           (if q = p @ [i] then Some (pte_frame e) else node_from km root q)"
  using assms(2) by (rule node_from_link [OF fresh_linkD(1,3-7) [OF assms(1)]
        tookD(1) [OF fresh_linkD(8) [OF assms(1)]] fresh_linkD(11) [OF assms(1)]])

lemma fresh_link_tree:
  assumes l: "fresh_link km root p t i e pm'"
  shows "tree_inv (link km t i e pm') root"
  unfolding tree_inv_def
proof (intro conjI allI impI ballI)
  let ?km = "link km t i e pm'"
  note inv = fresh_linkD(1) [OF l] and tk = tookD [OF fresh_linkD(8) [OF l]] and nf = fresh_link_nodes [OF l]
  have pm [simp]: "km_phys ?km = pm'" by (simp add: link_def)
  show "pm_inv (km_phys ?km)" using tk(2) by simp
  show "identity_mapped g" if "g \<in> kernel_free (km_phys ?km)" for g
    using that tk(3) tree_invD(5) [OF inv] by auto
  have ne: "node_from km root s \<noteq> Some (pte_frame e)" if "table_path s" for s
    using tree_invD(4) [OF inv that] tk(1) by blast
  show "q = r" if a: "table_path q" "table_path r" "node_from ?km root q = Some u"
      "node_from ?km root r = Some u" for q r u
    using a nf [OF a(1)] nf [OF a(2)] tree_invD(2) [OF inv a(1,2)] ne [OF a(1)] ne [OF a(2)]
    by (auto split: if_splits)
  show "identity_mapped u" if a: "table_path q" "node_from ?km root q = Some u" for q u
    using a nf [OF a(1)] tree_invD(3) [OF inv a(1)] tree_invD(5) [OF inv tk(1)]
    by (auto split: if_splits)
  show "u \<notin> kernel_free (km_phys ?km)" if a: "table_path q" "node_from ?km root q = Some u" for q u
    using a nf [OF a(1)] tree_invD(4) [OF inv a(1)] tk(3) by (auto split: if_splits)
qed

lemma fresh_link_no_huge:
  assumes l: "fresh_link km root p t i e pm'" and q: "table_path q" "no_huge_on km root q"
  shows "no_huge_on (link km t i e pm') root q"
  unfolding no_huge_on_def
proof (intro allI impI)
  let ?km = "link km t i e pm'"
  note nf = fresh_link_nodes [OF l]
  fix n u
  assume n: "n < length q" "node_from ?km root (take n q) = Some u"
  have tq: "table_path (take n q)" "q ! n < ENTRY_COUNT"
    using q(1) n(1) by (auto simp: table_path_def dest: in_set_takeD)
  show "\<not> (is_present (km_tables ?km u (q ! n)) \<and> is_huge (km_tables ?km u (q ! n)))"
  proof (cases "take n q = p @ [i]")
    case True
    then have "u = pte_frame e" using n(2) nf [OF tq(1)] by simp
    then show ?thesis
      using fresh_linkD(11,13) [OF l] tq(2) by (simp add: link_tables is_present_bit)
  next
    case False
    then have "node_from km root (take n q) = Some u" using n(2) nf [OF tq(1)] by simp
    with q(2) n(1) fresh_linkD(7) [OF l] show ?thesis by (auto simp: no_huge_on_def link_tables)
  qed
qed

lemma fresh_link_leaf:
  assumes l: "fresh_link km root p t i e pm'" and q: "table_path q" "length q = 3" "j < ENTRY_COUNT"
  shows "leaf_entry (link km t i e pm') root q j = leaf_entry km root q j"
proof (cases "q = p @ [i]")
  case True
  then have "node_from km root q = None" using fresh_linkD(4,5) [OF l] by (simp add: node_from_snoc)
  then show ?thesis
    using True fresh_link_nodes [OF l q(1)] fresh_linkD(11,13) [OF l] q(3)
    by (simp add: leaf_entry_def link_tables)
next
  case False
  have "u \<noteq> t" if "node_from km root q = Some u" for u
    using tree_invD(2) [OF fresh_linkD(1) [OF l] q(1) fresh_linkD(10) [OF l] that]
      fresh_linkD(3,4) [OF l] q(2) by (auto simp: table_path_def)
  then show ?thesis
    using False fresh_link_nodes [OF l q(1)] by (auto simp: leaf_entry_def link_tables split: option.splits)
qed

lemma fresh_link_grown:
  assumes l: "fresh_link km root p t i e pm'"
  shows "grown km root 1 (link km t i e pm')"
proof -
  let ?km = "link km t i e pm'"
  note inv = fresh_linkD(1) [OF l] and tk = tookD [OF fresh_linkD(8) [OF l]]
    and tu = tookD [OF took_user_of_kernel [OF tree_invD(1) [OF fresh_linkD(1) [OF l]] fresh_linkD(8,9) [OF l]]]
  have "free_zeroed ?km"
    using fresh_linkD(2,12) [OF l] tk(3) by (auto simp: free_zeroed_def link_def)
  moreover have "card (kernel_free (km_phys km)) = Suc (card (kernel_free pm'))"
    using card.remove [OF kernel_frames.free_finite [OF tree_invD(1) [OF inv]] tk(1)] tk(3) by simp
  moreover have "node_from ?km root q = Some u" if "table_path q" "node_from km root q = Some u" for q u
    using fresh_link_nodes [OF l that(1)] that(2) fresh_linkD(4,5) [OF l] by (auto simp: node_from_snoc)
  moreover have "node_from km root q = Some u \<or> u \<in> kernel_free (km_phys km)"
    if "table_path q" "node_from ?km root q = Some u" for q u
    using that(2) tk(1) unfolding fresh_link_nodes [OF l that(1)] by (auto split: if_splits)
  ultimately show ?thesis
    unfolding grown_def
    using fresh_link_tree [OF l] fresh_link_no_huge [OF l] fresh_link_leaf [OF l] tk(3,4) tu(3,5)
    by (auto simp: link_def)
qed

lemma create_next_table_detail:
  assumes inv: "tree_inv km root" and fz: "free_zeroed km" and path: "table_path (p @ [i])"
    and node: "node_from km root p = Some t"
    and nh: "\<not> (is_present (km_tables km t i) \<and> is_huge (km_tables km t i))"
    and free: "kernel_free (km_phys km) \<noteq> {}"
  shows "\<exists>km' u. create_next_table t i km = Inr (km', Inr u) \<and> node_from km' root (p @ [i]) = Some u
           \<and> grown km root 1 km' \<and> (\<forall>v j. (v, j) \<noteq> (t, i) \<longrightarrow> km_tables km' v j = km_tables km v j)
           \<and> (is_present (km_tables km t i) \<or> u \<in> kernel_free (km_phys km))
           \<and> (\<forall>q. table_path q \<longrightarrow> q \<noteq> p @ [i] \<longrightarrow> node_from km' root q = node_from km root q)
           \<and> (is_present (km_tables km t i) \<longrightarrow> km' = km)"
proof (cases "is_present (km_tables km t i)")
  case True
  then have c: "child km t i = Some (pte_frame (km_tables km t i))" (is "_ = Some ?u")
    using nh by (simp add: child_def)
  have n: "node_from km root (p @ [i]) = Some ?u" using node c by (simp add: node_from_snoc)
  have "i < ENTRY_COUNT" using path by (simp add: table_path_snoc)
  from next_table_child [OF this c] tree_invD(3) [OF inv path n]
  have "create_next_table t i km = Inr (km, Inr ?u)" by (simp add: create_next_table_def)
  then show ?thesis using n True grown_refl [OF inv fz] by blast
next
  case False
  have i: "i < ENTRY_COUNT" using path by (simp add: table_path_snoc)
  from allocate_kernel_some [OF tree_invD(1) [OF inv] free] obtain pm' f where a:
    "allocate_kernel_frame (km_phys km) = Inr (pm', Some f)"
    "took kernel_free kernel_owns (km_phys km) pm' f" "high_region pm' = high_region (km_phys km)" by blast
  have fm: "identity_mapped f" using tree_invD(5) [OF inv tookD(1) [OF a(2)]] .
  from table_pte [OF identity_mapped_small [OF fm]] obtain e where e:
    "from_frame_and_flags f (WRITABLE OR USER_ACCESSIBLE) = Inr e" "is_present e" "\<not> is_huge e"
    "pte_frame e = f" by blast
  let ?km = "link km t i e pm'"
  have l: "fresh_link km root p t i e pm'"
    using inv fz path node False a e by (simp add: fresh_link_def child_def)
  have "set_entry t i e (km\<lparr>km_phys := pm'\<rparr>) = Inr ?km" using i by (simp add: set_entry_def link_def)
  moreover have "next_table ?km t i = Inr (Some f)"
    using e fm by (intro next_table_child(2) [OF i]) (simp_all add: child_link)
  ultimately have "create_next_table t i km = Inr (?km, Inr f)"
    using next_table_none [OF i False] False i a(1) e(1)
    by (simp add: create_next_table_def get_entry_def pte_present_def)
  moreover have "node_from ?km root (p @ [i]) = Some f"
    using fresh_link_nodes [OF l path] e(4) by simp
  moreover have "\<forall>v j. (v, j) \<noteq> (t, i) \<longrightarrow> km_tables ?km v j = km_tables km v j" by (simp add: link_tables)
  moreover have "\<forall>q. table_path q \<longrightarrow> q \<noteq> p @ [i] \<longrightarrow> node_from ?km root q = node_from km root q"
    using fresh_link_nodes [OF l] by simp
  ultimately show ?thesis using fresh_link_grown [OF l] tookD(1) [OF a(2)] False by blast
qed

lemma create_next_table_step:
  assumes inv: "tree_inv km root" and fz: "free_zeroed km" and path: "table_path (p @ [i])"
    and node: "node_from km root p = Some t"
    and nh: "\<not> (is_present (km_tables km t i) \<and> is_huge (km_tables km t i))"
    and free: "kernel_free (km_phys km) \<noteq> {}"
  shows "\<exists>km' u. create_next_table t i km = Inr (km', Inr u) \<and> node_from km' root (p @ [i]) = Some u
           \<and> grown km root 1 km'"
  using create_next_table_detail [OF assms] by blast

section \<open>Reaching and writing the entry of a page\<close>

lemma no_huge_page:
  assumes "no_huge_on km root (page_path va)"
  shows "\<not> (is_present (km_tables km root (p4_index va)) \<and> is_huge (km_tables km root (p4_index va)))"
    and "node_from km root [p4_index va] = Some t \<Longrightarrow>
         \<not> (is_present (km_tables km t (p3_index va)) \<and> is_huge (km_tables km t (p3_index va)))"
    and "node_from km root [p4_index va, p3_index va] = Some u \<Longrightarrow>
         \<not> (is_present (km_tables km u (p2_index va)) \<and> is_huge (km_tables km u (p2_index va)))"
  using assms [unfolded no_huge_on_def, rule_format, of 0 root]
    assms [unfolded no_huge_on_def, rule_format, of 1 t] assms [unfolded no_huge_on_def, rule_format, of 2 u]
  by (auto simp: page_path_def numeral_2_eq_2)

lemma page_prefix_ok:
  "table_path ([] @ [p4_index va])" "table_path ([p4_index va] @ [p3_index va])"
  "table_path ([p4_index va, p3_index va] @ [p2_index va])"
  by (simp_all add: table_path_def)

lemma create_pte_spec:
  assumes inv: "tree_inv km root" and fz: "free_zeroed km" and nh: "no_huge_on km root (page_path va)"
    and free: "3 \<le> card (kernel_free (km_phys km))"
  shows "\<exists>km' t. create_pte_mut_for_address root va km = Inr (km', Inr (t, p1_index va))
           \<and> node_from km' root (page_path va) = Some t \<and> grown km root 3 km'"
proof -
  have ne: "kernel_free (km_phys k) \<noteq> {}" if "Suc 0 \<le> card (kernel_free (km_phys k))" for k
    using that by auto
  obtain k1 t3 where s1: "create_next_table root (p4_index va) km = Inr (k1, Inr t3)"
      "node_from k1 root ([] @ [p4_index va]) = Some t3" "grown km root 1 k1"
    using create_next_table_step [OF inv fz page_prefix_ok(1) _ no_huge_page(1) [OF nh] ne] free by auto
  have c1: "2 \<le> card (kernel_free (km_phys k1))" using grownD(7) [OF s1(3)] free by simp
  have h1: "no_huge_on k1 root (page_path va)" using grownD(5) [OF s1(3)] nh by simp
  obtain k2 t2 where s2: "create_next_table t3 (p3_index va) k1 = Inr (k2, Inr t2)"
      "node_from k2 root ([p4_index va] @ [p3_index va]) = Some t2" "grown k1 root 1 k2"
    using create_next_table_step [OF grownD(1,2) [OF s1(3)] page_prefix_ok(2) _ no_huge_page(2) [OF h1] ne]
      c1 s1(2) by auto
  have c2: "1 \<le> card (kernel_free (km_phys k2))" using grownD(7) [OF s2(3)] c1 by simp
  have h2: "no_huge_on k2 root (page_path va)" using grownD(5) [OF s2(3)] h1 by simp
  obtain k3 t1 where s3: "create_next_table t2 (p2_index va) k2 = Inr (k3, Inr t1)"
      "node_from k3 root ([p4_index va, p3_index va] @ [p2_index va]) = Some t1" "grown k2 root 1 k3"
    using create_next_table_step [OF grownD(1,2) [OF s2(3)] page_prefix_ok(3) _ no_huge_page(3) [OF h2] ne]
      c2 s2(2) by auto
  have "create_pte_mut_for_address root va km = Inr (k3, Inr (t1, p1_index va))"
    using s1(1) s2(1) s3(1) by (simp add: create_pte_mut_for_address_def bindE_def)
  moreover have "grown km root 3 k3"
    using grown_trans [OF grown_trans [OF s1(3) s2(3)] s3(3)] by (simp add: numeral_3_eq_3)
  ultimately show ?thesis using s3(2) by (auto simp: page_path_def)
qed

definition write_entry :: "kmem \<Rightarrow> frame \<Rightarrow> nat \<Rightarrow> raw_pte \<Rightarrow> kmem" where
  "write_entry km t i e = km\<lparr>km_tables := (km_tables km)(t := (km_tables km t)(i := e))\<rparr>"

lemma write_entry_simps [simp]:
  "km_phys (write_entry km t i e) = km_phys km" "km_cr3 (write_entry km t i e) = km_cr3 km"
  "km_page_lock (write_entry km t i e) = km_page_lock km" "km_tlb (write_entry km t i e) = km_tlb km"
  "km_tables (write_entry km t i e) u j = (if u = t \<and> j = i then e else km_tables km u j)"
  by (simp_all add: write_entry_def)

lemma set_entry_eq: "i < ENTRY_COUNT \<Longrightarrow> set_entry t i e km = Inr (write_entry km t i e)"
  by (simp add: set_entry_def write_entry_def)

lemma write_leaf_nodes:
  assumes inv: "tree_inv km root" and q: "table_path q" "length q = 3" "node_from km root q = Some t"
  shows "table_path r \<Longrightarrow> node_from (write_entry km t i e) root r = node_from km root r"
proof (induction r rule: rev_induct)
  case (snoc j r)
  then have r: "table_path r" "length r \<le> 2" by (auto simp: table_path_snoc)
  have "u \<noteq> t" if "node_from km root r = Some u" for u
    using tree_invD(2) [OF inv r(1) q(1) that] q(2,3) r(2) by auto
  then show ?case
    using snoc.IH [OF r(1)] by (auto simp: node_from_snoc child_def split: option.splits)
qed simp

lemma write_leaf_tree:
  assumes inv: "tree_inv km root" and q: "table_path q" "length q = 3" "node_from km root q = Some t"
  shows "tree_inv (write_entry km t i e) root"
  unfolding tree_inv_def
  by (intro conjI allI impI ballI)
    (auto simp: write_leaf_nodes [OF assms] tree_invD [OF inv] intro: tree_invD(2) [OF inv])

lemma write_leaf_zeroed:
  assumes "tree_inv km root" and "table_path q" and "node_from km root q = Some t" and "free_zeroed km"
  shows "free_zeroed (write_entry km t i e)"
  using assms tree_invD(4) [OF assms(1-3)] by (auto simp: free_zeroed_def)

lemma write_leaf_entry:
  assumes inv: "tree_inv km root" and q: "table_path q" "length q = 3" "node_from km root q = Some t"
    and r: "table_path r"
  shows "leaf_entry (write_entry km t i e) root r j =
           (if r = q \<and> j = i then e else leaf_entry km root r j)"
proof -
  have "u = t \<longleftrightarrow> r = q" if "node_from km root r = Some u" for u
    using tree_invD(2) [OF inv r q(1) that] q(3) that by auto
  then show ?thesis
    using write_leaf_nodes [OF inv q r] q(3) by (auto simp: leaf_entry_def split: option.splits)
qed

lemma lookup_write:
  assumes inv: "tree_inv km root" and t: "node_from km root (page_path va) = Some t"
  shows "lookup (write_entry km t (p1_index va) e) root a = (if vpn a = vpn va then e else lookup km root a)"
  using write_leaf_entry [OF inv page_path_ok _ t page_path_ok, of "p1_index va" e a "p1_index a"]
    same_page_iff [of a va] by (auto simp: lookup_def page_path_def)

lemma lookup_grown: "grown km root n km' \<Longrightarrow> lookup km' root a = lookup km root a"
  by (simp add: lookup_def grownD(3) page_path_def table_path_def)

lemma get_pte_spec:
  assumes inv: "tree_inv km root" and nh: "no_huge_on km root (page_path va)"
  shows "get_pte_for_address km root va =
           Inr (map_option (\<lambda>t. (t, p1_index va)) (node_from km root (page_path va)))"
proof -
  have step: "next_table km t i = Inr (child km t i)"
    if "node_from km root p = Some t" "table_path (p @ [i])"
       "\<not> (is_present (km_tables km t i) \<and> is_huge (km_tables km t i))" for p t i
  proof (cases "child km t i")
    case None
    with that next_table_none(2) [of i km t] show ?thesis
      by (auto simp: child_def table_path_snoc Let_def split: if_splits)
  next
    case (Some u)
    then have "node_from km root (p @ [i]) = Some u" using that(1) by (simp add: node_from_snoc)
    from tree_invD(3) [OF inv that(2) this] Some that(2) next_table_child(2) [of i km t u] show ?thesis
      by (simp add: table_path_snoc)
  qed
  have s1: "next_table km root (p4_index va) = Inr (child km root (p4_index va))"
    by (rule step [OF _ page_prefix_ok(1) no_huge_page(1) [OF nh]]) simp
  have s2: "next_table km t (p3_index va) = Inr (child km t (p3_index va))"
    if "child km root (p4_index va) = Some t" for t
    using that by (intro step [OF _ page_prefix_ok(2)] no_huge_page(2) [OF nh]) simp_all
  have s3: "next_table km u (p2_index va) = Inr (child km u (p2_index va))"
    if "child km root (p4_index va) = Some t" "child km t (p3_index va) = Some u" for t u
    using that by (intro step [OF _ page_prefix_ok(3)] no_huge_page(3) [OF nh]) simp_all
  show ?thesis
    using s1 s2 s3 by (auto simp: get_pte_for_address_def and_then_table_def page_path_def split: option.splits)
qed

text \<open>
  What a mapping operation keeps of the state besides the entries it writes: the tree stays
  well formed, huge pages stay where they were, at most \<open>n\<close> kernel frames are used up.
\<close>

definition kept :: "kmem \<Rightarrow> frame \<Rightarrow> nat \<Rightarrow> kmem \<Rightarrow> bool" where
  "kept km root n km' \<longleftrightarrow> tree_inv km' root \<and> free_zeroed km'
     \<and> (\<forall>q. table_path q \<longrightarrow> no_huge_on km root q \<longrightarrow> no_huge_on km' root q)
     \<and> kernel_free (km_phys km') \<subseteq> kernel_free (km_phys km)
     \<and> card (kernel_free (km_phys km)) \<le> card (kernel_free (km_phys km')) + n
     \<and> user_free (km_phys km') \<subseteq> user_free (km_phys km)
     \<and> user_owns (km_phys km') = user_owns (km_phys km)
     \<and> (\<forall>c. pm_lent (km_phys km) c \<le> pm_lent (km_phys km') c)
     \<and> km_cr3 km' = km_cr3 km \<and> km_page_lock km' = km_page_lock km \<and> km_tlb km' = km_tlb km
     \<and> (\<forall>q t. table_path q \<longrightarrow> node_from km' root q = Some t
          \<longrightarrow> node_from km root q = Some t \<or> t \<in> kernel_free (km_phys km))"

lemma keptD:
  assumes "kept km root n km'"
  shows "tree_inv km' root" and "free_zeroed km'"
    and "table_path q \<Longrightarrow> no_huge_on km root q \<Longrightarrow> no_huge_on km' root q"
    and "kernel_free (km_phys km') \<subseteq> kernel_free (km_phys km)"
    and "card (kernel_free (km_phys km)) \<le> card (kernel_free (km_phys km')) + n"
    and "user_free (km_phys km') \<subseteq> user_free (km_phys km)"
    and "user_owns (km_phys km') = user_owns (km_phys km)"
    and "pm_lent (km_phys km) c \<le> pm_lent (km_phys km') c"
    and "km_cr3 km' = km_cr3 km" and "km_page_lock km' = km_page_lock km" and "km_tlb km' = km_tlb km"
    and "table_path q \<Longrightarrow> node_from km' root q = Some t \<Longrightarrow>
         node_from km root q = Some t \<or> t \<in> kernel_free (km_phys km)"
  using assms by (simp_all add: kept_def)

lemma kept_refl: "tree_inv km root \<Longrightarrow> free_zeroed km \<Longrightarrow> kept km root n km"
  by (simp add: kept_def)

lemma kept_trans:
  assumes a: "kept km root m km1" and b: "kept km1 root n km2"
  shows "kept km root (m + n) km2"
  unfolding kept_def
proof (intro conjI allI impI)
  show "tree_inv km2 root" "free_zeroed km2" by (rule keptD(1,2) [OF b])+
  show "kernel_free (km_phys km2) \<subseteq> kernel_free (km_phys km)"
    by (rule order_trans [OF keptD(4) [OF b] keptD(4) [OF a]])
  show "user_free (km_phys km2) \<subseteq> user_free (km_phys km)"
    by (rule order_trans [OF keptD(6) [OF b] keptD(6) [OF a]])
  show "card (kernel_free (km_phys km)) \<le> card (kernel_free (km_phys km2)) + (m + n)"
    using keptD(5) [OF a] keptD(5) [OF b] by simp
  show "pm_lent (km_phys km) c \<le> pm_lent (km_phys km2) c" for c
    by (rule order_trans [OF keptD(8) [OF a] keptD(8) [OF b]])
  show "node_from km root q = Some t \<or> t \<in> kernel_free (km_phys km)"
    if "table_path q" "node_from km2 root q = Some t" for q t
    using keptD(12) [OF b that] keptD(12) [OF a that(1)] keptD(4) [OF a] by blast
qed (simp_all add: keptD(3,7,9-11) [OF a] keptD(3,7,9-11) [OF b])

lemma write_leaf_no_huge:
  assumes inv: "tree_inv km root" and q: "table_path q" "length q = 3" "node_from km root q = Some t"
    and r: "table_path r" "no_huge_on km root r"
  shows "no_huge_on (write_entry km t i e) root r"
  unfolding no_huge_on_def
proof (intro allI impI)
  fix n u
  assume n: "n < length r" "node_from (write_entry km t i e) root (take n r) = Some u"
  have tn: "table_path (take n r)" "length (take n r) < 3"
    using r(1) n(1) by (auto simp: table_path_def dest: in_set_takeD)
  have u: "node_from km root (take n r) = Some u" using n(2) write_leaf_nodes [OF inv q tn(1)] by simp
  have "u \<noteq> t" using tree_invD(2) [OF inv tn(1) q(1)] u q(2,3) tn(2) by auto
  then show "\<not> (is_present (km_tables (write_entry km t i e) u (r ! n))
      \<and> is_huge (km_tables (write_entry km t i e) u (r ! n)))"
    using r(2) n(1) u by (simp add: no_huge_on_def)
qed

lemma grown_write_kept:
  assumes g: "grown km root n k" and t: "node_from k root (page_path page) = Some t"
  shows "kept km root n (write_entry k t (p1_index page) e)"
proof -
  have len: "length (page_path page) = 3" by (simp add: page_path_def)
  note tr = grownD(1) [OF g]
  show ?thesis
    unfolding kept_def
    using write_leaf_tree [OF tr page_path_ok len t] write_leaf_zeroed [OF tr page_path_ok t grownD(2) [OF g]]
      write_leaf_no_huge [OF tr page_path_ok len t] write_leaf_nodes [OF tr page_path_ok len t]
      grownD(5-14) [OF g] by simp
qed

lemma map_to_spec:
  assumes inv: "tree_inv km root" and fz: "free_zeroed km" and nh: "no_huge_on km root (page_path page)"
    and free: "3 \<le> card (kernel_free (km_phys km))" and un: "lookup km root page = 0"
    and f: "f < 2 ^ 40" and fl: "flags AND NOT present_page_flags = 0"
  shows "\<exists>km' e. map_to root page f flags km = Inr (km', Inr page) \<and> kept km root 3 km'
           \<and> is_present e \<and> pte_frame e = f \<and> present_flags e = flags
           \<and> (\<forall>a. lookup km' root a = (if vpn a = vpn page then e else lookup km root a))"
proof -
  obtain e where e: "from_frame_and_flags f flags = Inr e" "is_present e" "pte_frame e = f"
      "present_flags e = flags"
    using present_pte_fields [OF f fl, of 0] by (auto simp: from_frame_and_flags_def MAX_COUNTER_VALUE_eq)
  obtain k t where c: "create_pte_mut_for_address root page km = Inr (k, Inr (t, p1_index page))"
      "node_from k root (page_path page) = Some t" "grown km root 3 k"
    using create_pte_spec [OF inv fz nh free] by blast
  have "km_tables k t (p1_index page) = 0"
    using c(2) lookup_grown [OF c(3), of page] un by (simp add: lookup_def leaf_entry_def)
  then have "map_to root page f flags km = Inr (write_entry k t (p1_index page) e, Inr page)"
    using c(1) e(1) by (simp add: map_to_def bindE_def get_entry_def raw_unused_def is_unused_def set_entry_eq)
  then show ?thesis
    using e(2-4) lookup_write [OF grownD(1) [OF c(3)] c(2)] lookup_grown [OF c(3)] grown_write_kept [OF c(3,2)]
    by auto
qed

lemma do_set_pte_spec:
  assumes inv: "tree_inv km root" and fz: "free_zeroed km" and nh: "no_huge_on km root (page_path page)"
    and free: "3 \<le> card (kernel_free (km_phys km))" and np: "\<not> is_present (lookup km root page)"
  shows "\<exists>km'. do_set_pte root page e km = Inr (km', Inr page) \<and> kept km root 3 km'
           \<and> (\<forall>a. lookup km' root a = (if vpn a = vpn page then e else lookup km root a))"
proof -
  obtain k t where c: "create_pte_mut_for_address root page km = Inr (k, Inr (t, p1_index page))"
      "node_from k root (page_path page) = Some t" "grown km root 3 k"
    using create_pte_spec [OF inv fz nh free] by blast
  have "km_tables k t (p1_index page) = lookup km root page"
    using c(2) lookup_grown [OF c(3), of page] by (simp add: lookup_def leaf_entry_def)
  then have "do_set_pte root page e km = Inr (write_entry k t (p1_index page) e, Inr page)"
    using c(1) np by (simp add: do_set_pte_def bindE_def get_entry_def set_entry_eq)
  then show ?thesis
    using lookup_write [OF grownD(1) [OF c(3)] c(2)] lookup_grown [OF c(3)] grown_write_kept [OF c(3,2)]
    by auto
qed

section \<open>The mapper as updates of the address space\<close>

text \<open>
  C26. Mapping an unmapped page into a well-formed tree succeeds when three kernel frames are
  free and free frames are zeroed: afterwards the page maps to exactly the requested frame
  and flags, the entry of every other page is unchanged, and the tree is well formed.
\<close>

theorem map_to_maps_one_page:
  assumes inv: "tree_inv km root" and fz: "free_zeroed km" and nh: "no_huge_on km root (page_path page)"
    and free: "3 \<le> card (kernel_free (km_phys km))" and un: "lookup km root page = 0"
    and f: "f < 2 ^ 40" and fl: "flags AND NOT present_page_flags = 0"
  shows "\<exists>km' e. map_to root page f flags km = Inr (km', Inr page) \<and> tree_inv km' root \<and> free_zeroed km'
           \<and> is_present e \<and> pte_frame e = f \<and> present_flags e = flags
           \<and> (\<forall>a. lookup km' root a = (if vpn a = vpn page then e else lookup km root a))"
  using map_to_spec [OF assms] keptD(1,2) by blast

text \<open>An address space with an empty level 4 table in frame 300.\<close>

definition empty_kmem :: kmem where
  "empty_kmem = \<lparr>km_phys = example_physmem, km_tables = (\<lambda>_ _. 0), km_cr3 = 0x12c000,
     km_page_lock = False, km_tlb = []\<rparr>"

lemma empty_kmem_simps [simp]:
  "km_phys empty_kmem = example_physmem" "km_tables empty_kmem t i = 0"
  by (simp_all add: empty_kmem_def)

lemma empty_child: "child empty_kmem t i = None"
  by (simp add: child_def is_present_bit)

lemma empty_nodes: "node_from empty_kmem t p = (if p = [] then Some t else None)"
  by (cases p) (simp_all add: empty_child)

lemma empty_kmem_ok:
  "tree_inv empty_kmem 300" "free_zeroed empty_kmem" "no_huge_on empty_kmem 300 p"
  "card (kernel_free (km_phys empty_kmem)) = 3" "lookup empty_kmem 300 a = 0"
proof -
  show "tree_inv empty_kmem 300"
    using example_physmem_inv
    by (auto simp: tree_inv_def empty_nodes example_physmem_free identity_mapped_def PAGE_SIZE_def
        IDENTITY_MAP_SIZE_def split: if_splits)
qed (simp_all add: free_zeroed_def no_huge_on_def is_present_bit example_physmem_free
    lookup_def leaf_entry_def split: option.splits)

theorem map_to_maps_one_page_witness:
  "tree_inv empty_kmem 300 \<and> free_zeroed empty_kmem \<and> 3 \<le> card (kernel_free (km_phys empty_kmem))
   \<and> (\<exists>km' e. map_to 300 0x401000 77 WRITABLE empty_kmem = Inr (km', Inr 0x401000)
        \<and> pte_frame e = 77 \<and> lookup km' 300 0x401000 = e \<and> lookup km' 300 0x402000 = 0)"
proof -
  have fl: "WRITABLE AND NOT present_page_flags = 0"
    by (simp add: present_page_flags_mask mask_eq_exp_minus_1 push_bit_eq_mult WRITABLE_def)
  have "vpn 0x402000 \<noteq> vpn 0x401000" by (simp add: vpn_def)
  with map_to_maps_one_page [OF empty_kmem_ok(1,2,3) _ empty_kmem_ok(5) _ fl, of 77 "0x401000"]
  show ?thesis using empty_kmem_ok by auto
qed

text \<open>
  C28. Mapping a page that already has an entry, present or not, panics instead of replacing it.
\<close>

theorem map_to_refuses_mapped_page:
  assumes inv: "tree_inv km root" and nh: "no_huge_on km root (page_path page)" and fz: "free_zeroed km"
    and free: "3 \<le> card (kernel_free (km_phys km))" and un: "lookup km root page \<noteq> 0"
  shows "map_to root page f flags km = Inl (Assertion ''*pte == RawPte::unused()'')"
proof -
  obtain k t where c: "create_pte_mut_for_address root page km = Inr (k, Inr (t, p1_index page))"
      "node_from k root (page_path page) = Some t" "grown km root 3 k"
    using create_pte_spec [OF inv fz nh free] by blast
  have "km_tables k t (p1_index page) \<noteq> 0"
    using c(2) lookup_grown [OF c(3), of page] un by (simp add: lookup_def leaf_entry_def)
  then show ?thesis using c(1) by (simp add: map_to_def bindE_def get_entry_def raw_unused_def)
qed

text \<open>
  An address space whose page 0 is mapped to frame 256 through the tables in frames 300 to
  303; every other entry is unused.
\<close>

definition small_tables :: "frame \<Rightarrow> nat \<Rightarrow> raw_pte" where
  "small_tables t i =
     (if i \<noteq> 0 then 0 else if t = 300 then 0x12d007 else if t = 301 then 0x12e007
      else if t = 302 then 0x12f007 else if t = 303 then 0x100003 else 0)"

definition small_kmem :: kmem where
  "small_kmem = empty_kmem\<lparr>km_tables := small_tables\<rparr>"

lemma small_kmem_simps [simp]:
  "km_phys small_kmem = example_physmem" "km_tables small_kmem = small_tables"
  by (simp_all add: small_kmem_def)

lemma small_pte_frames:
  "is_present 0x12d007" "is_present 0x12e007" "is_present 0x12f007" "is_present 0x100003"
  "\<not> is_huge 0x12d007" "\<not> is_huge 0x12e007" "\<not> is_huge 0x12f007" "\<not> is_huge 0x100003"
  "pte_frame 0x12d007 = 301" "pte_frame 0x12e007 = 302" "pte_frame 0x12f007 = 303"
  "pte_frame 0x100003 = 256"
  by (simp_all add: is_present_bit is_huge_bit pte_frame_def FRAME_BITS_def containing_address_def
      page_align_down_def PAGE_SIZE_def)

lemma small_child:
  "child small_kmem t i =
     (if i \<noteq> 0 then None else if t = 300 then Some 301 else if t = 301 then Some 302
      else if t = 302 then Some 303 else if t = 303 then Some 256 else None)"
  by (simp add: child_def small_tables_def small_pte_frames) (simp add: is_present_bit)

lemma small_nodes:
  assumes "length p \<le> 3"
  shows "node_from small_kmem 300 p = Some t \<longleftrightarrow>
           (p = [] \<and> t = 300) \<or> (p = [0] \<and> t = 301) \<or> (p = [0, 0] \<and> t = 302) \<or> (p = [0, 0, 0] \<and> t = 303)"
proof -
  consider "p = []" | i where "p = [i]" | i j where "p = [i, j]" | i j k where "p = [i, j, k]"
    using assms by (metis length_0_conv length_Suc_conv le_Suc_eq le_zero_eq numeral_3_eq_3)
  then show ?thesis by cases (auto simp: small_child split: if_splits)
qed

lemma small_kmem_ok:
  "tree_inv small_kmem 300" "free_zeroed small_kmem" "no_huge_on small_kmem 300 (page_path a)"
  "card (kernel_free (km_phys small_kmem)) = 3" "lookup small_kmem 300 0 = 0x100003"
proof -
  show "tree_inv small_kmem 300"
    using example_physmem_inv
    by (auto simp: tree_inv_def table_path_def small_nodes example_physmem_free identity_mapped_def
        PAGE_SIZE_def IDENTITY_MAP_SIZE_def)
  show "no_huge_on small_kmem 300 (page_path a)"
    by (auto simp: no_huge_on_def small_tables_def small_pte_frames is_present_bit)
  have "p1_index 0 = 0" "page_path 0 = [0, 0, 0]"
    by (simp_all add: page_path_def p1_index_def p2_index_def p3_index_def p4_index_def new_truncate_def)
  then show "lookup small_kmem 300 0 = 0x100003"
    by (simp add: lookup_def leaf_entry_def small_child small_tables_def)
qed (simp_all add: free_zeroed_def example_physmem_free small_tables_def)

theorem map_to_refuses_mapped_page_witness:
  "tree_inv small_kmem 300 \<and> free_zeroed small_kmem \<and> lookup small_kmem 300 0 \<noteq> 0
   \<and> map_to 300 0 5 WRITABLE small_kmem = Inl (Assertion ''*pte == RawPte::unused()'')"
proof -
  have "lookup small_kmem 300 0 \<noteq> 0" by (simp add: small_kmem_ok(5))
  with map_to_refuses_mapped_page [OF small_kmem_ok(1,3,2) _ this] small_kmem_ok show ?thesis by simp
qed

lemma node_from_cong:
  assumes "km_tables km' = km_tables km"
  shows "node_from km' t p = node_from km t p"
proof (induction p arbitrary: t)
  case (Cons i p)
  have "child km' t i = child km t i" by (simp add: child_def assms)
  then show ?case by (simp add: Cons.IH cong: option.case_cong)
qed simp

lemma lookup_cong:
  assumes "km_tables km' = km_tables km"
  shows "lookup km' root a = lookup km root a"
  unfolding lookup_def leaf_entry_def node_from_cong [OF assms] by (simp only: assms)

text \<open>
  When the frame a page maps may go back to the frame database: the database lent it out, it
  holds no table of the tree, and the identity map covers it if it is a kernel frame.
\<close>

definition releasable :: "kmem \<Rightarrow> frame \<Rightarrow> frame \<Rightarrow> bool" where
  "releasable km root f \<longleftrightarrow> user_owns (km_phys km) f \<and> f \<notin> user_free (km_phys km)
     \<and> 0 < pm_lent (km_phys km) (pm_pool f) \<and> (kernel_owns (km_phys km) f \<longrightarrow> identity_mapped f)
     \<and> (\<forall>p. table_path p \<longrightarrow> node_from km root p \<noteq> Some f)"

lemma release_frame:
  assumes inv: "tree_inv km root" and r: "releasable km root f"
  shows "\<exists>pm'. pm_deallocate_frame (km_phys km) f = Inr pm'
           \<and> user_free pm' = insert f (user_free (km_phys km)) \<and> tree_inv (km\<lparr>km_phys := pm'\<rparr>) root
           \<and> pm_lent pm' = (pm_lent (km_phys km))(pm_pool f := pm_lent (km_phys km) (pm_pool f) - 1)
           \<and> user_owns pm' = user_owns (km_phys km) \<and> kernel_owns pm' = kernel_owns (km_phys km)"
proof -
  have r1: "user_owns (km_phys km) f" "f \<notin> user_free (km_phys km)" "0 < pm_lent (km_phys km) (pm_pool f)"
    using r by (simp_all add: releasable_def)
  obtain pm' where p: "pm_deallocate_frame (km_phys km) f = Inr pm'" "pm_inv pm'"
      "user_free pm' = insert f (user_free (km_phys km))"
      "kernel_owns (km_phys km) f \<longrightarrow> kernel_free pm' = insert f (kernel_free (km_phys km))"
      "\<not> kernel_owns (km_phys km) f \<longrightarrow> kernel_free pm' = kernel_free (km_phys km)"
      "pm_lent pm' = (pm_lent (km_phys km))(pm_pool f := pm_lent (km_phys km) (pm_pool f) - 1)"
      "user_owns pm' = user_owns (km_phys km)" "kernel_owns pm' = kernel_owns (km_phys km)"
    using pm_deallocate_some [OF tree_invD(1) [OF inv] r1] by (elim exE conjE)
  have pm: "pm_deallocate_frame (km_phys km) f = Inr pm'" "pm_inv pm'"
      "user_free pm' = insert f (user_free (km_phys km))"
      "kernel_free pm' \<subseteq> insert f (kernel_free (km_phys km))"
      "kernel_owns (km_phys km) f \<or> kernel_free pm' = kernel_free (km_phys km)"
    using p by (auto split: if_splits)
  have n: "node_from (km\<lparr>km_phys := pm'\<rparr>) root p = node_from km root p" for p
    by (rule node_from_cong) simp
  have "tree_inv (km\<lparr>km_phys := pm'\<rparr>) root"
    unfolding tree_inv_def n
  proof (intro conjI allI impI ballI)
    show "pm_inv (km_phys (km\<lparr>km_phys := pm'\<rparr>))" using pm(2) by simp
    show "p = q" if "table_path p" "table_path q" "node_from km root p = Some t"
        "node_from km root q = Some t" for p q t by (rule tree_invD(2) [OF inv that])
    show "identity_mapped t" if "table_path p" "node_from km root p = Some t" for p t
      by (rule tree_invD(3) [OF inv that])
    show "t \<notin> kernel_free (km_phys (km\<lparr>km_phys := pm'\<rparr>))"
      if p: "table_path p" "node_from km root p = Some t" for p t
      using pm(4) tree_invD(4) [OF inv p] p r by (auto simp: releasable_def)
    show "identity_mapped g" if "g \<in> kernel_free (km_phys (km\<lparr>km_phys := pm'\<rparr>))" for g
      using that pm(4,5) r tree_invD(5) [OF inv, of g] by (auto simp: releasable_def)
  qed
  with p show ?thesis by blast
qed

text \<open>What unmapping keeps: the tables stay where they are and exactly the frames \<open>F\<close> become free.\<close>

definition released :: "kmem \<Rightarrow> frame \<Rightarrow> frame set \<Rightarrow> kmem \<Rightarrow> bool" where
  "released km root F km' \<longleftrightarrow> tree_inv km' root
     \<and> (\<forall>q. table_path q \<longrightarrow> node_from km' root q = node_from km root q)
     \<and> (\<forall>q. table_path q \<longrightarrow> no_huge_on km root q \<longrightarrow> no_huge_on km' root q)
     \<and> user_free (km_phys km') = user_free (km_phys km) \<union> F
     \<and> finite F \<and> F \<inter> user_free (km_phys km) = {}
     \<and> user_owns (km_phys km') = user_owns (km_phys km)
     \<and> kernel_owns (km_phys km') = kernel_owns (km_phys km)
     \<and> (\<forall>c. pm_lent (km_phys km) c = pm_lent (km_phys km') c + card {f \<in> F. pm_pool f = c})
     \<and> km_cr3 km' = km_cr3 km \<and> km_page_lock km' = km_page_lock km \<and> km_tlb km' = km_tlb km"

lemma releasedD:
  assumes "released km root F km'"
  shows "tree_inv km' root" and "table_path q \<Longrightarrow> node_from km' root q = node_from km root q"
    and "table_path q \<Longrightarrow> no_huge_on km root q \<Longrightarrow> no_huge_on km' root q"
    and "user_free (km_phys km') = user_free (km_phys km) \<union> F"
    and "finite F" and "F \<inter> user_free (km_phys km) = {}"
    and "user_owns (km_phys km') = user_owns (km_phys km)"
    and "kernel_owns (km_phys km') = kernel_owns (km_phys km)"
    and "pm_lent (km_phys km) c = pm_lent (km_phys km') c + card {f \<in> F. pm_pool f = c}"
    and "km_cr3 km' = km_cr3 km" and "km_page_lock km' = km_page_lock km" and "km_tlb km' = km_tlb km"
  using assms by (simp_all add: released_def)

lemma released_refl: "tree_inv km root \<Longrightarrow> released km root {} km"
  by (simp add: released_def)

lemma released_trans:
  assumes a: "released km root F km1" and b: "released km1 root G km2"
  shows "released km root (F \<union> G) km2"
  unfolding released_def
proof (intro conjI allI impI)
  have d: "F \<inter> G = {}" and du: "G \<inter> user_free (km_phys km) = {}"
    using releasedD(4,6) [OF a] releasedD(6) [OF b] by auto
  show "pm_lent (km_phys km) c = pm_lent (km_phys km2) c + card {f \<in> F \<union> G. pm_pool f = c}" for c
  proof -
    have "{f \<in> F \<union> G. pm_pool f = c} = {f \<in> F. pm_pool f = c} \<union> {f \<in> G. pm_pool f = c}" by auto
    moreover have "card ({f \<in> F. pm_pool f = c} \<union> {f \<in> G. pm_pool f = c}) =
        card {f \<in> F. pm_pool f = c} + card {f \<in> G. pm_pool f = c}"
      using d releasedD(5) [OF a] releasedD(5) [OF b] by (intro card_Un_disjoint) auto
    ultimately show ?thesis using releasedD(9) [OF a, of c] releasedD(9) [OF b, of c] by simp
  qed
  show "(F \<union> G) \<inter> user_free (km_phys km) = {}" using du releasedD(6) [OF a] by auto
  show "user_free (km_phys km2) = user_free (km_phys km) \<union> (F \<union> G)"
    using releasedD(4) [OF a] releasedD(4) [OF b] by auto
qed (simp_all add: releasedD(1) [OF b] releasedD(2,3,5,7,8,10-12) [OF a] releasedD(2,3,5,7,8,10-12) [OF b])

lemma release_frame_released:
  assumes inv: "tree_inv km root" and r: "releasable km root f"
  shows "\<exists>pm'. pm_deallocate_frame (km_phys km) f = Inr pm' \<and> released km root {f} (km\<lparr>km_phys := pm'\<rparr>)"
proof -
  obtain pm' where pm: "pm_deallocate_frame (km_phys km) f = Inr pm'"
      "user_free pm' = insert f (user_free (km_phys km))" "tree_inv (km\<lparr>km_phys := pm'\<rparr>) root"
      "pm_lent pm' = (pm_lent (km_phys km))(pm_pool f := pm_lent (km_phys km) (pm_pool f) - 1)"
      "user_owns pm' = user_owns (km_phys km)" "kernel_owns pm' = kernel_owns (km_phys km)"
    using release_frame [OF inv r] by (elim exE conjE)
  have n: "node_from (km\<lparr>km_phys := pm'\<rparr>) t q = node_from km t q" for t q by (rule node_from_cong) simp
  have "{g \<in> {f}. pm_pool g = c} = (if pm_pool f = c then {f} else {})" for c by auto
  then have "pm_lent (km_phys km) c = pm_lent pm' c + card {g \<in> {f}. pm_pool g = c}" for c
    using r pm(4) by (simp add: releasable_def)
  then have "released km root {f} (km\<lparr>km_phys := pm'\<rparr>)"
    using pm r unfolding released_def no_huge_on_def n by (simp add: releasable_def)
  with pm(1) show ?thesis by blast
qed

lemma write_leaf_released:
  assumes inv: "tree_inv km root" and t: "node_from km root (page_path page) = Some t"
  shows "released km root {} (write_entry km t (p1_index page) e)"
proof -
  have len: "length (page_path page) = 3" by (simp add: page_path_def)
  show ?thesis
    using write_leaf_tree [OF inv page_path_ok len t] write_leaf_nodes [OF inv page_path_ok len t]
      write_leaf_no_huge [OF inv page_path_ok len t] by (simp add: released_def)
qed

lemma unmap_spec:
  assumes inv: "tree_inv km root" and nh: "no_huge_on km root (page_path page)"
    and f: "free \<Longrightarrow> is_present (lookup km root page) \<Longrightarrow> releasable km root (pte_frame (lookup km root page))"
  shows "\<exists>km'. unmap root page free km = Inr (km', page)
           \<and> released km root (if free \<and> is_present (lookup km root page)
               then {pte_frame (lookup km root page)} else {}) km'
           \<and> (\<forall>a. lookup km' root a = (if vpn a = vpn page then 0 else lookup km root a))"
proof (cases "node_from km root (page_path page)")
  case None
  then have "lookup km root a = 0" if "vpn a = vpn page" for a
    using that same_page_iff [of a page] by (simp add: lookup_def leaf_entry_def)
  moreover have "unmap root page free km = Inr (km, page)"
    using None get_pte_spec [OF inv nh] by (simp add: unmap_def)
  ultimately show ?thesis using released_refl [OF inv] by (auto simp: is_present_bit)
next
  case (Some t)
  let ?e = "lookup km root page"
  have e: "km_tables km t (p1_index page) = ?e" using Some by (simp add: lookup_def leaf_entry_def)
  have g: "get_pte_for_address km root page = Inr (Some (t, p1_index page))"
    using Some get_pte_spec [OF inv nh] by simp
  show ?thesis
  proof (cases "free \<and> is_present ?e")
    case True
    then obtain pm' where pm: "pm_deallocate_frame (km_phys km) (pte_frame ?e) = Inr pm'"
        "released km root {pte_frame ?e} (km\<lparr>km_phys := pm'\<rparr>)" (is "released _ _ _ ?km")
      using f release_frame_released [OF inv] by blast
    have s: "node_from ?km root (page_path page) = Some t" using Some node_from_cong [of ?km km] by simp
    have l: "lookup ?km root a = lookup km root a" for a by (rule lookup_cong) simp
    have "unmap root page free km = Inr (write_entry ?km t (p1_index page) np_unused, page)"
      using True g e pm(1) by (simp add: unmap_def get_entry_def pte_present_def set_entry_eq)
    then show ?thesis
      using True lookup_write [OF releasedD(1) [OF pm(2)] s, of np_unused] l
        released_trans [OF pm(2) write_leaf_released [OF releasedD(1) [OF pm(2)] s]] by (auto simp: np_unused_def)
  next
    case False
    then have "unmap root page free km = Inr (write_entry km t (p1_index page) np_unused, page)"
      using g e by (auto simp: unmap_def get_entry_def pte_present_def set_entry_eq split: if_splits)
    then show ?thesis
      using False lookup_write [OF inv Some, of np_unused] write_leaf_released [OF inv Some]
      by (auto simp: np_unused_def)
  qed
qed

text \<open>
  C27. Unmapping a page never panics and clears its entry and no other; when asked to free, it
  gives the frame of a present entry back to the frame database. The tree stays well formed.
\<close>

theorem unmap_clears_one_page:
  assumes inv: "tree_inv km root" and nh: "no_huge_on km root (page_path page)"
    and f: "free \<Longrightarrow> is_present (lookup km root page) \<Longrightarrow> releasable km root (pte_frame (lookup km root page))"
  shows "\<exists>km'. unmap root page free km = Inr (km', page) \<and> tree_inv km' root
           \<and> (\<forall>a. lookup km' root a = (if vpn a = vpn page then 0 else lookup km root a))
           \<and> user_free (km_phys km') = user_free (km_phys km) \<union>
               (if free \<and> is_present (lookup km root page) then {pte_frame (lookup km root page)} else {})"
proof -
  obtain km' where "unmap root page free km = Inr (km', page)"
      "released km root (if free \<and> is_present (lookup km root page)
         then {pte_frame (lookup km root page)} else {}) km'"
      "\<forall>a. lookup km' root a = (if vpn a = vpn page then 0 else lookup km root a)"
    using unmap_spec [OF inv nh, of free] f by blast
  then show ?thesis using releasedD(1,4) by blast
qed

lemma example_owns: "user_owns example_physmem 256" "pm_lent example_physmem 0 = 1" "pm_pool 256 = 0"
  by (simp_all add: user_owns_def kernel_owns_def example_physmem_def region_owns_def contains_frame_def
      example_region_def pm_lent_def pm_pool_def region_constants)

lemma small_releasable: "releasable small_kmem 300 256"
  by (auto simp: releasable_def example_owns example_physmem_free identity_mapped_def PAGE_SIZE_def
      IDENTITY_MAP_SIZE_def table_path_def small_nodes)

theorem unmap_clears_one_page_witness:
  "tree_inv small_kmem 300 \<and> releasable small_kmem 300 (pte_frame (lookup small_kmem 300 0))
   \<and> (\<exists>km'. unmap 300 0 True small_kmem = Inr (km', 0) \<and> tree_inv km' 300 \<and> lookup km' 300 0 = 0
        \<and> user_free (km_phys km') = {256, 258, 264, 265})"
proof -
  have r: "releasable small_kmem 300 (pte_frame (lookup small_kmem 300 0))"
    using small_releasable by (simp add: small_kmem_ok small_pte_frames)
  from unmap_clears_one_page [OF small_kmem_ok(1,3) r, of True] show ?thesis
    using r small_kmem_ok(1) by (auto simp: small_kmem_ok(5) small_pte_frames example_physmem_free)
qed

text \<open>
  Writing a not-present entry, such as a stack guard page, over a page that is not present
  changes that page's entry only.
\<close>

theorem set_not_present_sets_one_page:
  assumes "tree_inv km root" and "free_zeroed km" and "no_huge_on km root (page_path page)"
    and "3 \<le> card (kernel_free (km_phys km))" and "\<not> is_present (lookup km root page)"
  shows "\<exists>km'. do_set_pte root page e km = Inr (km', Inr page) \<and> tree_inv km' root \<and> free_zeroed km'
           \<and> (\<forall>a. lookup km' root a = (if vpn a = vpn page then e else lookup km root a))"
  using do_set_pte_spec [OF assms] keptD(1,2) by blast

theorem set_not_present_sets_one_page_witness:
  "tree_inv empty_kmem 300 \<and> \<not> is_present (lookup empty_kmem 300 0x5000)
   \<and> (\<exists>km'. do_set_pte 300 0x5000 2 empty_kmem = Inr (km', Inr 0x5000)
        \<and> lookup km' 300 0x5000 = 2 \<and> lookup km' 300 0x6000 = 0)"
proof -
  have "\<not> is_present (lookup empty_kmem 300 0x5000)" by (simp add: empty_kmem_ok(5) is_present_bit)
  moreover have "vpn 0x6000 \<noteq> vpn 0x5000" by (simp add: vpn_def)
  ultimately show ?thesis
    using set_not_present_sets_one_page [OF empty_kmem_ok(1-3), of "0x5000" 2] empty_kmem_ok by auto
qed

text \<open>
  C29. A table created for a missing entry is not zeroed: \<^verbatim>\<open>create_next_table\<close> takes a free
  kernel frame, links it and leaves its 512 entries as the frame's previous use left them,
  so any stale word in it with the present bit set maps a page.
\<close>

theorem create_next_table_keeps_stale_entries:
  assumes inv: "tree_inv km root" and node: "table_path p" "node_from km root p = Some t"
    and i: "i < ENTRY_COUNT" and np: "\<not> is_present (km_tables km t i)"
    and free: "kernel_free (km_phys km) \<noteq> {}"
  shows "\<exists>km' u. create_next_table t i km = Inr (km', Inr u) \<and> u \<in> kernel_free (km_phys km)
           \<and> child km' t i = Some u \<and> km_tables km' u = km_tables km u"
proof -
  from allocate_kernel_some [OF tree_invD(1) [OF inv] free] obtain pm' f where a:
    "allocate_kernel_frame (km_phys km) = Inr (pm', Some f)"
    "took kernel_free kernel_owns (km_phys km) pm' f" by blast
  have ff: "f \<in> kernel_free (km_phys km)" by (rule tookD(1) [OF a(2)])
  have fm: "identity_mapped f" by (rule tree_invD(5) [OF inv ff])
  from table_pte [OF identity_mapped_small [OF fm]] obtain e where e:
    "from_frame_and_flags f (WRITABLE OR USER_ACCESSIBLE) = Inr e" "is_present e" "\<not> is_huge e"
    "pte_frame e = f" by blast
  let ?km = "link km t i e pm'"
  have c: "child ?km t i = Some f" using e by (simp add: child_link)
  have "set_entry t i e (km\<lparr>km_phys := pm'\<rparr>) = Inr ?km" using i by (simp add: set_entry_def link_def)
  then have "create_next_table t i km = Inr (?km, Inr f)"
    using next_table_none [OF i np] np i a(1) e(1) next_table_child(2) [OF i c fm]
    by (simp add: create_next_table_def get_entry_def pte_present_def)
  moreover have "f \<noteq> t" using tree_invD(4) [OF inv node] ff by auto
  then have "km_tables ?km f = km_tables km f" by (simp add: link_def)
  ultimately show ?thesis using c ff by blast
qed

text \<open>The empty address space over free frames that all still hold the word 3 everywhere.\<close>

definition stale_kmem :: kmem where
  "stale_kmem = empty_kmem\<lparr>km_tables := (\<lambda>t i. if t = 300 then 0 else 3)\<rparr>"

lemma stale_kmem_inv: "tree_inv stale_kmem 300"
proof -
  have "child stale_kmem 300 i = None" for i by (simp add: child_def stale_kmem_def is_present_bit)
  then have "node_from stale_kmem 300 p = (if p = [] then Some 300 else None)" for p by (cases p) simp_all
  then show ?thesis
    using example_physmem_inv
    by (auto simp: tree_inv_def example_physmem_free identity_mapped_def PAGE_SIZE_def IDENTITY_MAP_SIZE_def
        stale_kmem_def [THEN arg_cong, of km_phys, simplified] split: if_splits)
qed

theorem create_next_table_keeps_stale_entries_witness:
  "\<exists>km' u. create_next_table 300 0 stale_kmem = Inr (km', Inr u) \<and> child km' 300 0 = Some u
      \<and> is_present (km_tables km' u 9)"
proof -
  have h: "table_path []" "node_from stale_kmem 300 [] = Some 300" "0 < ENTRY_COUNT"
      "\<not> is_present (km_tables stale_kmem 300 0)" "kernel_free (km_phys stale_kmem) \<noteq> {}"
      "300 \<notin> kernel_free (km_phys stale_kmem)"
    by (simp_all add: table_path_def ENTRY_COUNT_def stale_kmem_def is_present_bit example_physmem_free)
  from create_next_table_keeps_stale_entries [OF stale_kmem_inv h(1-5)] obtain km' u where
    a: "create_next_table 300 0 stale_kmem = Inr (km', Inr u)" "u \<in> kernel_free (km_phys stale_kmem)"
      "child km' 300 0 = Some u" "km_tables km' u = km_tables stale_kmem u" by blast
  then have "is_present (km_tables km' u 9)"
    using h(6) by (auto simp: stale_kmem_def is_present_bit)
  with a show ?thesis by blast
qed

end
