(* ===== verification/Region_Mapping.thy ===== *)
theory Region_Mapping
  imports Region_Table Address_Space
begin

text \<open>
  The mapping half of the region manager in \<^verbatim>\<open>src/src/paging/heap_region.rs\<close>: backing an
  address range with fresh frames, with a guard page and a stack, or with given physical
  memory, and taking the mapping down again. Each of these locks the page table, works
  through the pages in order, flushes the TLB and unlocks.
\<close>

section \<open>Operations\<close>

definition check_range :: "usize \<Rightarrow> usize \<Rightarrow> unit res" where
  "check_range base limit =
     bindR (align_up base PAGE_SIZE) (\<lambda>b.
     bindR (guardR (base = b) (Assertion ''base address is not page aligned'')) (\<lambda>_.
     bindR (align_down limit PAGE_SIZE) (\<lambda>l.
     guardR (limit = l) (Assertion ''limit address is not page aligned''))))"

fun unmap_loop :: "frame \<Rightarrow> usize \<Rightarrow> bool \<Rightarrow> nat list \<Rightarrow> bool \<Rightarrow> kmem \<Rightarrow> (kmem \<times> bool) res" where
  "unmap_loop p4 base free_pages [] pending km = Inr (km, pending)"
| "unmap_loop p4 base free_pages (page # pages) pending km =
     bindR (umul page PAGE_SIZE) (\<lambda>off.
     bindR (uadd base off) (\<lambda>page_addr.
     bindR (unmap p4 page_addr free_pages km) (\<lambda>(km', _).
     unmap_loop p4 base free_pages pages (flush_consume pending) km')))"

definition unmap_nonpaged :: "usize \<Rightarrow> usize \<Rightarrow> bool \<Rightarrow> kmem \<Rightarrow> kmem res" where
  "unmap_nonpaged base limit free_pages km =
     bindR (guardR (limit > base) (Assertion ''Invalid range'')) (\<lambda>_.
     bindR (check_range base limit) (\<lambda>_.
     bindR (lock_page_table km) (\<lambda>(km1, p4).
     bindR (usub limit base) (\<lambda>len.
     bindR (unmap_loop p4 base free_pages [0 ..< len div PAGE_SIZE] False km1) (\<lambda>(km2, pending).
     Inr (unlock_page_table (flush_all pending km2)))))))"

definition HEAP_PAGE_FLAGS :: u64 where
  "HEAP_PAGE_FLAGS = WRITABLE OR GLOBAL OR NO_EXECUTE"

fun map_fresh_loop ::
  "frame \<Rightarrow> usize \<Rightarrow> nat list \<Rightarrow> bool \<Rightarrow> kmem \<Rightarrow> (kmem \<times> bool \<times> (memory_error + unit)) res" where
  "map_fresh_loop p4 base [] pending km = Inr (km, pending, Inr ())"
| "map_fresh_loop p4 base (page # pages) pending km =
     bindR (umul page PAGE_SIZE) (\<lambda>off.
     bindR (uadd base off) (\<lambda>page_addr.
     bindR (allocate_user_frame (km_phys km)) (\<lambda>(pm, x). case x of
        None \<Rightarrow> Inr (km\<lparr>km_phys := pm\<rparr>, pending, Inl OutOfMemory)
      | Some f \<Rightarrow>
          bindR (map_to p4 page_addr f HEAP_PAGE_FLAGS (km\<lparr>km_phys := pm\<rparr>)) (\<lambda>(km', r). case r of
             Inl e \<Rightarrow> Inr (km', pending, Inl e)
           | Inr _ \<Rightarrow> map_fresh_loop p4 base pages (flush_consume pending) km'))))"

definition map_nonpaged_impl ::
  "frame \<Rightarrow> bool \<Rightarrow> usize \<Rightarrow> usize \<Rightarrow> usize \<Rightarrow> usize \<Rightarrow> kmem
     \<Rightarrow> (kmem \<times> bool \<times> (memory_error + unit)) res" where
  "map_nonpaged_impl p4 pending base limit unmap_base unmap_limit km =
     bindR (usub limit base) (\<lambda>len.
     bindR (map_fresh_loop p4 base [0 ..< len div PAGE_SIZE] pending km) (\<lambda>(km', pending', r). case r of
        Inl e \<Rightarrow> bindR (unmap_nonpaged unmap_base unmap_limit True km') (\<lambda>km''. Inr (km'', pending', Inl e))
      | Inr _ \<Rightarrow> Inr (km', pending', Inr ())))"

definition map_nonpaged :: "usize \<Rightarrow> usize \<Rightarrow> unit kop" where
  "map_nonpaged base limit km =
     bindR (guardR (limit > base) (Assertion ''Invalid range'')) (\<lambda>_.
     bindR (check_range base limit) (\<lambda>_.
     bindR (lock_page_table km) (\<lambda>(km1, p4).
     bindR (map_nonpaged_impl p4 False base limit base limit km1) (\<lambda>(km2, pending, r).
     Inr (unlock_page_table (flush_all pending km2), r)))))"

definition map_kernel_stack :: "usize \<Rightarrow> usize \<Rightarrow> unit kop" where
  "map_kernel_stack base limit km =
     bindR (uadd base PAGE_SIZE) (\<lambda>above_guard.
     bindR (guardR (limit > above_guard) (Assertion ''Invalid range'')) (\<lambda>_.
     bindR (check_range base limit) (\<lambda>_.
     bindR (lock_page_table km) (\<lambda>(km1, p4).
     bindR guard_page_pte (\<lambda>guard_pte.
     bindR (do_set_pte p4 base guard_pte km1) (\<lambda>(km2, g).
     bindR (case g of
        Inl e \<Rightarrow> Inr (km2, False, Inl e)
      | Inr _ \<Rightarrow> map_nonpaged_impl p4 (flush_consume False) above_guard limit base limit km2) (\<lambda>(km3, pending, r).
     Inr (unlock_page_table (flush_all pending km3), r))))))))"

fun map_phys_loop ::
  "frame \<Rightarrow> physical_mapping \<Rightarrow> usize \<Rightarrow> nat list \<Rightarrow> bool \<Rightarrow> kmem
     \<Rightarrow> (kmem \<times> bool \<times> (memory_error + unit)) res" where
  "map_phys_loop p4 pmap base [] pending km = Inr (km, pending, Inr ())"
| "map_phys_loop p4 pmap base (page # pages) pending km =
     bindR (umul page PAGE_SIZE) (\<lambda>off.
     bindR (uadd base off) (\<lambda>page_addr.
     bindR (uadd (pmap_address pmap) off) (\<lambda>pa.
     bindR (map_to p4 page_addr (containing_address pa) (physical_mapping_page_flags (pmap_flags pmap)) km)
       (\<lambda>(km', r). case r of
          Inl e \<Rightarrow> Inr (km', pending, Inl e)
        | Inr _ \<Rightarrow> map_phys_loop p4 pmap base pages (flush_consume pending) km'))))"

definition map_physical_range :: "physical_mapping \<Rightarrow> usize \<Rightarrow> usize \<Rightarrow> unit kop" where
  "map_physical_range pmap base limit km =
     bindR (guardR (limit > base) (Assertion ''Invalid range'')) (\<lambda>_.
     bindR (check_range base limit) (\<lambda>_.
     bindR (lock_page_table km) (\<lambda>(km1, p4).
     bindR (usub limit base) (\<lambda>len.
     bindR (map_phys_loop p4 pmap base [0 ..< len div PAGE_SIZE] False km1) (\<lambda>(km2, pending, r).
     Inr (unlock_page_table (flush_all pending km2), r))))))"

definition map_region :: "region_map_entry \<Rightarrow> region_kind \<Rightarrow> unit kop" where
  "map_region e kind km =
     bindR (unwrapR UnwrapNone (re_type e)) (\<lambda>t.
     bindR (guardR (t = FreeRegion) (Assertion ''map_region can only be used on free regions'')) (\<lambda>_.
     case kind of
       Heap \<Rightarrow> map_nonpaged (re_base e) (re_limit e) km
     | KernelStack \<Rightarrow> map_kernel_stack (re_base e) (re_limit e) km
     | PhysicalMapping pmap \<Rightarrow> map_physical_range pmap (re_base e) (re_limit e) km
     | FreeRegion \<Rightarrow> Inl (PanicMsg ''Cannot map free region'')))"

definition unmap_region :: "region_map_entry \<Rightarrow> kmem \<Rightarrow> kmem res" where
  "unmap_region e km =
     bindR (unwrapR UnwrapNone (re_type e)) (\<lambda>t.
     bindR (guardR (t \<noteq> FreeRegion) (Assertion ''unmap_region cannot be used on free regions'')) (\<lambda>_.
     case t of
       Heap \<Rightarrow> unmap_nonpaged (re_base e) (re_limit e) True km
     | KernelStack \<Rightarrow> unmap_nonpaged (re_base e) (re_limit e) True km
     | PhysicalMapping _ \<Rightarrow> unmap_nonpaged (re_base e) (re_limit e) False km
     | FreeRegion \<Rightarrow> Inl (PanicMsg ''Cannot unmap free region'')))"

section \<open>Pages of a range\<close>

definition page_va :: "usize \<Rightarrow> nat \<Rightarrow> usize" where
  "page_va base i = base + i * PAGE_SIZE"

definition cr3_frame :: "kmem \<Rightarrow> frame" where
  "cr3_frame km = containing_address (unat (km_cr3 km))"

text \<open>The pages of a range have no entry yet and no huge page is in their way.\<close>

definition unmapped_pages :: "kmem \<Rightarrow> frame \<Rightarrow> usize \<Rightarrow> nat set \<Rightarrow> bool" where
  "unmapped_pages km root base P \<longleftrightarrow>
     (\<forall>i \<in> P. lookup km root (page_va base i) = 0 \<and> no_huge_on km root (page_path (page_va base i)))"

text \<open>The pages \<open>P\<close> of a range lie in the address space and are pairwise distinct pages.\<close>

definition proper_pages :: "usize \<Rightarrow> nat set \<Rightarrow> bool" where
  "proper_pages base P \<longleftrightarrow> inj_on (\<lambda>i. vpn (page_va base i)) P \<and> (\<forall>i \<in> P. page_va base i < usize_limit)"

lemma page_va_ok:
  assumes "page_va base i < usize_limit"
  shows "umul i PAGE_SIZE = Inr (i * PAGE_SIZE)" and "uadd base (i * PAGE_SIZE) = Inr (page_va base i)"
  using assms by (simp_all add: umul_def uadd_def page_va_def)

lemma mod_shift_inj:
  assumes "i < m" and "j < m" and "(b + i) mod m = (b + j) mod (m :: nat)"
  shows "i = j"
proof -
  have "i = j" if "i \<le> j" "j < m" "(b + i) mod m = (b + j) mod (m :: nat)" for i j
  proof -
    have "m dvd (b + j) - (b + i)" using that mod_eq_dvd_iff_nat [of "b + i" "b + j" m] by simp
    then show ?thesis using that(1,2) by (auto dest: dvd_imp_le)
  qed
  from this [of i j] this [of j i] assms show ?thesis by (cases "i \<le> j") simp_all
qed

lemma proper_pages_upto:
  assumes "PAGE_SIZE dvd base" and "base + n * PAGE_SIZE < usize_limit" and "n \<le> 2 ^ 36"
  shows "proper_pages base {..<n}"
proof -
  obtain b where b: "base = PAGE_SIZE * b" using assms(1) by (elim dvdE)
  have v: "vpn (page_va base i) = (b + i) mod 2 ^ 36" for i
    by (simp add: vpn_def page_va_def b PAGE_SIZE_def)
  have "i = j" if "i < n" "j < n" "(b + i) mod 2 ^ 36 = (b + j) mod 2 ^ 36" for i j
    using that assms(3) by (intro mod_shift_inj [of i "2 ^ 36" j b]) simp_all
  moreover have "page_va base i < usize_limit" if "i < n" for i
  proof -
    have "i * PAGE_SIZE \<le> n * PAGE_SIZE" by (rule mult_le_mono1) (use that in simp)
    then show ?thesis using assms(2) unfolding page_va_def by linarith
  qed
  ultimately show ?thesis by (auto simp: proper_pages_def inj_on_def v)
qed

lemma check_range_ok:
  assumes "PAGE_SIZE dvd base" "PAGE_SIZE dvd limit" "base + PAGE_SIZE < usize_limit"
    "limit < usize_limit"
  shows "check_range base limit = Inr ()"
proof -
  have p2: "is_power_of_two PAGE_SIZE" 
    using is_power_of_two_pow [of 12] by (simp add: PAGE_SIZE_def)
  have "base + PAGE_SIZE - 1 - (base + PAGE_SIZE - 1) mod PAGE_SIZE = base"
    using assms(1) by (auto simp: PAGE_SIZE_def elim!: dvdE)
  then have "align_up base PAGE_SIZE = Inr base" using align_up_pow2 [OF p2 assms(3)] by (simp only:)
  moreover have "align_down limit PAGE_SIZE = Inr limit"
    using align_down_pow2 [OF p2 assms(4)] assms(2) by (simp add: PAGE_SIZE_def usize_limit_def)
  ultimately show ?thesis by (simp add: check_range_def)
qed

lemma tree_inv_cong:
  assumes "km_phys km' = km_phys km" and t: "km_tables km' = km_tables km"
  shows "tree_inv km' root = tree_inv km root" and "free_zeroed km' = free_zeroed km"
    and "no_huge_on km' root q = no_huge_on km root q"
proof -
  have n: "node_from km' r p = node_from km r p" for r p by (rule node_from_cong) (rule t)
  show "tree_inv km' root = tree_inv km root" unfolding tree_inv_def n assms(1) ..
  show "free_zeroed km' = free_zeroed km" unfolding free_zeroed_def assms ..
  show "no_huge_on km' root q = no_huge_on km root q" unfolding no_huge_on_def n t ..
qed

lemma lock_ok:
  assumes "tree_inv km (cr3_frame km)" and "\<not> km_page_lock km"
  shows "lock_page_table km = Inr (km\<lparr>km_page_lock := True\<rparr>, cr3_frame km)"
proof -
  have "identity_mapped (cr3_frame km)" using tree_invD(3) [OF assms(1), of "[]"] by (simp add: table_path_def)
  then show ?thesis
    using assms(2) by (simp add: lock_page_table_def mapper_new_def cr3_frame_def table_ref_ok)
qed

section \<open>Backing a range with fresh frames\<close>

definition fresh_pages :: "kmem \<Rightarrow> kmem \<Rightarrow> frame \<Rightarrow> usize \<Rightarrow> nat set \<Rightarrow> bool" where
  "fresh_pages km km' root base P \<longleftrightarrow>
     (\<forall>i \<in> P. is_present (lookup km' root (page_va base i))
        \<and> present_flags (lookup km' root (page_va base i)) = HEAP_PAGE_FLAGS
        \<and> pte_frame (lookup km' root (page_va base i)) \<in> user_free (km_phys km) - user_free (km_phys km')
        \<and> (\<forall>q. table_path q \<longrightarrow> node_from km' root q \<noteq> Some (pte_frame (lookup km' root (page_va base i)))))
     \<and> (\<forall>c. pm_lent (km_phys km) c + card {i \<in> P. pm_pool (pte_frame (lookup km' root (page_va base i))) = c}
          \<le> pm_lent (km_phys km') c)
     \<and> inj_on (\<lambda>i. pte_frame (lookup km' root (page_va base i))) P
     \<and> (\<forall>a. vpn a \<notin> (\<lambda>i. vpn (page_va base i)) ` P \<longrightarrow> lookup km' root a = lookup km root a)"

lemma HEAP_PAGE_FLAGS_valid: "HEAP_PAGE_FLAGS AND NOT present_page_flags = 0"
  by (simp add: HEAP_PAGE_FLAGS_def present_page_flags_mask mask_eq_exp_minus_1 push_bit_eq_mult
      WRITABLE_def GLOBAL_def NO_EXECUTE_def)

lemma kernel_free_user:
  assumes "pm_inv pm"
  shows "kernel_free pm = user_free pm \<inter> {..<NORMAL_REGION_FRAMES}"
proof -
  have "\<not> f < NORMAL_REGION_FRAMES" if "f \<in> im_free (high_region pm)" for f
    using free_pools(3) [OF assms that] by (simp add: pm_pool_def split: if_splits)
  then show ?thesis using kernel_free_mapped [OF assms] by (auto simp: user_free_def)
qed

lemma kernel_free_took:
  assumes "pm_inv pm" and "took user_free user_owns pm pm' f"
  shows "kernel_free pm' = kernel_free pm - {f}"
  using kernel_free_user [OF assms(1)] kernel_free_user [OF tookD(2) [OF assms(2)]] tookD(3) [OF assms(2)] by auto

lemma user_frame_kept:
  assumes inv: "tree_inv km root" and fz: "free_zeroed km"
    and a: "took user_free user_owns (km_phys km) pm f"
  shows "kept km root 1 (km\<lparr>km_phys := pm\<rparr>)"
proof -
  let ?k = "km\<lparr>km_phys := pm\<rparr>"
  have n: "node_from ?k r p = node_from km r p" for r p by (rule node_from_cong) simp
  note kf = kernel_free_took [OF tree_invD(1) [OF inv] a]
  have "tree_inv ?k root"
    using inv tookD(2) [OF a] kf unfolding tree_inv_def n by auto
  moreover have "free_zeroed ?k" using fz kf by (simp add: free_zeroed_def)
  moreover have "card (kernel_free (km_phys km)) \<le> card (kernel_free pm) + 1"
    unfolding kf by (cases "f \<in> kernel_free (km_phys km)") (simp_all add: card_Diff_singleton_if)
  ultimately show ?thesis
    using kf tookD [OF a] unfolding kept_def no_huge_on_def n by auto
qed

lemma card_insert_filter:
  assumes "finite P" and "i \<notin> P"
  shows "card {j \<in> insert i P. Q j} = (if Q i then 1 else 0) + card {j \<in> P. Q j}"
proof -
  have "{j \<in> insert i P. Q j} = (if Q i then insert i {j \<in> P. Q j} else {j \<in> P. Q j})" by auto
  then show ?thesis using assms by simp
qed

text \<open>A user frame is never one of the tables.\<close>

lemma user_frame_no_node:
  assumes inv: "tree_inv km root" and f: "f \<in> user_free (km_phys km)" and p: "table_path p"
  shows "node_from km root p \<noteq> Some f"
proof
  assume n: "node_from km root p = Some f"
  have "\<not> f < NORMAL_REGION_FRAMES"
    using tree_invD(4) [OF inv p n] f kernel_free_user [OF tree_invD(1) [OF inv]] by auto
  moreover have "identity_mapped f" by (rule tree_invD(3) [OF inv p n])
  ultimately show False
    by (simp add: identity_mapped_def region_constants PAGE_SIZE_def IDENTITY_MAP_SIZE_def)
qed

lemma fresh_pages_Cons:
  assumes pp: "proper_pages base (insert i P)" and ni: "i \<notin> P" and fin: "finite P"
    and e: "is_present e" "present_flags e = HEAP_PAGE_FLAGS" "pte_frame e = f"
    and f: "f \<in> user_free (km_phys km)" "f \<notin> user_free (km_phys k)"
    and nn: "\<And>q. table_path q \<Longrightarrow> node_from km' root q \<noteq> Some f"
    and lent: "\<And>c. pm_lent (km_phys km) c + (if pm_pool f = c then 1 else 0) \<le> pm_lent (km_phys k) c"
    and k: "\<And>a. lookup k root a = (if vpn a = vpn (page_va base i) then e else lookup km root a)"
    and sub: "user_free (km_phys k) \<subseteq> user_free (km_phys km)" "user_free (km_phys km') \<subseteq> user_free (km_phys k)"
    and fr: "fresh_pages k km' root base P"
  shows "fresh_pages km km' root base (insert i P)"
proof -
  have dis: "vpn (page_va base i) \<notin> (\<lambda>j. vpn (page_va base j)) ` P"
    using pp ni by (auto simp: proper_pages_def inj_on_def)
  then have i: "lookup km' root (page_va base i) = e" using fr k by (simp add: fresh_pages_def)
  have "f \<notin> (\<lambda>j. pte_frame (lookup km' root (page_va base j))) ` P"
    using fr f(2) by (auto simp: fresh_pages_def)
  moreover have "pm_lent (km_phys km) c
      + card {j \<in> insert i P. pm_pool (pte_frame (lookup km' root (page_va base j))) = c}
      \<le> pm_lent (km_phys km') c" for c
  proof -
    have "pm_lent (km_phys k) c + card {j \<in> P. pm_pool (pte_frame (lookup km' root (page_va base j))) = c}
        \<le> pm_lent (km_phys km') c" using fr unfolding fresh_pages_def by blast
    then show ?thesis
      using lent [of c] unfolding card_insert_filter [OF fin ni] i e(3) by linarith
  qed
  ultimately show ?thesis
    using fr i e f nn sub k ni unfolding fresh_pages_def by auto
qed

lemma map_fresh_loop_spec:
  assumes "tree_inv km root" and "free_zeroed km" and "unmapped_pages km root base (set pages)"
    and "proper_pages base (set pages)" and "distinct pages"
    and "4 * length pages \<le> card (kernel_free (km_phys km))" and "\<forall>f \<in> user_free (km_phys km). f < 2 ^ 40"
  shows "\<exists>km'. map_fresh_loop root base pages pending km = Inr (km', pending \<or> pages \<noteq> [], Inr ())
           \<and> kept km root (4 * length pages) km' \<and> fresh_pages km km' root base (set pages)"
  using assms
proof (induction pages arbitrary: km pending)
  case Nil
  then show ?case by (simp add: kept_refl fresh_pages_def)
next
  case (Cons i pages)
  note inv = Cons.prems(1) and fz = Cons.prems(2)
  have kne: "kernel_free (km_phys km) \<noteq> {}" using Cons.prems(6) by auto
  then have "user_free (km_phys km) \<noteq> {}" by (auto simp: user_free_def)
  from allocate_user_some [OF tree_invD(1) [OF inv] this] obtain pm f where
    a: "allocate_user_frame (km_phys km) = Inr (pm, Some f)" "took user_free user_owns (km_phys km) pm f" by blast
  let ?k0 = "km\<lparr>km_phys := pm\<rparr>" and ?v = "page_va base i"
  note k0 = user_frame_kept [OF inv fz a(2)]
  have l0: "lookup ?k0 root a = lookup km root a" for a by (rule lookup_cong) simp
  have i: "lookup km root ?v = 0" "no_huge_on km root (page_path ?v)" "?v < usize_limit"
    using Cons.prems(3,4) by (simp_all add: unmapped_pages_def proper_pages_def)
  have f40: "f < 2 ^ 40" using Cons.prems(7) tookD(1) [OF a(2)] by blast
  have c3: "3 \<le> card (kernel_free (km_phys ?k0))" using keptD(5) [OF k0] Cons.prems(6) by simp
  obtain k e where m: "map_to root ?v f HEAP_PAGE_FLAGS ?k0 = Inr (k, Inr ?v)" "kept ?k0 root 3 k"
      "is_present e" "pte_frame e = f" "present_flags e = HEAP_PAGE_FLAGS"
      "\<forall>a. lookup k root a = (if vpn a = vpn ?v then e else lookup ?k0 root a)"
    using map_to_spec [OF keptD(1,2) [OF k0] keptD(3) [OF k0 page_path_ok i(2)] c3 _ f40 HEAP_PAGE_FLAGS_valid]
      l0 i(1) by metis
  have k1: "kept km root 4 k" using kept_trans [OF k0 m(2)] by simp
  have lk: "lookup k root a = (if vpn a = vpn ?v then e else lookup km root a)" for a using m(6) l0 by simp
  have ni: "i \<notin> set pages" and dp: "distinct pages" using Cons.prems(5) by simp_all
  have dis: "vpn (page_va base j) \<noteq> vpn ?v" if "j \<in> set pages" for j
    using Cons.prems(4) ni that by (auto simp: proper_pages_def inj_on_def)
  have un: "unmapped_pages k root base (set pages)"
    using Cons.prems(3) dis lk keptD(3) [OF k1 page_path_ok] by (simp add: unmapped_pages_def)
  have pp: "proper_pages base (set pages)" using Cons.prems(4) by (simp add: proper_pages_def)
  have card: "4 * length pages \<le> card (kernel_free (km_phys k))" using keptD(5) [OF k1] Cons.prems(6) by simp
  have uf: "user_free (km_phys k) \<subseteq> user_free (km_phys km)" by (rule keptD(6) [OF k1])
  then have lim: "\<forall>f \<in> user_free (km_phys k). f < 2 ^ 40" using Cons.prems(7) by blast
  from Cons.IH [OF keptD(1,2) [OF k1] un pp dp card lim, of True] obtain km' where
    r: "map_fresh_loop root base pages True k = Inr (km', True, Inr ())"
       "kept k root (4 * length pages) km'" "fresh_pages k km' root base (set pages)" by auto
  have nf: "f \<notin> user_free (km_phys k)" using keptD(6) [OF m(2)] tookD(3) [OF a(2)] by auto
  have ff: "f \<in> user_free (km_phys km)" by (rule tookD(1) [OF a(2)])
  have "f \<notin> kernel_free (km_phys ?k0)" "f \<notin> kernel_free (km_phys k)"
    using tookD(3) [OF a(2)] nf by (auto simp: user_free_def)
  then have nn: "node_from km' root q \<noteq> Some f" if "table_path q" for q
    using keptD(12) [OF r(2) that] keptD(12) [OF m(2) that] node_from_cong [of ?k0 km root q]
      user_frame_no_node [OF inv ff that] by auto
  have lent: "pm_lent (km_phys km) c + (if pm_pool f = c then 1 else 0) \<le> pm_lent (km_phys k) c" for c
    using keptD(8) [OF m(2), of c] tookD(4) [OF a(2)] by (auto split: if_splits)
  from fresh_pages_Cons [OF _ ni finite_set m(3,5,4) ff nf nn lent lk uf keptD(6) [OF r(2)] r(3)]
  have "fresh_pages km km' root base (set (i # pages))" using Cons.prems(4) by simp
  moreover have "map_fresh_loop root base (i # pages) pending km = Inr (km', True, Inr ())"
    using m(1) a(1) r(1) page_va_ok [OF i(3)] by (simp add: flush_consume_def)
  ultimately show ?case using kept_trans [OF k1 r(2)] by simp
qed

section \<open>A locked session on the page table\<close>

text \<open>
  What a whole operation leaves behind: the state is \<^const>\<open>kept\<close> apart from the TLB, which saw
  one full flush if anything changed, and the page lock is free again.
\<close>

definition session :: "kmem \<Rightarrow> frame \<Rightarrow> nat \<Rightarrow> bool \<Rightarrow> kmem \<Rightarrow> bool" where
  "session km root n flushed km' \<longleftrightarrow>
     kept km root n (km'\<lparr>km_page_lock := km_page_lock km, km_tlb := km_tlb km\<rparr>) \<and> \<not> km_page_lock km'
     \<and> km_tlb km' = km_tlb km @ (if flushed then [FlushAll] else [])"

definition same_mem :: "kmem \<Rightarrow> kmem \<Rightarrow> bool" where
  "same_mem km km' \<longleftrightarrow> km_phys km' = km_phys km \<and> km_tables km' = km_tables km \<and> km_cr3 km' = km_cr3 km"

lemma same_mem_simps [simp]:
  "same_mem km (km\<lparr>km_page_lock := b\<rparr>)" "same_mem (km\<lparr>km_page_lock := b\<rparr>) km"
  "same_mem km (km\<lparr>km_page_lock := b, km_tlb := l\<rparr>)"
  "same_mem km (unlock_page_table (flush_all pending km))"
  by (simp_all add: same_mem_def unlock_page_table_def flush_all_def)

lemma same_mem_cong:
  assumes "same_mem km km'"
  shows "tree_inv km' root = tree_inv km root" and "free_zeroed km' = free_zeroed km"
    and "no_huge_on km' root q = no_huge_on km root q" and "lookup km' root a = lookup km root a"
    and "unmapped_pages km' root base P = unmapped_pages km root base P"
    and "cr3_frame km' = cr3_frame km" and "km_phys km' = km_phys km"
    and "node_from km' t p = node_from km t p"
proof -
  have c: "km_phys km' = km_phys km" "km_tables km' = km_tables km" "km_cr3 km' = km_cr3 km"
    using assms by (simp_all only: same_mem_def)
  show "tree_inv km' root = tree_inv km root" "free_zeroed km' = free_zeroed km"
    "no_huge_on km' root q = no_huge_on km root q" by (rule tree_inv_cong [OF c(1,2)])+
  have l: "lookup km' root a = lookup km root a" for a by (rule lookup_cong) (rule c(2))
  then show "lookup km' root a = lookup km root a" .
  show "unmapped_pages km' root base P = unmapped_pages km root base P"
    unfolding unmapped_pages_def l tree_inv_cong(3) [OF c(1,2)] ..
  show "cr3_frame km' = cr3_frame km" unfolding cr3_frame_def c(3) ..
  show "km_phys km' = km_phys km" by (rule c(1))
  show "node_from km' t p = node_from km t p" by (rule node_from_cong) (rule c(2))
qed

lemma fresh_pages_cong:
  assumes "same_mem km k" and "same_mem km' k'"
  shows "fresh_pages k k' root base P = fresh_pages km km' root base P"
  unfolding fresh_pages_def same_mem_cong(4,7,8) [OF assms(1)] same_mem_cong(4,7,8) [OF assms(2)] ..

lemma sessionI:
  assumes k: "kept (km\<lparr>km_page_lock := True\<rparr>) root n k"
  shows "session km root n pending (unlock_page_table (flush_all pending k))"
proof -
  let ?k = "unlock_page_table (flush_all pending k)" and ?km = "km\<lparr>km_page_lock := True\<rparr>"
  let ?kk = "?k\<lparr>km_page_lock := km_page_lock km, km_tlb := km_tlb km\<rparr>"
  have s: "same_mem k ?kk" by (simp add: same_mem_def unlock_page_table_def flush_all_def)
  have s0: "same_mem km ?km" by simp
  have "kept km root n ?kk"
    using k unfolding kept_def same_mem_cong [OF s] same_mem_cong [OF s0]
    by (simp add: unlock_page_table_def flush_all_def)
  then show ?thesis
    using keptD(11) [OF k] by (simp add: session_def unlock_page_table_def flush_all_def)
qed

lemma sessionD:
  assumes "session km root n flushed km'"
  shows "tree_inv km' root" and "free_zeroed km'"
    and "table_path q \<Longrightarrow> no_huge_on km root q \<Longrightarrow> no_huge_on km' root q"
    and "kernel_free (km_phys km') \<subseteq> kernel_free (km_phys km)"
    and "card (kernel_free (km_phys km)) \<le> card (kernel_free (km_phys km')) + n"
    and "user_free (km_phys km') \<subseteq> user_free (km_phys km)"
    and "cr3_frame km' = cr3_frame km" and "\<not> km_page_lock km'"
    and "km_tlb km' = km_tlb km @ (if flushed then [FlushAll] else [])"
    and "user_owns (km_phys km') = user_owns (km_phys km)"
    and "pm_lent (km_phys km) c \<le> pm_lent (km_phys km') c"
proof -
  let ?k = "km'\<lparr>km_page_lock := km_page_lock km, km_tlb := km_tlb km\<rparr>"
  have k: "kept km root n ?k" using assms by (simp add: session_def)
  have s: "same_mem ?k km'" by (simp add: same_mem_def)
  show "tree_inv km' root" "free_zeroed km'" using keptD(1,2) [OF k] same_mem_cong(1,2) [OF s] by simp_all
  show "table_path q \<Longrightarrow> no_huge_on km root q \<Longrightarrow> no_huge_on km' root q"
    using keptD(3) [OF k] same_mem_cong(3) [OF s] by simp
  show "cr3_frame km' = cr3_frame km" using keptD(9) [OF k] by (simp add: cr3_frame_def)
qed (use assms in \<open>simp_all add: session_def kept_def\<close>)

lemma map_nonpaged_impl_ok:
  assumes "limit = base + n * PAGE_SIZE" and "map_fresh_loop p4 base [0 ..< n] pending km = Inr (km', p', Inr ())"
  shows "map_nonpaged_impl p4 pending base limit ub ul km = Inr (km', p', Inr ())"
  using assms by (simp add: map_nonpaged_impl_def usub_def PAGE_SIZE_def)

lemma map_nonpaged_spec:
  assumes inv: "tree_inv km (cr3_frame km)" and fz: "free_zeroed km" and lk: "\<not> km_page_lock km"
    and base: "PAGE_SIZE dvd base" and n: "0 < n" "n \<le> 2 ^ 36" "base + n * PAGE_SIZE < usize_limit"
    and un: "unmapped_pages km (cr3_frame km) base {..<n}"
    and free: "4 * n \<le> card (kernel_free (km_phys km))" and lim: "\<forall>f \<in> user_free (km_phys km). f < 2 ^ 40"
  shows "\<exists>km'. map_nonpaged base (base + n * PAGE_SIZE) km = Inr (km', Inr ())
           \<and> session km (cr3_frame km) (4 * n) True km' \<and> fresh_pages km km' (cr3_frame km) base {..<n}"
proof -
  let ?k = "km\<lparr>km_page_lock := True\<rparr>" and ?r = "cr3_frame km"
  have s: "same_mem km ?k" by simp
  have bl: "PAGE_SIZE \<le> n * PAGE_SIZE" using n(1) by simp
  have "0 < PAGE_SIZE" by (simp add: PAGE_SIZE_def)
  then have gt: "base < base + n * PAGE_SIZE" using bl by linarith
  have bs: "base + PAGE_SIZE < usize_limit" using bl n(3) by linarith
  have "\<exists>k. map_fresh_loop ?r base [0 ..< n] False ?k = Inr (k, False \<or> [0 ..< n] \<noteq> [], Inr ())
          \<and> kept ?k ?r (4 * length [0 ..< n]) k \<and> fresh_pages ?k k ?r base (set [0 ..< n])"
    using inv fz un free lim proper_pages_upto [OF base n(3,2)]
    by (intro map_fresh_loop_spec) (simp_all add: same_mem_cong [OF s] atLeast0LessThan)
  then obtain k where k: "map_fresh_loop ?r base [0 ..< n] False ?k = Inr (k, True, Inr ())"
      "kept ?k ?r (4 * n) k" "fresh_pages ?k k ?r base {..<n}" using n(1) by (auto simp: atLeast0LessThan)
  have "check_range base (base + n * PAGE_SIZE) = Inr ()"
    using base n(3) bs by (intro check_range_ok) simp_all
  then have "map_nonpaged base (base + n * PAGE_SIZE) km = Inr (unlock_page_table (flush_all True k), Inr ())"
    using gt lock_ok [OF inv lk] map_nonpaged_impl_ok [OF refl k(1)] by (simp add: map_nonpaged_def)
  moreover have "fresh_pages km (unlock_page_table (flush_all True k)) ?r base {..<n}"
    using k(3) by (subst fresh_pages_cong [of ?k _ k]) simp_all
  ultimately show ?thesis using sessionI [OF k(2)] by blast
qed

section \<open>Mapping physical memory\<close>

definition phys_pages :: "kmem \<Rightarrow> kmem \<Rightarrow> frame \<Rightarrow> physical_mapping \<Rightarrow> usize \<Rightarrow> nat set \<Rightarrow> bool" where
  "phys_pages km km' root pmap base P \<longleftrightarrow>
     (\<forall>i \<in> P. is_present (lookup km' root (page_va base i))
        \<and> present_flags (lookup km' root (page_va base i)) = physical_mapping_page_flags (pmap_flags pmap)
        \<and> pte_frame (lookup km' root (page_va base i)) = containing_address (pmap_address pmap) + i)
     \<and> (\<forall>a. vpn a \<notin> (\<lambda>i. vpn (page_va base i)) ` P \<longrightarrow> lookup km' root a = lookup km root a)"

lemma physical_mapping_page_flags_valid: "physical_mapping_page_flags fl AND NOT present_page_flags = 0"
  by (simp add: physical_mapping_page_flags_def present_page_flags_mask mask_eq_exp_minus_1 push_bit_eq_mult
      WRITABLE_def GLOBAL_def NO_EXECUTE_def NO_CACHE_def)

lemma containing_address_page:
  assumes "pa + i * PAGE_SIZE < usize_limit"
  shows "containing_address (pa + i * PAGE_SIZE) = containing_address pa + i"
proof -
  have "containing_address (pa + i * PAGE_SIZE) = pa div PAGE_SIZE + i"
    using containing_address_eq [OF assms] by (simp add: PAGE_SIZE_def)
  then show ?thesis using containing_address_eq [of pa] assms by simp
qed

lemma map_phys_loop_spec:
  assumes "tree_inv km root" and "free_zeroed km" and "unmapped_pages km root base (set pages)"
    and "proper_pages base (set pages)" and "distinct pages"
    and "3 * length pages \<le> card (kernel_free (km_phys km))"
    and "\<forall>i \<in> set pages. pmap_address pmap + i * PAGE_SIZE < 2 ^ 52"
  shows "\<exists>km'. map_phys_loop root pmap base pages pending km = Inr (km', pending \<or> pages \<noteq> [], Inr ())
           \<and> kept km root (3 * length pages) km' \<and> phys_pages km km' root pmap base (set pages)"
  using assms
proof (induction pages arbitrary: km pending)
  case Nil
  then show ?case by (simp add: kept_refl phys_pages_def)
next
  case (Cons i pages)
  let ?v = "page_va base i" and ?f = "containing_address (pmap_address pmap) + i"
    and ?fl = "physical_mapping_page_flags (pmap_flags pmap)"
  have i: "lookup km root ?v = 0" "no_huge_on km root (page_path ?v)" "?v < usize_limit"
    using Cons.prems(3,4) by (simp_all add: unmapped_pages_def proper_pages_def)
  have pa: "pmap_address pmap + i * PAGE_SIZE < 2 ^ 52" using Cons.prems(7) by simp
  then have pl: "pmap_address pmap + i * PAGE_SIZE < usize_limit" by (simp add: usize_limit_def)
  have "containing_address (pmap_address pmap + i * PAGE_SIZE) < 2 ^ 40"
    unfolding containing_address_eq [OF pl] using pa by (simp add: PAGE_SIZE_def)
  then have f40: "?f < 2 ^ 40" by (simp only: containing_address_page [OF pl])
  have c3: "3 \<le> card (kernel_free (km_phys km))" using Cons.prems(6) by simp
  obtain k e where m: "map_to root ?v ?f ?fl km = Inr (k, Inr ?v)" "kept km root 3 k"
      "is_present e" "pte_frame e = ?f" "present_flags e = ?fl"
      "\<forall>a. lookup k root a = (if vpn a = vpn ?v then e else lookup km root a)"
    using map_to_spec [OF Cons.prems(1,2) i(2) c3 i(1) f40 physical_mapping_page_flags_valid] by metis
  have ni: "i \<notin> set pages" and dp: "distinct pages" using Cons.prems(5) by simp_all
  have dis: "vpn (page_va base j) \<noteq> vpn ?v" if "j \<in> set pages" for j
    using Cons.prems(4) ni that by (auto simp: proper_pages_def inj_on_def)
  have un: "unmapped_pages k root base (set pages)"
    using Cons.prems(3) dis m(6) keptD(3) [OF m(2) page_path_ok] by (simp add: unmapped_pages_def)
  have pp: "proper_pages base (set pages)" using Cons.prems(4) by (simp add: proper_pages_def)
  have card: "3 * length pages \<le> card (kernel_free (km_phys k))" using keptD(5) [OF m(2)] Cons.prems(6) by simp
  have pas: "\<forall>i \<in> set pages. pmap_address pmap + i * PAGE_SIZE < 2 ^ 52" using Cons.prems(7) by simp
  from Cons.IH [OF keptD(1,2) [OF m(2)] un pp dp card pas, of True] obtain km' where
    r: "map_phys_loop root pmap base pages True k = Inr (km', True, Inr ())"
       "kept k root (3 * length pages) km'" "phys_pages k km' root pmap base (set pages)" by auto
  have "vpn ?v \<notin> (\<lambda>j. vpn (page_va base j)) ` set pages" using dis by force
  then have "lookup km' root ?v = e" using r(3) m(6) by (simp add: phys_pages_def)
  then have "phys_pages km km' root pmap base (set (i # pages))"
    using r(3) m(3-6) unfolding phys_pages_def by auto
  moreover have "uadd (pmap_address pmap) (i * PAGE_SIZE) = Inr (pmap_address pmap + i * PAGE_SIZE)"
    using pl by (simp add: uadd_def)
  then have "map_phys_loop root pmap base (i # pages) pending km = Inr (km', True, Inr ())"
    using m(1) r(1) page_va_ok [OF i(3)] by (simp add: flush_consume_def containing_address_page [OF pl])
  ultimately show ?case using kept_trans [OF m(2) r(2)] by simp
qed

section \<open>Unmapping a range\<close>

abbreviation page_entry :: "kmem \<Rightarrow> frame \<Rightarrow> usize \<Rightarrow> nat \<Rightarrow> raw_pte" where
  "page_entry km root base i \<equiv> lookup km root (page_va base i)"

definition leaf_frames :: "kmem \<Rightarrow> frame \<Rightarrow> usize \<Rightarrow> nat set \<Rightarrow> frame set" where
  "leaf_frames km root base P =
     (\<lambda>i. pte_frame (page_entry km root base i)) ` {i \<in> P. is_present (page_entry km root base i)}"

text \<open>The frames behind the present pages of a range are lent, pairwise distinct and no tables.\<close>

definition can_release :: "kmem \<Rightarrow> frame \<Rightarrow> usize \<Rightarrow> nat set \<Rightarrow> bool" where
  "can_release km root base P \<longleftrightarrow>
     (\<forall>f \<in> leaf_frames km root base P. user_owns (km_phys km) f \<and> f \<notin> user_free (km_phys km)
        \<and> (kernel_owns (km_phys km) f \<longrightarrow> identity_mapped f)
        \<and> (\<forall>q. table_path q \<longrightarrow> node_from km root q \<noteq> Some f))
     \<and> inj_on (\<lambda>i. pte_frame (page_entry km root base i)) {i \<in> P. is_present (page_entry km root base i)}
     \<and> (\<forall>c. card {f \<in> leaf_frames km root base P. pm_pool f = c} \<le> pm_lent (km_phys km) c)"

lemma can_release_first:
  assumes "can_release km root base P" and "finite P" and "i \<in> P" and "is_present (page_entry km root base i)"
  shows "releasable km root (pte_frame (page_entry km root base i))"
proof -
  let ?f = "pte_frame (page_entry km root base i)"
  have f: "?f \<in> leaf_frames km root base P" using assms(3,4) by (auto simp: leaf_frames_def)
  have "finite {g \<in> leaf_frames km root base P. pm_pool g = pm_pool ?f}"
    using assms(2) by (simp add: leaf_frames_def)
  then have "0 < card {g \<in> leaf_frames km root base P. pm_pool g = pm_pool ?f}"
    using f by (auto simp: card_gt_0_iff)
  also have "\<dots> \<le> pm_lent (km_phys km) (pm_pool ?f)" using assms(1) unfolding can_release_def by blast
  finally show ?thesis using assms(1) f by (simp add: can_release_def releasable_def)
qed

lemma leaf_frames_insert:
  "leaf_frames km root base (insert i P) =
     (if is_present (page_entry km root base i) then {pte_frame (page_entry km root base i)} else {})
       \<union> leaf_frames km root base P"
  by (auto simp: leaf_frames_def)

lemma can_release_rest:
  assumes cr: "can_release km root base (insert i P)" and ni: "i \<notin> P" and fin: "finite P"
    and rel: "released km root (if is_present (page_entry km root base i)
                 then {pte_frame (page_entry km root base i)} else {}) k"
    and same: "\<And>j. j \<in> P \<Longrightarrow> page_entry k root base j = page_entry km root base j"
  shows "can_release k root base P" and "leaf_frames k root base P = leaf_frames km root base P"
proof -
  let ?F = "leaf_frames km root base P" and ?e = "page_entry km root base"
  let ?R = "if is_present (?e i) then {pte_frame (?e i)} else {}"
  show l: "leaf_frames k root base P = ?F"
    unfolding leaf_frames_def by (rule image_cong) (auto simp: same)
  have ifr: "leaf_frames km root base (insert i P) = ?R \<union> ?F" by (rule leaf_frames_insert)
  have nf: "?R \<inter> ?F = {}"
    using cr ni by (auto simp: can_release_def leaf_frames_def inj_on_def split: if_splits)
  have "card {f \<in> ?F. pm_pool f = c} \<le> pm_lent (km_phys k) c" for c
  proof -
    have "{f \<in> ?R \<union> ?F. pm_pool f = c} = {f \<in> ?R. pm_pool f = c} \<union> {f \<in> ?F. pm_pool f = c}" by auto
    moreover have "card ({f \<in> ?R. pm_pool f = c} \<union> {f \<in> ?F. pm_pool f = c}) =
        card {f \<in> ?R. pm_pool f = c} + card {f \<in> ?F. pm_pool f = c}"
      using nf fin by (intro card_Un_disjoint) (auto simp: leaf_frames_def)
    moreover have "card {f \<in> ?R \<union> ?F. pm_pool f = c} \<le> pm_lent (km_phys km) c"
      using cr unfolding can_release_def ifr by blast
    ultimately show ?thesis using releasedD(9) [OF rel, of c] by simp
  qed
  moreover have "f \<notin> user_free (km_phys k)" if "f \<in> ?F" for f
    using that cr nf unfolding releasedD(4) [OF rel] can_release_def ifr by blast
  moreover have "inj_on (\<lambda>j. pte_frame (page_entry k root base j)) {j \<in> P. is_present (page_entry k root base j)}"
    using cr by (auto simp: can_release_def inj_on_def same)
  ultimately show "can_release k root base P"
    using cr unfolding can_release_def l ifr releasedD(7,8) [OF rel] by (simp add: releasedD(2) [OF rel])
qed

lemma unmap_loop_spec:
  assumes "tree_inv km root" and "\<forall>i \<in> set pages. no_huge_on km root (page_path (page_va base i))"
    and "proper_pages base (set pages)" and "distinct pages" and "free \<longrightarrow> can_release km root base (set pages)"
  shows "\<exists>km'. unmap_loop root base free pages pending km = Inr (km', pending \<or> pages \<noteq> [])
           \<and> released km root (if free then leaf_frames km root base (set pages) else {}) km'
           \<and> (\<forall>a. lookup km' root a = (if vpn a \<in> (\<lambda>i. vpn (page_va base i)) ` set pages then 0
                 else lookup km root a))"
  using assms
proof (induction pages arbitrary: km pending)
  case Nil
  then show ?case by (simp add: released_refl leaf_frames_def)
next
  case (Cons i pages)
  let ?v = "page_va base i" and ?e = "page_entry km root base i"
  let ?F = "if free \<and> is_present ?e then {pte_frame ?e} else {}"
  have i: "no_huge_on km root (page_path ?v)" "?v < usize_limit" and ni: "i \<notin> set pages"
    using Cons.prems by (simp_all add: proper_pages_def)
  have "releasable km root (pte_frame ?e)" if "free" "is_present ?e"
    using can_release_first [of km root base "set (i # pages)" i] Cons.prems(5) that by simp
  then obtain k where k: "unmap root ?v free km = Inr (k, ?v)" "released km root ?F k"
      "\<forall>a. lookup k root a = (if vpn a = vpn ?v then 0 else lookup km root a)"
    using unmap_spec [OF Cons.prems(1) i(1), of free] by blast
  have same: "page_entry k root base j = page_entry km root base j" if "j \<in> set pages" for j
    using Cons.prems(3) ni that k(3) by (auto simp: proper_pages_def inj_on_def)
  have cr: "free \<longrightarrow> can_release k root base (set pages)"
    and lf: "free \<Longrightarrow> leaf_frames k root base (set pages) = leaf_frames km root base (set pages)"
    using can_release_rest [of km root base i "set pages" k, OF _ ni] Cons.prems(5) k(2) same by auto
  have pp: "proper_pages base (set pages)" using Cons.prems(3) by (simp add: proper_pages_def)
  have nh: "\<forall>i \<in> set pages. no_huge_on k root (page_path (page_va base i))"
    using Cons.prems(2) releasedD(3) [OF k(2) page_path_ok] by simp
  from Cons.IH [OF releasedD(1) [OF k(2)] nh pp _ cr, of True] obtain km' where
    r: "unmap_loop root base free pages True k = Inr (km', True)"
       "released k root (if free then leaf_frames k root base (set pages) else {}) km'"
       "\<forall>a. lookup km' root a = (if vpn a \<in> (\<lambda>i. vpn (page_va base i)) ` set pages then 0
           else lookup k root a)" using Cons.prems(4) by auto
  have "?F \<union> (if free then leaf_frames k root base (set pages) else {}) =
      (if free then leaf_frames km root base (set (i # pages)) else {})"
    using lf leaf_frames_insert [of km root base i "set pages"] by auto
  then have "released km root (if free then leaf_frames km root base (set (i # pages)) else {}) km'"
    using released_trans [OF k(2) r(2)] by simp
  moreover have "unmap_loop root base free (i # pages) pending km = Inr (km', True)"
    using k(1) r(1) page_va_ok [OF i(2)] by (simp add: flush_consume_def)
  ultimately show ?case using r(3) k(3) by auto
qed

lemma range_arith:
  assumes "0 < n" and "base + n * PAGE_SIZE < usize_limit"
  shows "base < base + n * PAGE_SIZE" and "base + PAGE_SIZE < usize_limit"
proof -
  have "PAGE_SIZE \<le> n * PAGE_SIZE" using assms(1) by simp
  moreover have "0 < PAGE_SIZE" by (simp add: PAGE_SIZE_def)
  ultimately show "base < base + n * PAGE_SIZE" "base + PAGE_SIZE < usize_limit" using assms(2) by linarith+
qed

lemma range_ok:
  assumes "PAGE_SIZE dvd base" and "0 < n" and "base + n * PAGE_SIZE < usize_limit"
  shows "check_range base (base + n * PAGE_SIZE) = Inr ()"
  using assms range_arith [OF assms(2,3)] by (intro check_range_ok) simp_all

lemma released_cong:
  assumes "same_mem km k" and "same_mem km' k'" and "released km root F km'"
    and "km_page_lock k' = km_page_lock k" and "km_tlb k' = km_tlb k"
  shows "released k root F k'"
proof -
  have "km_cr3 k' = km_cr3 k" using assms(1-3) by (simp add: same_mem_def released_def)
  then show ?thesis
    using assms(3-5)
    unfolding released_def same_mem_cong [OF assms(1)] same_mem_cong [OF assms(2)] by simp
qed

lemma unmap_nonpaged_spec:
  assumes inv: "tree_inv km (cr3_frame km)" and lk: "\<not> km_page_lock km"
    and base: "PAGE_SIZE dvd base" and n: "0 < n" "n \<le> 2 ^ 36" "base + n * PAGE_SIZE < usize_limit"
    and nh: "\<forall>i < n. no_huge_on km (cr3_frame km) (page_path (page_va base i))"
    and cr: "free \<longrightarrow> can_release km (cr3_frame km) base {..<n}"
  shows "\<exists>km'. unmap_nonpaged base (base + n * PAGE_SIZE) free km = Inr km'
           \<and> released km (cr3_frame km) (if free then leaf_frames km (cr3_frame km) base {..<n} else {})
               (km'\<lparr>km_tlb := km_tlb km\<rparr>)
           \<and> km_tlb km' = km_tlb km @ [FlushAll]
           \<and> (\<forall>a. lookup km' (cr3_frame km) a =
                 (if vpn a \<in> (\<lambda>i. vpn (page_va base i)) ` {..<n} then 0 else lookup km (cr3_frame km) a))"
proof -
  let ?k = "km\<lparr>km_page_lock := True\<rparr>" and ?r = "cr3_frame km"
  let ?F = "if free then leaf_frames km ?r base {..<n} else {}"
  have s: "same_mem km ?k" by simp
  have e: "leaf_frames ?k ?r base P = leaf_frames km ?r base P" for P
    unfolding leaf_frames_def same_mem_cong [OF s] ..
  have up: "set [0 ..< n] = {..<n}" by auto
  have c: "can_release ?k ?r base P = can_release km ?r base P" for P
    unfolding can_release_def e same_mem_cong [OF s] ..
  have "\<exists>k. unmap_loop ?r base free [0 ..< n] False ?k = Inr (k, False \<or> [0 ..< n] \<noteq> [])
          \<and> released ?k ?r (if free then leaf_frames ?k ?r base (set [0 ..< n]) else {}) k
          \<and> (\<forall>a. lookup k ?r a = (if vpn a \<in> (\<lambda>i. vpn (page_va base i)) ` set [0 ..< n] then 0
                else lookup ?k ?r a))"
    using inv nh cr proper_pages_upto [OF base n(3,2)]
    by (intro unmap_loop_spec) (simp_all add: same_mem_cong [OF s] c atLeast0LessThan)
  then obtain k where k: "unmap_loop ?r base free [0 ..< n] False ?k = Inr (k, True)" "released ?k ?r ?F k"
      "\<forall>a. lookup k ?r a = (if vpn a \<in> (\<lambda>i. vpn (page_va base i)) ` {..<n} then 0 else lookup km ?r a)"
    using n(1) unfolding up e same_mem_cong(4) [OF s] by auto
  let ?k' = "unlock_page_table (flush_all True k)"
  have "unmap_nonpaged base (base + n * PAGE_SIZE) free km = Inr ?k'"
    using range_arith(1) [OF n(1,3)] range_ok [OF base n(1,3)] lock_ok [OF inv lk] k(1)
    by (simp add: unmap_nonpaged_def usub_def PAGE_SIZE_def)
  moreover have "released km ?r ?F (?k'\<lparr>km_tlb := km_tlb km\<rparr>)"
    using lk by (intro released_cong [OF _ _ k(2)])
      (simp_all add: same_mem_def unlock_page_table_def flush_all_def)
  moreover have "km_tlb ?k' = km_tlb km @ [FlushAll]"
    using releasedD(12) [OF k(2)] by (simp add: unlock_page_table_def flush_all_def)
  moreover have "lookup ?k' ?r a = lookup k ?r a" for a by (rule same_mem_cong(4)) simp
  ultimately show ?thesis using k(3) by auto
qed

text \<open>Freshly backed pages can be released again.\<close>

lemma kernel_owns_below:
  assumes "pm_inv pm" and "kernel_owns pm f"
  shows "f < NORMAL_REGION_FRAMES"
proof -
  have "pm_pool f = 0 \<or> pm_pool f = 1"
    using assms im_owns_contains by (auto simp: pm_inv_def kernel_owns_def)
  then show ?thesis by (auto simp: pm_pool_def region_constants split: if_splits)
qed

lemma fresh_can_release:
  assumes inv: "tree_inv km root" "tree_inv km' root" and ow: "user_owns (km_phys km') = user_owns (km_phys km)"
    and fr: "fresh_pages km km' root base P"
  shows "can_release km' root base P"
    and "leaf_frames km' root base P = (\<lambda>i. pte_frame (page_entry km' root base i)) ` P"
proof -
  let ?f = "\<lambda>i. pte_frame (page_entry km' root base i)"
  have pr: "{i \<in> P. is_present (page_entry km' root base i)} = P" using fr by (auto simp: fresh_pages_def)
  then show l: "leaf_frames km' root base P = ?f ` P" by (simp add: leaf_frames_def)
  have inj: "inj_on ?f P" using fr by (simp add: fresh_pages_def)
  have "card {f \<in> ?f ` P. pm_pool f = c} \<le> pm_lent (km_phys km') c" for c
  proof -
    have "{f \<in> ?f ` P. pm_pool f = c} = ?f ` {i \<in> P. pm_pool (?f i) = c}" by auto
    moreover have "card (?f ` {i \<in> P. pm_pool (?f i) = c}) = card {i \<in> P. pm_pool (?f i) = c}"
      by (rule card_image) (rule inj_on_subset [OF inj], auto)
    moreover have "pm_lent (km_phys km) c + card {i \<in> P. pm_pool (?f i) = c} \<le> pm_lent (km_phys km') c"
      using fr unfolding fresh_pages_def by blast
    ultimately show ?thesis by simp
  qed
  moreover have "user_owns (km_phys km') f \<and> f \<notin> user_free (km_phys km')
      \<and> (kernel_owns (km_phys km') f \<longrightarrow> identity_mapped f)
      \<and> (\<forall>q. table_path q \<longrightarrow> node_from km' root q \<noteq> Some f)" if "f \<in> ?f ` P" for f
  proof -
    have f: "f \<in> user_free (km_phys km)" "f \<notin> user_free (km_phys km')"
        "\<forall>q. table_path q \<longrightarrow> node_from km' root q \<noteq> Some f"
      using that fr by (auto simp: fresh_pages_def)
    have "identity_mapped f" if "kernel_owns (km_phys km') f"
      using kernel_owns_below [OF tree_invD(1) [OF inv(2)] that] f(1)
        kernel_free_user [OF tree_invD(1) [OF inv(1)]] tree_invD(5) [OF inv(1)] by auto
    with f show ?thesis using user_frames.free_owned [OF tree_invD(1) [OF inv(1)] f(1)] ow by simp
  qed
  ultimately show "can_release km' root base P" using inj unfolding can_release_def pr l by blast
qed

section \<open>Errors while the page table is locked\<close>

lemma create_next_table_lock:
  "create_next_table t i km = Inr (km', r) \<Longrightarrow> km_page_lock km' = km_page_lock km \<and> (\<exists>u. r = Inr u)"
  by (auto simp: create_next_table_def set_entry_def bindR_def guardR_def unwrapR_def
      split: sum.splits option.splits prod.splits if_splits)

lemma create_pte_lock:
  assumes "create_pte_mut_for_address p4 va km = Inr (km', r)"
  shows "km_page_lock km' = km_page_lock km \<and> (\<exists>u. r = Inr u)"
  using assms
  by (auto simp: create_pte_mut_for_address_def bindE_def bindR_def okE_def
      dest!: create_next_table_lock split: sum.splits prod.splits)

lemma map_to_lock:
  assumes "map_to p4 page f flags km = Inr (km', r)"
  shows "km_page_lock km' = km_page_lock km \<and> r = Inr page"
  using assms
  by (auto simp: map_to_def bindE_def bindR_def set_entry_def guardR_def
      dest!: create_pte_lock split: sum.splits prod.splits if_splits)

lemma map_fresh_loop_lock:
  "map_fresh_loop p4 base pages pending km = Inr (km', p', r) \<Longrightarrow> km_page_lock km' = km_page_lock km"
proof (induction pages arbitrary: km pending)
  case (Cons i pages)
  from Cons.prems obtain off va pm x where 1: "umul i PAGE_SIZE = Inr off" "uadd base off = Inr va"
      "allocate_user_frame (km_phys km) = Inr (pm, x)"
    by (auto simp: bindR_def split: sum.splits)
  show ?case
  proof (cases x)
    case None
    with Cons.prems 1 show ?thesis by auto
  next
    case (Some f)
    with Cons.prems 1 obtain k y where 2: "map_to p4 va f HEAP_PAGE_FLAGS (km\<lparr>km_phys := pm\<rparr>) = Inr (k, y)"
      by (auto simp: bindR_def split: sum.splits)
    then have "km_page_lock k = km_page_lock km" "y = Inr va" using map_to_lock by auto
    with Cons.prems 1 2 Some Cons.IH [of _ k] show ?thesis by simp
  qed
qed simp

lemma unmap_nonpaged_locked:
  assumes "km_page_lock km"
  shows "\<exists>p. unmap_nonpaged base limit free km = Inl p"
  using assms by (auto simp: unmap_nonpaged_def bindR_def lock_page_table_def split: sum.splits)

lemma map_nonpaged_impl_never_errs:
  assumes "km_page_lock km" and "map_nonpaged_impl p4 pending base limit ub ul km = Inr (km', p', r)"
  shows "r = Inr ()"
proof -
  obtain len k p1 x where m: "usub limit base = Inr len"
      "map_fresh_loop p4 base [0 ..< len div PAGE_SIZE] pending km = Inr (k, p1, x)"
    using assms(2) by (auto simp: map_nonpaged_impl_def bindR_def split: sum.splits)
  have "km_page_lock k" using map_fresh_loop_lock [OF m(2)] assms(1) by simp
  then obtain p where "unmap_nonpaged ub ul True k = Inl p" using unmap_nonpaged_locked by blast
  with m assms(2) show ?thesis by (cases x) (simp_all add: map_nonpaged_impl_def)
qed

lemma lock_taken: "lock_page_table km = Inr (km', p4) \<Longrightarrow> km_page_lock km'"
  by (auto simp: lock_page_table_def bindR_def split: if_splits sum.splits)

lemma do_set_pte_lock:
  assumes "do_set_pte p4 page e km = Inr (km', r)"
  shows "km_page_lock km' = km_page_lock km \<and> r = Inr page"
  using assms
  by (auto simp: do_set_pte_def bindE_def bindR_def set_entry_def guardR_def
      dest!: create_pte_lock split: sum.splits prod.splits if_splits)

section \<open>A concrete memory\<close>

text \<open>Sixteen free frames and an empty level 4 table in frame 300; and the same without a free frame.\<close>

definition wide_region :: page_frame_region where
  "wide_region = \<lparr>start_frame = 256, limit_frame = 272, free_frames = 16, used_frames = 0,
     bitmask = [255, 255]\<rparr>"

definition full_region :: page_frame_region where
  "full_region = \<lparr>start_frame = 256, limit_frame = 272, free_frames = 0, used_frames = 16,
     bitmask = [0, 0]\<rparr>"

definition wide_kmem :: kmem where
  "wide_kmem = empty_kmem\<lparr>km_phys := \<lparr>low_region = Some wide_region, normal_region = None, high_region = None\<rparr>\<rparr>"

definition full_kmem :: kmem where
  "full_kmem = empty_kmem\<lparr>km_phys := \<lparr>low_region = Some full_region, normal_region = None, high_region = None\<rparr>\<rparr>"

lemma wide_free_bits: "free_bits [255, 255] = {..<16}"
proof -
  have "free_bits [255, 255] = set [0 ..< 16]"
    by (simp add: free_bits_code upt_conv_Cons bit_iff_odd Suc_diff_le)
  then show ?thesis by (simp only: set_upt lessThan_atLeast0)
qed

lemma full_free_bits: "free_bits [0, 0] = {}"
  by (simp add: free_bits_code upt_conv_Cons bit_iff_odd Suc_diff_le)

lemma wide_region_ok: "region_inv wide_region" "free_set wide_region = {256..<272}"
proof -
  show "region_inv wide_region"
    by (simp add: region_inv_def wide_region_def wide_free_bits usize_limit_def)
  have "free_set wide_region = (+) 256 ` {..<16}"
    by (auto simp: free_set_def wide_region_def wide_free_bits)
  then show "free_set wide_region = {256..<272}" by (simp add: lessThan_atLeast0)
qed

lemma full_region_ok: "region_inv full_region" "free_set full_region = {}"
  by (simp_all add: region_inv_def full_region_def full_free_bits usize_limit_def free_set_def)

lemma wide_phys: "pm_inv (km_phys wide_kmem)" "kernel_free (km_phys wide_kmem) = {256..<272}"
  "user_free (km_phys wide_kmem) = {256..<272}"
  using wide_region_ok
  by (auto simp: wide_kmem_def pm_inv_def pm_pool_def region_constants contains_frame_def wide_region_def
      kernel_free_def user_free_def)

lemma full_phys: "pm_inv (km_phys full_kmem)" "kernel_free (km_phys full_kmem) = {}"
  "user_free (km_phys full_kmem) = {}"
  using full_region_ok
  by (auto simp: full_kmem_def pm_inv_def pm_pool_def region_constants contains_frame_def full_region_def
      kernel_free_def user_free_def)

lemma example_cr3 [simp]: "cr3_frame wide_kmem = 300" "cr3_frame full_kmem = 300"
  "\<not> km_page_lock wide_kmem" "\<not> km_page_lock full_kmem"
proof -
  have c: "containing_address (unat (0x12c000 :: u64)) = 300"
    by (subst containing_address_eq) (simp_all add: usize_limit_def PAGE_SIZE_def)
  show "cr3_frame wide_kmem = 300" "cr3_frame full_kmem = 300"
    using c by (simp_all add: cr3_frame_def wide_kmem_def full_kmem_def empty_kmem_def)
qed (simp_all add: wide_kmem_def full_kmem_def empty_kmem_def)

lemma example_tables: "km_tables wide_kmem = km_tables empty_kmem" "km_tables full_kmem = km_tables empty_kmem"
  by (simp_all add: wide_kmem_def full_kmem_def)

lemma example_nodes: "node_from wide_kmem t p = (if p = [] then Some t else None)"
  "node_from full_kmem t p = (if p = [] then Some t else None)"
  using node_from_cong [OF example_tables(1), of t p] node_from_cong [OF example_tables(2), of t p]
  by (simp_all add: empty_nodes)

lemma example_ok:
  "tree_inv wide_kmem 300" "tree_inv full_kmem 300" "free_zeroed wide_kmem" "lookup wide_kmem 300 a = 0"
  "no_huge_on wide_kmem 300 q"
proof -
  show "tree_inv wide_kmem 300" "tree_inv full_kmem 300"
    using wide_phys full_phys
    by (auto simp: tree_inv_def example_nodes identity_mapped_def PAGE_SIZE_def IDENTITY_MAP_SIZE_def
        split: if_splits)
  show "free_zeroed wide_kmem" unfolding free_zeroed_def example_tables by simp
  show "lookup wide_kmem 300 a = 0" using lookup_cong [OF example_tables(1)] by (simp add: empty_kmem_ok)
  show "no_huge_on wide_kmem 300 q" unfolding no_huge_on_def example_tables by (simp add: is_present_bit)
qed

section \<open>Stacks and physical ranges\<close>

lemma page_va_shift: "page_va (base + PAGE_SIZE) i = page_va base (Suc i)"
  by (simp add: page_va_def)

lemma page_va_0 [simp]: "page_va base 0 = base"
  by (simp add: page_va_def)

lemma map_kernel_stack_spec:
  assumes inv: "tree_inv km (cr3_frame km)" and fz: "free_zeroed km" and lk: "\<not> km_page_lock km"
    and base: "PAGE_SIZE dvd base" and n: "0 < n" "n < 2 ^ 36" "base + Suc n * PAGE_SIZE < usize_limit"
    and un: "unmapped_pages km (cr3_frame km) base {..n}"
    and free: "4 * n + 3 \<le> card (kernel_free (km_phys km))" and lim: "\<forall>f \<in> user_free (km_phys km). f < 2 ^ 40"
  shows "\<exists>km' k. map_kernel_stack base (base + Suc n * PAGE_SIZE) km = Inr (km', Inr ())
           \<and> session km (cr3_frame km) (4 * n + 3) True km' \<and> page_entry km' (cr3_frame km) base 0 = 2
           \<and> user_free (km_phys k) \<subseteq> user_free (km_phys km)
           \<and> (\<forall>c. pm_lent (km_phys km) c \<le> pm_lent (km_phys k) c)
           \<and> (\<forall>a. vpn a \<noteq> vpn base \<longrightarrow> lookup k (cr3_frame km) a = lookup km (cr3_frame km) a)
           \<and> fresh_pages k km' (cr3_frame km) (base + PAGE_SIZE) {..<n}"
proof -
  let ?k = "km\<lparr>km_page_lock := True\<rparr>" and ?r = "cr3_frame km" and ?above = "base + PAGE_SIZE"
  have s: "same_mem km ?k" by simp
  have pp: "proper_pages base {..<Suc n}" using proper_pages_upto [OF base n(3)] n(2) by simp
  have ab: "PAGE_SIZE dvd ?above" "?above + n * PAGE_SIZE < usize_limit" using base n(3) by simp_all
  have pa: "proper_pages ?above {..<n}" using proper_pages_upto [OF ab] n(2) by simp
  have b0: "lookup km ?r base = 0" "no_huge_on km ?r (page_path base)"
    using un unmapped_pages_def [of km ?r base "{..n}"] by (auto dest: bspec [of _ _ 0])
  obtain k where g: "do_set_pte ?r base 2 ?k = Inr (k, Inr base)" "kept ?k ?r 3 k"
      "\<forall>a. lookup k ?r a = (if vpn a = vpn base then 2 else lookup km ?r a)"
    using do_set_pte_spec [of ?k ?r base 2] inv fz b0 free
    unfolding same_mem_cong [OF s] by (auto simp: is_present_bit)
  have dis: "vpn (page_va ?above i) \<noteq> vpn base" if "i < n" for i
    using pp that unfolding page_va_shift proper_pages_def inj_on_def
    by (metis (no_types, lifting) Suc_less_eq lessThan_iff nat.distinct(1) page_va_0 zero_less_Suc)
  have un': "unmapped_pages k ?r ?above (set [0 ..< n])"
    using un dis g(3) keptD(3) [OF g(2) page_path_ok] unfolding unmapped_pages_def same_mem_cong [OF s]
    by (auto simp: page_va_shift)
  have card: "4 * length [0 ..< n] \<le> card (kernel_free (km_phys k))" using keptD(5) [OF g(2)] free by simp
  have uk: "user_free (km_phys k) \<subseteq> user_free (km_phys km)" using keptD(6) [OF g(2)] by simp
  have "\<exists>k2. map_fresh_loop ?r ?above [0 ..< n] True k = Inr (k2, True \<or> [0 ..< n] \<noteq> [], Inr ())
          \<and> kept k ?r (4 * length [0 ..< n]) k2 \<and> fresh_pages k k2 ?r ?above (set [0 ..< n])"
    using keptD(1,2) [OF g(2)] un' card uk lim pa
    by (intro map_fresh_loop_spec) (auto simp: atLeast0LessThan)
  then obtain k2 where k2: "map_fresh_loop ?r ?above [0 ..< n] True k = Inr (k2, True, Inr ())"
      "kept k ?r (4 * n) k2" "fresh_pages k k2 ?r ?above {..<n}" by (auto simp: atLeast0LessThan)
  let ?k2 = "unlock_page_table (flush_all True k2)"
  have lim2: "base + Suc n * PAGE_SIZE = ?above + n * PAGE_SIZE" by simp
  have "map_nonpaged_impl ?r True ?above (base + Suc n * PAGE_SIZE) base (base + Suc n * PAGE_SIZE) k
      = Inr (k2, True, Inr ())"
    by (rule map_nonpaged_impl_ok [OF lim2 k2(1)])
  moreover have "?above < base + Suc n * PAGE_SIZE" using range_arith(1) [OF n(1) ab(2)] by simp
  moreover have "uadd base PAGE_SIZE = Inr ?above" using ab(2) by (simp add: uadd_def)
  ultimately have "map_kernel_stack base (base + Suc n * PAGE_SIZE) km = Inr (?k2, Inr ())"
    using range_ok [OF base zero_less_Suc n(3)] lock_ok [OF inv lk] g(1)
    unfolding map_kernel_stack_def guard_page_pte_eq by (simp add: flush_consume_def del: mult_Suc)
  moreover have "session km ?r (4 * n + 3) True ?k2"
    using sessionI [OF kept_trans [OF g(2) k2(2)], of True] by (simp add: add.commute)
  moreover have "vpn base \<notin> (\<lambda>i. vpn (page_va ?above i)) ` {..<n}" using dis by force
  then have "lookup k2 ?r base = 2" using k2(3) g(3) by (simp add: fresh_pages_def)
  then have "page_entry ?k2 ?r base 0 = 2" by (simp add: same_mem_cong(4) [of k2])
  moreover have "fresh_pages k ?k2 ?r ?above {..<n}"
    using k2(3) by (subst fresh_pages_cong [of k _ k2]) (simp_all add: same_mem_def [of k k])
  moreover have "pm_lent (km_phys km) c \<le> pm_lent (km_phys k) c" for c using keptD(8) [OF g(2), of c] by simp
  ultimately show ?thesis using uk g(3) by (intro exI [of _ ?k2] exI [of _ k]) simp
qed

lemma map_physical_range_spec:
  assumes inv: "tree_inv km (cr3_frame km)" and fz: "free_zeroed km" and lk: "\<not> km_page_lock km"
    and base: "PAGE_SIZE dvd base" and n: "0 < n" "n \<le> 2 ^ 36" "base + n * PAGE_SIZE < usize_limit"
    and un: "unmapped_pages km (cr3_frame km) base {..<n}"
    and free: "3 * n \<le> card (kernel_free (km_phys km))"
    and pa: "pmap_address pmap + n * PAGE_SIZE \<le> 2 ^ 52"
  shows "\<exists>km'. map_physical_range pmap base (base + n * PAGE_SIZE) km = Inr (km', Inr ())
           \<and> session km (cr3_frame km) (3 * n) True km' \<and> phys_pages km km' (cr3_frame km) pmap base {..<n}"
proof -
  let ?k = "km\<lparr>km_page_lock := True\<rparr>" and ?r = "cr3_frame km"
  have s: "same_mem km ?k" by simp
  have up: "set [0 ..< n] = {..<n}" by auto
  have "pmap_address pmap + i * PAGE_SIZE < 2 ^ 52" if "i < n" for i
  proof -
    have "i * PAGE_SIZE < n * PAGE_SIZE" using that by (intro mult_strict_right_mono) (simp_all add: PAGE_SIZE_def)
    then show ?thesis using pa by linarith
  qed
  then have "\<exists>k. map_phys_loop ?r pmap base [0 ..< n] False ?k = Inr (k, False \<or> [0 ..< n] \<noteq> [], Inr ())
          \<and> kept ?k ?r (3 * length [0 ..< n]) k \<and> phys_pages ?k k ?r pmap base (set [0 ..< n])"
    using inv fz un free proper_pages_upto [OF base n(3,2)]
    by (intro map_phys_loop_spec) (simp_all add: same_mem_cong [OF s] atLeast0LessThan)
  then obtain k where k: "map_phys_loop ?r pmap base [0 ..< n] False ?k = Inr (k, True, Inr ())"
      "kept ?k ?r (3 * n) k" "phys_pages ?k k ?r pmap base {..<n}" using n(1) unfolding up by auto
  let ?k' = "unlock_page_table (flush_all True k)"
  have "map_physical_range pmap base (base + n * PAGE_SIZE) km = Inr (?k', Inr ())"
    using range_arith(1) [OF n(1,3)] range_ok [OF base n(1,3)] lock_ok [OF inv lk] k(1)
    by (simp add: map_physical_range_def usub_def PAGE_SIZE_def)
  moreover have "lookup ?k' ?r a = lookup k ?r a" for a by (rule same_mem_cong(4)) simp
  then have "phys_pages km ?k' ?r pmap base {..<n}"
    using k(3) unfolding phys_pages_def same_mem_cong(4) [OF s] by simp
  ultimately show ?thesis using sessionI [OF k(2)] by blast
qed

section \<open>Properties\<close>

text \<open>
  Neither a heap mapping nor a stack mapping can report an error to its caller: running
  out of memory half way calls \<^verbatim>\<open>unmap_nonpaged\<close>, which takes the page table lock that the
  caller still holds. The operation either succeeds or does not return.
\<close>

theorem mapping_errors_never_returned:
  "map_nonpaged base limit km \<noteq> Inr (km', Inl e) \<and> map_kernel_stack base limit km \<noteq> Inr (km', Inl e)"
proof
  show "map_nonpaged base limit km \<noteq> Inr (km', Inl e)"
  proof
    assume a: "map_nonpaged base limit km = Inr (km', Inl e)"
    then obtain k p4 k2 p where "lock_page_table km = Inr (k, p4)"
        "map_nonpaged_impl p4 False base limit base limit k = Inr (k2, p, Inl e)"
      by (auto simp: map_nonpaged_def bindR_def split: sum.splits)
    then show False using map_nonpaged_impl_never_errs [OF lock_taken] by blast
  qed
  show "map_kernel_stack base limit km \<noteq> Inr (km', Inl e)"
  proof
    assume a: "map_kernel_stack base limit km = Inr (km', Inl e)"
    then obtain k p4 k1 r where l: "lock_page_table km = Inr (k, p4)" "do_set_pte p4 base 2 k = Inr (k1, r)"
      by (auto simp: map_kernel_stack_def bindR_def guard_page_pte_eq split: sum.splits)
    then have k1: "km_page_lock k1" "r = Inr base" using do_set_pte_lock [OF l(2)] lock_taken by auto
    from a l k1 obtain k2 p ag where "map_nonpaged_impl p4 True ag limit base limit k1 = Inr (k2, p, Inl e)"
      by (auto simp: map_kernel_stack_def bindR_def guard_page_pte_eq flush_consume_def split: sum.splits)
    then show False using map_nonpaged_impl_never_errs [OF k1(1)] by blast
  qed
qed

text \<open>
  Backing a page-aligned range with memory succeeds when its pages are unused and enough
  frames are free: every page of the range becomes present, writable, global and
  non-executable, on a frame of its own that was free before and is not free afterwards; no
  page outside the range changes, the TLB is flushed once and the lock is released.
\<close>

theorem map_nonpaged_backs_range:
  assumes "tree_inv km (cr3_frame km)" and "free_zeroed km" and "\<not> km_page_lock km"
    and "PAGE_SIZE dvd base" and "0 < n" and "n \<le> 2 ^ 36" and "base + n * PAGE_SIZE < usize_limit"
    and "unmapped_pages km (cr3_frame km) base {..<n}"
    and "4 * n \<le> card (kernel_free (km_phys km))" and "\<forall>f \<in> user_free (km_phys km). f < 2 ^ 40"
  shows "\<exists>km'. map_nonpaged base (base + n * PAGE_SIZE) km = Inr (km', Inr ())
     \<and> tree_inv km' (cr3_frame km) \<and> \<not> km_page_lock km' \<and> km_tlb km' = km_tlb km @ [FlushAll]
     \<and> (\<forall>i < n. is_present (page_entry km' (cr3_frame km) base i)
          \<and> present_flags (page_entry km' (cr3_frame km) base i) = WRITABLE OR GLOBAL OR NO_EXECUTE
          \<and> pte_frame (page_entry km' (cr3_frame km) base i) \<in> user_free (km_phys km) - user_free (km_phys km'))
     \<and> inj_on (\<lambda>i. pte_frame (page_entry km' (cr3_frame km) base i)) {..<n}
     \<and> (\<forall>a. (\<forall>i < n. vpn a \<noteq> vpn (page_va base i)) \<longrightarrow> lookup km' (cr3_frame km) a = lookup km (cr3_frame km) a)"
proof -
  obtain km' where m: "map_nonpaged base (base + n * PAGE_SIZE) km = Inr (km', Inr ())"
      "session km (cr3_frame km) (4 * n) True km'" "fresh_pages km km' (cr3_frame km) base {..<n}"
    using map_nonpaged_spec [OF assms] by blast
  with sessionD(1,8,9) [OF m(2)] show ?thesis by (auto simp: fresh_pages_def HEAP_PAGE_FLAGS_def)
qed

lemma wide_unmapped: "unmapped_pages wide_kmem 300 base P"
  by (simp add: unmapped_pages_def example_ok)

theorem map_nonpaged_backs_range_witness:
  "\<exists>km'. map_nonpaged 0xffff900000000000 (0xffff900000000000 + 4 * PAGE_SIZE) wide_kmem = Inr (km', Inr ())
     \<and> (\<forall>i < 4. is_present (page_entry km' 300 0xffff900000000000 i))"
proof -
  have "PAGE_SIZE dvd 0xffff900000000000" "0xffff900000000000 + 4 * PAGE_SIZE < usize_limit"
    by (simp_all add: PAGE_SIZE_def usize_limit_def)
  with map_nonpaged_backs_range [of wide_kmem "0xffff900000000000" 4] wide_phys example_ok(1,3)
    wide_unmapped [of "0xffff900000000000" "{..<4}"] show ?thesis by auto
qed

text \<open>
  C38. Unmapping a range that was just backed restores every page table entry and gives all
  the frames behind it back; only frames used for page tables stay in use.
\<close>

theorem map_unmap_roundtrip:
  assumes inv: "tree_inv km (cr3_frame km)" and fz: "free_zeroed km" and lk: "\<not> km_page_lock km"
    and base: "PAGE_SIZE dvd base" and n: "0 < n" "n \<le> 2 ^ 36" "base + n * PAGE_SIZE < usize_limit"
    and un: "unmapped_pages km (cr3_frame km) base {..<n}"
    and free: "4 * n \<le> card (kernel_free (km_phys km))" and lim: "\<forall>f \<in> user_free (km_phys km). f < 2 ^ 40"
  shows "\<exists>km1 km2. map_nonpaged base (base + n * PAGE_SIZE) km = Inr (km1, Inr ())
     \<and> unmap_nonpaged base (base + n * PAGE_SIZE) True km1 = Inr km2
     \<and> tree_inv km2 (cr3_frame km) \<and> (\<forall>a. lookup km2 (cr3_frame km) a = lookup km (cr3_frame km) a)
     \<and> user_free (km_phys km2) \<subseteq> user_free (km_phys km)
     \<and> card (user_free (km_phys km2)) = card (user_free (km_phys km1)) + n"
proof -
  let ?r = "cr3_frame km" and ?V = "(\<lambda>i. vpn (page_va base i)) ` {..<n}"
  obtain km1 where m: "map_nonpaged base (base + n * PAGE_SIZE) km = Inr (km1, Inr ())"
      "session km ?r (4 * n) True km1" "fresh_pages km km1 ?r base {..<n}"
    using map_nonpaged_spec [OF assms] by blast
  note s = sessionD [OF m(2)] and cr = fresh_can_release [OF inv sessionD(1,10) [OF m(2)] m(3)]
  let ?F = "(\<lambda>i. pte_frame (page_entry km1 ?r base i)) ` {..<n}"
  have "\<forall>i < n. no_huge_on km1 ?r (page_path (page_va base i))"
    using un s(3) by (simp add: unmapped_pages_def)
  then obtain km2 where u: "unmap_nonpaged base (base + n * PAGE_SIZE) True km1 = Inr km2"
      "released km1 ?r ?F (km2\<lparr>km_tlb := km_tlb km1\<rparr>)"
      "\<forall>a. lookup km2 ?r a = (if vpn a \<in> ?V then 0 else lookup km1 ?r a)"
    using unmap_nonpaged_spec [of km1 base n True] s(1,7,8) base n cr by auto
  have "lookup km2 ?r a = lookup km ?r a" for a
  proof (cases "vpn a \<in> ?V")
    case True
    then obtain i where i: "i < n" "vpn a = vpn (page_va base i)" by auto
    have "lookup km ?r a = lookup km ?r (page_va base i)"
      using same_page_iff [of a "page_va base i"] i(2) by (simp add: lookup_def)
    then show ?thesis using True u(3) un i(1) by (simp add: unmapped_pages_def)
  next
    case False
    then show ?thesis using u(3) m(3) by (simp add: fresh_pages_def)
  qed
  moreover have "tree_inv km2 ?r"
    using releasedD(1) [OF u(2)] same_mem_cong(1) [of "km2\<lparr>km_tlb := km_tlb km1\<rparr>" km2]
    by (simp add: same_mem_def)
  moreover have uf: "user_free (km_phys km2) = user_free (km_phys km1) \<union> ?F"
    using releasedD(4) [OF u(2)] by simp
  moreover have "?F \<subseteq> user_free (km_phys km)" "card ?F = n"
    using m(3) by (auto simp: fresh_pages_def card_image)
  moreover have "card (user_free (km_phys km1) \<union> ?F) = card (user_free (km_phys km1)) + card ?F"
    using releasedD(6) [OF u(2)] user_frames.free_finite [OF tree_invD(1) [OF s(1)]]
    by (intro card_Un_disjoint) auto
  ultimately show ?thesis using m(1) u(1) s(6) by auto
qed

theorem map_unmap_roundtrip_witness:
  "\<exists>km1 km2. map_nonpaged 0xffff900000000000 (0xffff900000000000 + 4 * PAGE_SIZE) wide_kmem = Inr (km1, Inr ())
     \<and> unmap_nonpaged 0xffff900000000000 (0xffff900000000000 + 4 * PAGE_SIZE) True km1 = Inr km2
     \<and> lookup km2 300 0xffff900000001000 = 0"
proof -
  have "PAGE_SIZE dvd 0xffff900000000000" "0xffff900000000000 + 4 * PAGE_SIZE < usize_limit"
    by (simp_all add: PAGE_SIZE_def usize_limit_def)
  with map_unmap_roundtrip [of wide_kmem "0xffff900000000000" 4] wide_phys example_ok(1,3,4)
    wide_unmapped [of "0xffff900000000000" "{..<4}"] show ?thesis by auto
qed



text \<open>
  Mapping a kernel stack leaves its lowest page as a guard: the entry of that page is the
  not-present guard entry, and every page above it is present on a frame of its own.
\<close>

theorem map_kernel_stack_guards:
  assumes "tree_inv km (cr3_frame km)" and "free_zeroed km" and "\<not> km_page_lock km"
    and "PAGE_SIZE dvd base" and "0 < n" and "n < 2 ^ 36" and "base + Suc n * PAGE_SIZE < usize_limit"
    and "unmapped_pages km (cr3_frame km) base {..n}"
    and "4 * n + 3 \<le> card (kernel_free (km_phys km))" and "\<forall>f \<in> user_free (km_phys km). f < 2 ^ 40"
  shows "\<exists>km'. map_kernel_stack base (base + Suc n * PAGE_SIZE) km = Inr (km', Inr ())
     \<and> tree_inv km' (cr3_frame km) \<and> \<not> km_page_lock km'
     \<and> guard_page_pte = Inr (page_entry km' (cr3_frame km) base 0)
     \<and> \<not> is_present (page_entry km' (cr3_frame km) base 0)
     \<and> (\<forall>i \<in> {1..n}. is_present (page_entry km' (cr3_frame km) base i)
          \<and> pte_frame (page_entry km' (cr3_frame km) base i) \<in> user_free (km_phys km) - user_free (km_phys km'))
     \<and> inj_on (\<lambda>i. pte_frame (page_entry km' (cr3_frame km) base i)) {1..n}
     \<and> (\<forall>a. (\<forall>i \<le> n. vpn a \<noteq> vpn (page_va base i)) \<longrightarrow> lookup km' (cr3_frame km) a = lookup km (cr3_frame km) a)"
proof -
  let ?r = "cr3_frame km" and ?above = "base + PAGE_SIZE"
  obtain km' k where m: "map_kernel_stack base (base + Suc n * PAGE_SIZE) km = Inr (km', Inr ())"
      "session km ?r (4 * n + 3) True km'" "page_entry km' ?r base 0 = 2"
      "user_free (km_phys k) \<subseteq> user_free (km_phys km)"
      "\<forall>a. vpn a \<noteq> vpn base \<longrightarrow> lookup k ?r a = lookup km ?r a" "fresh_pages k km' ?r ?above {..<n}"
    using map_kernel_stack_spec [OF assms] by (elim exE conjE)
  have im: "{1..n} = Suc ` {..<n}" by (simp add: image_Suc_lessThan)
  have "inj_on (\<lambda>i. pte_frame (page_entry km' ?r base i)) {1..n}"
    using m(6) unfolding im fresh_pages_def page_va_shift by (auto simp: inj_on_def)
  moreover have "\<forall>i \<in> {1..n}. is_present (page_entry km' ?r base i)
      \<and> pte_frame (page_entry km' ?r base i) \<in> user_free (km_phys km) - user_free (km_phys km')"
    using m(4,6) unfolding im fresh_pages_def page_va_shift by auto
  moreover have "lookup km' ?r a = lookup km ?r a" if a: "\<forall>i \<le> n. vpn a \<noteq> vpn (page_va base i)" for a
  proof -
    have "vpn a \<noteq> vpn base" using a [rule_format, of 0] by simp
    moreover have "vpn a \<notin> (\<lambda>i. vpn (page_va ?above i)) ` {..<n}" 
    proof
      assume "vpn a \<in> (\<lambda>i. vpn (page_va ?above i)) ` {..<n}"
      then obtain i where "i < n" "vpn a = vpn (page_va base (Suc i))" unfolding page_va_shift by blast
      with a [rule_format, of "Suc i"] show False by simp
    qed
    ultimately show ?thesis using m(5,6) by (simp add: fresh_pages_def)
  qed
  moreover have "\<not> is_present 2" by (simp add: is_present_bit)
  ultimately show ?thesis
    using m(1,3) sessionD(1,8) [OF m(2)] unfolding guard_page_pte_eq by (intro exI [of _ km'] conjI) auto
qed

theorem map_kernel_stack_guards_witness:
  "\<exists>km'. map_kernel_stack 0xffff900000000000 (0xffff900000000000 + Suc 3 * PAGE_SIZE) wide_kmem = Inr (km', Inr ())
     \<and> \<not> is_present (page_entry km' 300 0xffff900000000000 0)
     \<and> is_present (page_entry km' 300 0xffff900000000000 3)"
proof -
  have "PAGE_SIZE dvd 0xffff900000000000" "0xffff900000000000 + Suc 3 * PAGE_SIZE < usize_limit"
    by (simp_all add: PAGE_SIZE_def usize_limit_def)
  with map_kernel_stack_guards [of wide_kmem "0xffff900000000000" 3] wide_phys example_ok(1,3)
    wide_unmapped [of "0xffff900000000000" "{..3}"] show ?thesis by auto
qed

end
