(* ===== verification/Region_Manager.thy ===== *)
theory Region_Manager
  imports Region_Mapping Init_Mutex
begin

text \<open>
  The region manager of \<^verbatim>\<open>src/src/paging/heap_region.rs\<close> as a whole, over the region table of
  \<^verbatim>\<open>Region_Table\<close> and the mapping operations of \<^verbatim>\<open>Region_Mapping\<close>: allocating a range, giving it
  back with its free neighbours merged, the \<^verbatim>\<open>Region\<close> handle and the \<^verbatim>\<open>KernelStack\<close> built on it
  (\<^verbatim>\<open>src/src/paging/kernel_stack.rs\<close>).
\<close>

section \<open>Region handles\<close>

record region =
  reg_info :: region_info
  reg_offset :: usize
  reg_length :: usize

definition region_handle_new :: "region_info \<Rightarrow> region res" where
  "region_handle_new info =
     bindR (info_size info) (\<lambda>s. Inr \<lparr>reg_info = info, reg_offset = 0, reg_length = s\<rparr>)"

definition apply_offset :: "region \<Rightarrow> usize \<Rightarrow> usize \<Rightarrow> region res" where
  "apply_offset r offset len =
     bindR (uadd offset len) (\<lambda>e.
     bindR (guardR (e \<le> reg_length r) (Assertion ''offset + length <= md.size()'')) (\<lambda>_.
     bindR (uadd (reg_offset r) offset) (\<lambda>off.
     Inr \<lparr>reg_info = reg_info r, reg_offset = off, reg_length = len\<rparr>)))"

definition region_start :: "region \<Rightarrow> usize res" where
  "region_start r = uadd (ri_start (reg_info r)) (reg_offset r)"

definition region_limit :: "region \<Rightarrow> usize res" where
  "region_limit r = bindR (region_start r) (\<lambda>s. uadd s (reg_length r))"

definition as_ptr_offset :: "region \<Rightarrow> usize \<Rightarrow> usize res" where
  "as_ptr_offset r offset = bindR (region_start r) (\<lambda>s. uadd s offset)"

definition as_ptr :: "region \<Rightarrow> usize res" where
  "as_ptr r = as_ptr_offset r 0"

record kernel_stack =
  stack_region :: region

definition kernel_stack_new :: "region \<Rightarrow> kernel_stack" where
  "kernel_stack_new r = \<lparr>stack_region = r\<rparr>"

definition stack_top :: "kernel_stack \<Rightarrow> usize res" where
  "stack_top s = region_limit (stack_region s)"

section \<open>Allocation\<close>

text \<open>The closure that \<^verbatim>\<open>allocate_region\<close> hands to \<^verbatim>\<open>allocate_first_fit\<close>.\<close>

definition region_closure :: "usize \<Rightarrow> region_kind \<Rightarrow> region_mapper" where
  "region_closure required kind e km =
     bindR (entry_size e) (\<lambda>s.
     bindR (guardR (s = required) (Assertion ''allocate_first_fit returned wrong size region'')) (\<lambda>_.
     bindR (unwrapR UnwrapNone (re_type e)) (\<lambda>t.
     bindR (guardR (t = FreeRegion) (Assertion ''allocate_first_fit returned incorrect region type'')) (\<lambda>_.
     bindR (map_region e kind km) (\<lambda>(km', r). case r of
        Inl err \<Rightarrow> Inr (km', Inl err)
      | Inr _ \<Rightarrow> Inr (km', Inr kind))))))"

definition manager_allocate_region ::
  "region_layout \<Rightarrow> nat \<Rightarrow> region_kind \<Rightarrow> region_map_page list \<Rightarrow> kmem
     \<Rightarrow> (kmem \<times> region_map_page list \<times> (memory_error + region)) res" where
  "manager_allocate_region rl pages kind ps km =
     bindR (umul pages PAGE_SIZE) (\<lambda>required.
     bindR (allocate_first_fit rl ps required (region_closure required kind) km) (\<lambda>(km', ps', r). case r of
        Inl e \<Rightarrow> Inr (km', ps', Inl e)
      | Inr info \<Rightarrow> bindR (region_handle_new info) (\<lambda>h. Inr (km', ps', Inr h))))"

section \<open>Deallocation\<close>

text \<open>
  The search for the entry to free. The flag says that the entry found is not the region
  itself but the free entry just below it.
\<close>

fun find_drop :: "region_map_entry list \<Rightarrow> nat \<Rightarrow> usize \<Rightarrow> (nat \<times> bool) option res" where
  "find_drop [] j start = Inr None"
| "find_drop (e # es) j start =
     bindR (guardR (re_base e \<le> start) (Assertion ''Attempting to free invalid region'')) (\<lambda>_.
     bindR (guardR (re_type e \<noteq> None) (Assertion ''Attempting to free invalid region'')) (\<lambda>_.
     if re_limit e = start \<and> re_type e = Some FreeRegion then Inr (Some (j, True))
     else if re_base e = start then Inr (Some (j, False))
     else find_drop es (Suc j) start))"

text \<open>The entry after entry \<open>j\<close> of a page, and its removal from the table.\<close>

definition entry_after :: "region_map_page \<Rightarrow> region_map_page list \<Rightarrow> nat \<Rightarrow> region_map_entry option" where
  "entry_after p ps j =
     (if j + 1 < length (rp_entries p) then Some (rp_entries p ! (j + 1))
      else case ps of [] \<Rightarrow> None | q # _ \<Rightarrow> Some (rp_entries q ! 0))"

definition remove_after ::
  "region_map_page \<Rightarrow> region_map_page list \<Rightarrow> nat \<Rightarrow> kmem
     \<Rightarrow> (kmem \<times> region_map_page \<times> region_map_page list) res" where
  "remove_after p ps j km =
     (if j + 1 < length (rp_entries p)
      then bindR (shuffle_entries_down (p # ps) (j + 1) (km_phys km)) (\<lambda>(ps', pm).
           case ps' of [] \<Rightarrow> Inl UnwrapNone | p' # ps'' \<Rightarrow> Inr (km\<lparr>km_phys := pm\<rparr>, p', ps''))
      else bindR (shuffle_entries_down ps 0 (km_phys km)) (\<lambda>(ps', pm).
           Inr (km\<lparr>km_phys := pm\<rparr>, p, ps')))"

definition absorb_lead ::
  "region_map_page \<Rightarrow> region_map_page list \<Rightarrow> nat \<Rightarrow> kmem
     \<Rightarrow> (kmem \<times> region_map_page \<times> region_map_page list \<times> usize) res" where
  "absorb_lead p ps j km =
     bindR (entry_size (rp_entries p ! j)) (\<lambda>lead_bytes.
     bindR (unwrapR UnwrapNone (entry_after p ps j)) (\<lambda>e.
     bindR (remove_after (p\<lparr>rp_entries := (rp_entries p)[j := e]\<rparr>) ps j km) (\<lambda>(km', p', ps').
     Inr (km', p', ps', lead_bytes))))"

definition absorb_tail ::
  "region_map_page \<Rightarrow> region_map_page list \<Rightarrow> nat \<Rightarrow> kmem
     \<Rightarrow> (kmem \<times> region_map_page \<times> region_map_page list \<times> usize) res" where
  "absorb_tail p ps j km =
     (case entry_after p ps j of
        None \<Rightarrow> Inr (km, p, ps, 0)
      | Some e \<Rightarrow>
          if re_type e = Some FreeRegion
          then bindR (entry_size e) (\<lambda>tail_bytes.
               bindR (remove_after p ps j km) (\<lambda>(km', p', ps'). Inr (km', p', ps', tail_bytes)))
          else Inr (km, p, ps, 0))"

definition drop_entry ::
  "region_map_page \<Rightarrow> region_map_page list \<Rightarrow> nat \<Rightarrow> usize \<Rightarrow> region_info \<Rightarrow> kmem
     \<Rightarrow> (kmem \<times> region_map_page list) res" where
  "drop_entry p ps j lead_bytes info km =
     (let e = rp_entries p ! j in
     bindR (unwrapR UnwrapNone (re_type e)) (\<lambda>t.
     bindR (guardR (t \<noteq> FreeRegion) (Assertion ''Attempting to free invalid region'')) (\<lambda>_.
     bindR (guardR (re_limit e = ri_limit info) (Assertion ''Attempting to free invalid region'')) (\<lambda>_.
     bindR (unmap_region e km) (\<lambda>km1.
     bindR (absorb_tail p ps j km1) (\<lambda>(km2, p', ps', tail_bytes).
     let e' = rp_entries p' ! j in
     bindR (usub (re_base e') lead_bytes) (\<lambda>b.
     bindR (uadd (re_limit e') tail_bytes) (\<lambda>l.
     Inr (km2, p'\<lparr>rp_entries := (rp_entries p')[j := \<lparr>re_base = b, re_limit = l, re_type = Some FreeRegion\<rparr>]\<rparr>
            # ps')))))))))"

fun deallocate_recurse_thing ::
  "region_map_page list \<Rightarrow> region_info \<Rightarrow> kmem \<Rightarrow> (kmem \<times> region_map_page list) res" where
  "deallocate_recurse_thing [] info km = Inl (Assertion ''Attempting to free an invalid region'')"
| "deallocate_recurse_thing (p # ps) info km =
     bindR (find_drop (rp_entries p) 0 (ri_start info)) (\<lambda>x. case x of
        None \<Rightarrow>
          bindR (deallocate_recurse_thing ps info km) (\<lambda>(km', ps'). Inr (km', p # ps'))
      | Some (j, lead) \<Rightarrow>
          bindR (if lead then absorb_lead p ps j km else Inr (km, p, ps, 0)) (\<lambda>(km', p', ps', lead_bytes).
          drop_entry p' ps' j lead_bytes info km'))"

definition manager_deallocate_region ::
  "region_info \<Rightarrow> region_map_page list \<Rightarrow> kmem \<Rightarrow> (kmem \<times> region_map_page list) res" where
  "manager_deallocate_region info ps km = deallocate_recurse_thing ps info km"

section \<open>The global manager\<close>

record kstate =
  ks_mem :: kmem
  ks_regions :: "region_map_page list init_mutex"

type_synonym 'a ksop = "(kstate, memory_error, 'a) op"

definition heap_init :: "region_layout \<Rightarrow> usize \<Rightarrow> usize \<Rightarrow> kstate \<Rightarrow> kstate" where
  "heap_init rl base limit ks = ks\<lparr>ks_regions := mutex_init (ks_regions ks) (manager_new rl base limit)\<rparr>"

definition locked_allocate :: "region_layout \<Rightarrow> nat \<Rightarrow> region_kind \<Rightarrow> region ksop" where
  "locked_allocate rl pages kind ks =
     bindR (with_lock (ks_regions ks) (\<lambda>ps.
       bindR (manager_allocate_region rl pages kind ps (ks_mem ks)) (\<lambda>(km, ps', r). Inr (ps', km, r))))
       (\<lambda>(m, km, r). Inr (\<lparr>ks_mem = km, ks_regions = m\<rparr>, r))"

definition allocate_region :: "region_layout \<Rightarrow> nat \<Rightarrow> region ksop" where
  "allocate_region rl pages = locked_allocate rl pages Heap"

definition allocate_kernel_stack :: "region_layout \<Rightarrow> nat \<Rightarrow> kernel_stack ksop" where
  "allocate_kernel_stack rl pages =
     bindE (locked_allocate rl pages KernelStack) (\<lambda>r. okE (kernel_stack_new r))"

definition map_physical_memory :: "region_layout \<Rightarrow> usize \<Rightarrow> usize \<Rightarrow> u64 \<Rightarrow> region ksop" where
  "map_physical_memory rl pa nbytes flags =
     bindE (liftE (align_down pa PAGE_SIZE)) (\<lambda>aligned_start.
     bindE (liftE (bindR (uadd pa nbytes) (\<lambda>e. align_up e PAGE_SIZE))) (\<lambda>aligned_limit.
     bindE (liftE (usub aligned_limit aligned_start)) (\<lambda>len.
     bindE (liftE (usub pa aligned_start)) (\<lambda>offset.
     bindE (locked_allocate rl (len div PAGE_SIZE)
              (PhysicalMapping \<lparr>pmap_address = aligned_start, pmap_flags = flags\<rparr>)) (\<lambda>r.
     liftE (apply_offset r offset nbytes))))))"

definition region_drop :: "region \<Rightarrow> kstate \<Rightarrow> kstate res" where
  "region_drop r ks =
     bindR (with_lock (ks_regions ks) (\<lambda>ps.
       bindR (manager_deallocate_region (reg_info r) ps (ks_mem ks)) (\<lambda>(km, ps'). Inr (ps', km))))
       (\<lambda>(m, km). Inr \<lparr>ks_mem = km, ks_regions = m\<rparr>)"

section \<open>Finding and removing entries\<close>

declare shuffle_entries_down.simps [simp del]

lemma table_rep_nth:
  assumes "table_rep rl (p # ps) us" and "j < length us" and "j < rl_entries rl"
  shows "rp_entries p ! j = us ! j"
proof -
  obtain k where "rp_entries p @ concat (map rp_entries ps) = us @ replicate k empty_entry"
      "length (rp_entries p) = rl_entries rl" using assms(1) by (auto simp: table_rep_def)
  then have "(rp_entries p @ concat (map rp_entries ps)) ! j = (us @ replicate k empty_entry) ! j"
    "j < length (rp_entries p)" using assms(3) by simp_all
  then show ?thesis using assms(2) by (simp add: nth_append)
qed

lemma dropped_page_append:
  assumes "ps \<noteq> []" and "dropped_page ps ps' pm pm'"
  shows "dropped_page (qs @ ps) (qs @ ps') pm pm'"
  using assms by (auto simp: dropped_page_def butlast_append)

lemma entry_after_rep:
  assumes wf: "layout_wf rl" and rep: "table_rep rl (p # ps) (as @ v # bs)" and j: "length as < rl_entries rl"
  shows "bs \<noteq> [] \<Longrightarrow> entry_after p ps (length as) = Some (hd bs)"
    and "bs = [] \<Longrightarrow> entry_after p ps (length as) = None \<or>
         (\<exists>e. entry_after p ps (length as) = Some e \<and> re_type e = None)"
proof -
  have len: "length (rp_entries p) = rl_entries rl" using rep by (simp add: table_rep_def)
  have in_page: "rp_entries p ! Suc (length as) = (if bs = [] then empty_entry else hd bs)"
    if "Suc (length as) < rl_entries rl"
  proof -
    obtain k where k: "rp_entries p @ concat (map rp_entries ps) = (as @ v # bs) @ replicate k empty_entry"
      using rep by (auto simp: table_rep_def)
    have "length (rp_entries p) \<le> length (as @ v # bs) + k" using arg_cong [OF k, of length] by simp
    then have "bs = [] \<Longrightarrow> 0 < k" using that len by simp
    moreover have "rp_entries p ! Suc (length as) = (as @ v # bs @ replicate k empty_entry) ! Suc (length as)"
      using arg_cong [OF k, of "\<lambda>l. l ! Suc (length as)"] that len by (simp add: nth_append)
    ultimately show ?thesis by (auto simp: nth_append hd_conv_nth split: if_splits)
  qed
  have next_page: "ps \<noteq> [] \<Longrightarrow> Suc (length as) = rl_entries rl \<Longrightarrow> table_rep rl ps bs"
  proof -
    assume ps: "ps \<noteq> []" and n: "Suc (length as) = rl_entries rl"
    then obtain us' where "as @ v # bs = rp_entries p @ us'" "table_rep rl ps us'"
      using rep by (auto simp: table_rep_Cons)
    moreover have "length (as @ [v]) = length (rp_entries p)" using n len by simp
    ultimately show ?thesis using append_eq_append_conv [of "as @ [v]" "rp_entries p" bs us'] by auto
  qed
  have single: "bs = []" if last: "ps = []" "Suc (length as) = rl_entries rl"
  proof -
    obtain k where "rp_entries p = (as @ v # bs) @ replicate k empty_entry"
      using rep last(1) by (auto simp: table_rep_single)
    from arg_cong [OF this, of length] show ?thesis using len last(2) by simp
  qed
  note tf = table_rep_first [OF wf]
  have cs: "Suc (length as) < rl_entries rl \<or> Suc (length as) = rl_entries rl" using j by auto
  show "bs \<noteq> [] \<Longrightarrow> entry_after p ps (length as) = Some (hd bs)"
    using cs in_page next_page single len tf(3) by (auto simp: entry_after_def split: list.splits)
  show "bs = [] \<Longrightarrow> entry_after p ps (length as) = None \<or>
         (\<exists>e. entry_after p ps (length as) = Some e \<and> re_type e = None)"
    using cs in_page next_page len tf(2) by (auto simp: entry_after_def split: list.splits)
qed

lemma remove_after_rep:
  assumes wf: "layout_wf rl" and rep: "table_rep rl (p # ps) (as @ v # w # bs)" and j: "length as < rl_entries rl"
    and rel: "ps \<noteq> [] \<Longrightarrow> \<exists>pm'. release_page (last (p # ps)) (km_phys km) = Inr pm'"
  shows "\<exists>pm' p' ps'. remove_after p ps (length as) km = Inr (km\<lparr>km_phys := pm'\<rparr>, p', ps')
     \<and> table_rep rl (p' # ps') (as @ v # bs) \<and> dropped_page (p # ps) (p' # ps') (km_phys km) pm'"
proof (cases "Suc (length as) < rl_entries rl")
  case True
  have len: "length (rp_entries p) = rl_entries rl" using rep by (simp add: table_rep_def)
  obtain qs pm' where q: "shuffle_entries_down (p # ps) (Suc (length as)) (km_phys km) = Inr (qs, pm')"
      "table_rep rl qs (take (Suc (length as)) (as @ v # w # bs) @ drop (Suc (Suc (length as))) (as @ v # w # bs))"
      "dropped_page (p # ps) qs (km_phys km) pm'"
    using shuffle_down_spec [OF wf rep, of "Suc (length as)" "km_phys km"] True rel by (cases "ps = []") auto
  obtain p' ps' where qs: "qs = p' # ps'" using q(2) by (cases qs) (auto simp: table_rep_def)
  then have "remove_after p ps (length as) km = Inr (km\<lparr>km_phys := pm'\<rparr>, p', ps')"
    using q(1) True len by (simp add: remove_after_def)
  then show ?thesis using q(2,3) qs by auto
next
  case False
  then have n: "Suc (length as) = rl_entries rl" using j by simp
  have ps: "ps \<noteq> []" using rep n by (auto simp: table_rep_single)
  obtain us' where u: "as @ v # w # bs = rp_entries p @ us'" "table_rep rl ps us'"
      "length (rp_entries p) = rl_entries rl" "typed (rp_entries p)"
    using rep ps by (auto simp: table_rep_Cons)
  have "length (as @ [v]) = length (rp_entries p)" using n u(3) by simp
  then have e: "rp_entries p = as @ [v]" "us' = w # bs"
    using append_eq_append_conv [of "as @ [v]" "rp_entries p" "w # bs" us'] u(1) by auto
  obtain qs pm' where q: "shuffle_entries_down ps 0 (km_phys km) = Inr (qs, pm')" "table_rep rl qs bs"
      "dropped_page ps qs (km_phys km) pm'"
    using shuffle_down_spec [OF wf u(2), of 0 "km_phys km"] e(2) rel [OF ps] ps wf
    by (auto simp: layout_wf_def)
  have "table_rep rl (p # qs) (as @ v # bs)"
    using q(2) u(3,4) e(1) by (subst table_rep_Cons) (auto simp: table_rep_def)
  moreover have "remove_after p ps (length as) km = Inr (km\<lparr>km_phys := pm'\<rparr>, p, qs)"
    using q(1) n u(3) by (simp add: remove_after_def)
  moreover have "dropped_page (p # ps) (p # qs) (km_phys km) pm'"
    using dropped_page_append [OF ps q(3), of "[p]"] by simp
  ultimately show ?thesis by blast
qed

text \<open>The entries that the search passes over, and the ones it stops at.\<close>

definition passed :: "usize \<Rightarrow> region_map_entry \<Rightarrow> bool" where
  "passed start e \<longleftrightarrow> re_type e \<noteq> None \<and> re_base e < start \<and> \<not> (re_limit e = start \<and> re_type e = Some FreeRegion)"

definition stops :: "usize \<Rightarrow> bool \<Rightarrow> region_map_entry \<Rightarrow> bool" where
  "stops start lead e \<longleftrightarrow> re_type e \<noteq> None \<and> re_base e \<le> start
     \<and> (if lead then re_limit e = start \<and> re_type e = Some FreeRegion
        else re_base e = start \<and> \<not> (re_limit e = start \<and> re_type e = Some FreeRegion))"

lemma find_drop_passed:
  "\<forall>x \<in> set xs. passed start x \<Longrightarrow> find_drop (xs @ es) j start = find_drop es (j + length xs) start"
  by (induction xs arbitrary: j) (auto simp: passed_def)

lemma find_drop_stops:
  assumes "\<forall>x \<in> set xs. passed start x" and "stops start lead e"
  shows "find_drop (xs @ e # es) 0 start = Inr (Some (length xs, lead))"
  using find_drop_passed [OF assms(1), of "e # es" 0] assms(2) by (auto simp: stops_def split: if_splits)

lemma table_locate:
  assumes "table_rep rl ps (xs @ u # ys)"
  shows "\<exists>ps1 p ps2 xs2 es. ps = ps1 @ p # ps2 \<and> table_rep rl (p # ps2) (xs2 @ u # ys)
     \<and> xs = concat (map rp_entries ps1) @ xs2 \<and> length xs2 < rl_entries rl \<and> rp_entries p = xs2 @ u # es
     \<and> (\<forall>p \<in> set ps1. length (rp_entries p) = rl_entries rl \<and> typed (rp_entries p))"
  using assms
proof (induction ps arbitrary: xs)
  case Nil
  then show ?case by (simp add: table_rep_def)
next
  case (Cons p ps)
  show ?case
  proof (cases "length xs < rl_entries rl")
    case True
    obtain es where "rp_entries p = xs @ u # es"
    proof (cases "ps = []")
      case True
      then show ?thesis using Cons.prems that by (auto simp: table_rep_single)
    next
      case False
      then obtain us' where "xs @ u # ys = rp_entries p @ us'" "length (rp_entries p) = rl_entries rl"
        using Cons.prems by (auto simp: table_rep_Cons)
      then have "rp_entries p = take (rl_entries rl) (xs @ u # ys)" by simp
      then show ?thesis using True that by (simp add: take_Cons')
    qed
    then show ?thesis
      using True Cons.prems by (intro exI [of _ "[]"] exI [of _ p] exI [of _ ps] exI [of _ xs] exI [of _ es]) simp
  next
    case False
    have len: "length (rp_entries p) = rl_entries rl" using Cons.prems by (simp add: table_rep_def)
    have ps: "ps \<noteq> []" using Cons.prems False len by (auto simp: table_rep_single)
    obtain us' where u: "xs @ u # ys = rp_entries p @ us'" "table_rep rl ps us'" "typed (rp_entries p)"
      using Cons.prems ps by (auto simp: table_rep_Cons)
    define xs' where "xs' = drop (rl_entries rl) xs"
    have "take (rl_entries rl) (xs @ u # ys) = rp_entries p" "drop (rl_entries rl) (xs @ u # ys) = us'"
      unfolding u(1) using len by simp_all
    then have x: "xs = rp_entries p @ xs'" "us' = xs' @ u # ys"
      using False append_take_drop_id [of "rl_entries rl" xs] by (simp_all add: xs'_def)
    obtain ps1 q ps2 xs2 es where "ps = ps1 @ q # ps2" "table_rep rl (q # ps2) (xs2 @ u # ys)"
        "xs' = concat (map rp_entries ps1) @ xs2" "length xs2 < rl_entries rl" "rp_entries q = xs2 @ u # es"
        "\<forall>p \<in> set ps1. length (rp_entries p) = rl_entries rl \<and> typed (rp_entries p)"
      using Cons.IH [of xs'] u(2) x(2) by blast
    then show ?thesis
      using x(1) len u(3)
      by (intro exI [of _ "p # ps1"] exI [of _ q] exI [of _ ps2] exI [of _ xs2] exI [of _ es]) auto
  qed
qed

lemma deallocate_passed:
  "\<forall>x \<in> set (concat (map rp_entries ps1)). passed (ri_start info) x \<Longrightarrow>
   deallocate_recurse_thing (ps1 @ qs) info km =
     bindR (deallocate_recurse_thing qs info km) (\<lambda>(km', ps'). Inr (km', ps1 @ ps'))"
proof (induction ps1)
  case Nil
  show ?case by (cases "deallocate_recurse_thing qs info km") auto
next
  case (Cons p ps1)
  have "find_drop (rp_entries p) 0 (ri_start info) = Inr None"
    using find_drop_passed [of "rp_entries p" "ri_start info" "[]" 0] Cons.prems by auto
  moreover have "deallocate_recurse_thing (ps1 @ qs) info km =
     bindR (deallocate_recurse_thing qs info km) (\<lambda>(km', ps'). Inr (km', ps1 @ ps'))"
    using Cons by simp
  ultimately show ?case by (cases "deallocate_recurse_thing qs info km") auto
qed

section \<open>Frames on loan\<close>

text \<open>
  A set of frames that the kernel holds and may give back: lent by the frame database, none of
  them a page table.
\<close>

definition lendable :: "kmem \<Rightarrow> frame \<Rightarrow> frame set \<Rightarrow> bool" where
  "lendable km root F \<longleftrightarrow> finite F
     \<and> (\<forall>f \<in> F. user_owns (km_phys km) f \<and> f \<notin> user_free (km_phys km)
          \<and> (kernel_owns (km_phys km) f \<longrightarrow> identity_mapped f)
          \<and> (\<forall>q. table_path q \<longrightarrow> node_from km root q \<noteq> Some f))
     \<and> (\<forall>c. card {f \<in> F. pm_pool f = c} \<le> pm_lent (km_phys km) c)"

lemma lendable_releasable:
  assumes "lendable km root F" and "f \<in> F"
  shows "releasable km root f"
proof -
  have "finite {g \<in> F. pm_pool g = pm_pool f}" using assms(1) by (simp add: lendable_def)
  then have "0 < card {g \<in> F. pm_pool g = pm_pool f}" using assms(2) by (auto simp: card_gt_0_iff)
  also have "\<dots> \<le> pm_lent (km_phys km) (pm_pool f)" using assms(1) unfolding lendable_def by blast
  finally show ?thesis using assms by (simp add: lendable_def releasable_def)
qed

lemma lendable_subset:
  assumes "lendable km root F" and "G \<subseteq> F"
  shows "lendable km root G"
proof -
  have "card {f \<in> G. pm_pool f = c} \<le> pm_lent (km_phys km) c" for c
  proof -
    have "card {f \<in> G. pm_pool f = c} \<le> card {f \<in> F. pm_pool f = c}"
      using assms by (intro card_mono) (auto simp: lendable_def)
    then show ?thesis using assms(1) unfolding lendable_def by (meson order_trans)
  qed
  then show ?thesis using assms by (auto simp: lendable_def intro: finite_subset)
qed

text \<open>Giving frames back, whatever else happened to the TLB.\<close>

definition freed_to :: "kmem \<Rightarrow> frame \<Rightarrow> frame set \<Rightarrow> kmem \<Rightarrow> bool" where
  "freed_to km root F km' \<longleftrightarrow> released km root F (km'\<lparr>km_tlb := km_tlb km\<rparr>)"

lemma released_freed:
  assumes "released km root F km'"
  shows "freed_to km root F km'"
proof -
  have "km'\<lparr>km_tlb := km_tlb km'\<rparr> = km'" by simp
  then show ?thesis using assms unfolding freed_to_def releasedD(12) [OF assms, symmetric] by simp
qed

lemma freed_toD:
  assumes "freed_to km root F km'"
  shows "tree_inv km' root" and "user_free (km_phys km') = user_free (km_phys km) \<union> F"
    and "F \<inter> user_free (km_phys km) = {}" and "cr3_frame km' = cr3_frame km"
    and "km_page_lock km' = km_page_lock km"
    and "table_path q \<Longrightarrow> no_huge_on km root q \<Longrightarrow> no_huge_on km' root q"
proof -
  have s: "same_mem (km'\<lparr>km_tlb := km_tlb km\<rparr>) km'" by (simp add: same_mem_def)
  note r = releasedD [OF assms [unfolded freed_to_def]]
  show "tree_inv km' root" using r(1) same_mem_cong(1) [OF s] by simp
  show "table_path q \<Longrightarrow> no_huge_on km root q \<Longrightarrow> no_huge_on km' root q"
    using r(3) same_mem_cong(3) [OF s] by simp
  show "user_free (km_phys km') = user_free (km_phys km) \<union> F" "F \<inter> user_free (km_phys km) = {}"
    "cr3_frame km' = cr3_frame km" "km_page_lock km' = km_page_lock km"
    using r(4,6,10,11) by (simp_all add: cr3_frame_def)
qed

lemma freed_to_refl: "tree_inv km root \<Longrightarrow> freed_to km root {} km"
  by (rule released_freed [OF released_refl])

lemma freed_to_trans:
  assumes a: "freed_to km root F km1" and b: "freed_to km1 root G km2"
  shows "freed_to km root (F \<union> G) km2"
proof -
  have "released (km1\<lparr>km_tlb := km_tlb km\<rparr>) root G (km2\<lparr>km_tlb := km_tlb km\<rparr>)"
    using releasedD(11) [OF b [unfolded freed_to_def]]
    by (intro released_cong [OF _ _ b [unfolded freed_to_def]]) (simp_all add: same_mem_def)
  from released_trans [OF a [unfolded freed_to_def] this] show ?thesis by (simp add: freed_to_def)
qed

lemma lendable_freed:
  assumes l: "lendable km root F" and G: "G \<subseteq> F" and r: "freed_to km root G km'"
  shows "lendable km' root (F - G)"
proof -
  note rd = releasedD [OF r [unfolded freed_to_def], simplified]
  have n: "node_from km' root q = node_from km root q" if "table_path q" for q
    using rd(2) [OF that] node_from_cong [of "km'\<lparr>km_tlb := km_tlb km\<rparr>" km' root q] by simp
  have "card {f \<in> F - G. pm_pool f = c} \<le> pm_lent (km_phys km') c" for c
  proof -
    have fin: "finite F" using l by (simp add: lendable_def)
    have "{f \<in> F. pm_pool f = c} = {f \<in> F - G. pm_pool f = c} \<union> {f \<in> G. pm_pool f = c}" using G by auto
    then have "card {f \<in> F. pm_pool f = c} = card {f \<in> F - G. pm_pool f = c} + card {f \<in> G. pm_pool f = c}"
      using fin finite_subset [OF G fin] by (simp add: card_Un_disjoint disjoint_iff)
    moreover have "card {f \<in> F. pm_pool f = c} \<le> pm_lent (km_phys km) c"
      using l unfolding lendable_def by blast
    ultimately show ?thesis using rd(9) [of c] by simp
  qed
  then show ?thesis using l rd(4,7,8) n by (simp add: lendable_def)
qed

lemma release_lendable:
  assumes "tree_inv km root" and "lendable km root F" and "f \<in> F"
  shows "\<exists>pm'. pm_deallocate_frame (km_phys km) f = Inr pm'"
    and "pm_deallocate_frame (km_phys km) f = Inr pm' \<Longrightarrow> freed_to km root {f} (km\<lparr>km_phys := pm'\<rparr>)"
proof -
  obtain pm where pm: "pm_deallocate_frame (km_phys km) f = Inr pm" "released km root {f} (km\<lparr>km_phys := pm\<rparr>)"
    using release_frame_released [OF assms(1) lendable_releasable [OF assms(2,3)]] by blast
  then show "\<exists>pm'. pm_deallocate_frame (km_phys km) f = Inr pm'" by blast
  show "freed_to km root {f} (km\<lparr>km_phys := pm'\<rparr>)" if "pm_deallocate_frame (km_phys km) f = Inr pm'"
    using that pm(1) released_freed [OF pm(2)] by simp
qed

text \<open>The frames behind the pages of the region table: the head page is static.\<close>

definition chain_frames :: "region_map_page list \<Rightarrow> frame list \<Rightarrow> bool" where
  "chain_frames ps fs \<longleftrightarrow> map rp_frame ps = None # map Some fs \<and> distinct fs"

lemma last_map_frame: "ps \<noteq> [] \<Longrightarrow> rp_frame (last ps) = last (map rp_frame ps)"
  by (simp add: last_map)

lemma chain_frames_last:
  assumes "chain_frames ps fs" and "2 \<le> length ps"
  shows "fs \<noteq> []" and "rp_frame (last ps) = Some (last fs)" and "release_page (last ps) pm = pm_deallocate_frame pm (last fs)"
proof -
  have len: "length ps = Suc (length fs)"
    using assms(1) length_map [of rp_frame ps] by (simp add: chain_frames_def)
  then show fs: "fs \<noteq> []" using assms(2) by auto
  have "ps \<noteq> []" using assms(2) by auto
  then show "rp_frame (last ps) = Some (last fs)"
    using assms(1) fs last_map_frame [of ps] by (simp add: chain_frames_def last_map)
  then show "release_page (last ps) pm = pm_deallocate_frame pm (last fs)" by (simp add: release_page_def)
qed

lemma dropped_freed:
  assumes inv: "tree_inv km root" and cf: "chain_frames ps fs" and l: "lendable km root (set fs)"
    and d: "dropped_page ps ps' (km_phys km) pm'"
  shows "\<exists>fs'. chain_frames ps' fs' \<and> set fs' \<subseteq> set fs \<and> freed_to km root (set fs - set fs') (km\<lparr>km_phys := pm'\<rparr>)"
proof (cases "map rp_frame ps' = map rp_frame ps \<and> pm' = km_phys km")
  case True
  then show ?thesis using cf freed_to_refl [OF inv] by (auto simp: chain_frames_def)
next
  case False
  then have r: "2 \<le> length ps" "map rp_frame ps' = map rp_frame (butlast ps)" "release_page (last ps) (km_phys km) = Inr pm'"
    using d by (auto simp: dropped_page_def)
  note c = chain_frames_last [OF cf r(1)]
  have "map rp_frame (butlast ps) = None # map Some (butlast fs)"
    using cf c(1) by (simp add: chain_frames_def map_butlast)
  then have cf': "chain_frames ps' (butlast fs)"
    using cf r(2) by (simp add: chain_frames_def distinct_butlast)
  have "fs = butlast fs @ [last fs]" using c(1) by simp
  then have "set fs = insert (last fs) (set (butlast fs))" "last fs \<notin> set (butlast fs)"
    using cf unfolding chain_frames_def
    by (metis list.set(2) list.simps(15) set_append Un_insert_right sup_bot.right_neutral empty_set,
        metis distinct_append disjoint_iff list.set_intros(1))
  then have "set fs - set (butlast fs) = {last fs}" by auto
  then show ?thesis
    using cf' r(3) c release_lendable(2) [OF inv l, of "last fs" pm'] in_set_butlastD [of _ fs]
    by (intro exI [of _ "butlast fs"]) auto
qed

section \<open>Freeing an entry\<close>

text \<open>The address range of the table as a sequence of adjacent, nonempty entries.\<close>

fun partition_of :: "usize \<Rightarrow> region_map_entry list \<Rightarrow> usize \<Rightarrow> bool" where
  "partition_of b [] l \<longleftrightarrow> b = l"
| "partition_of b (u # us) l \<longleftrightarrow> re_base u = b \<and> b < re_limit u \<and> re_type u \<noteq> None \<and> partition_of (re_limit u) us l"

lemma partition_append:
  "partition_of b (xs @ ys) l \<longleftrightarrow> (\<exists>m. partition_of b xs m \<and> partition_of m ys l)"
  by (induction xs arbitrary: b) auto

lemma partition_le: "partition_of b xs l \<Longrightarrow> b \<le> l"
  by (induction xs arbitrary: b) fastforce+

lemma partition_mem: "partition_of b xs l \<Longrightarrow> x \<in> set xs \<Longrightarrow> re_base x < re_limit x \<and> b \<le> re_base x \<and> re_limit x \<le> l"
proof (induction xs arbitrary: b)
  case (Cons u us)
  then show ?case using partition_le [of "re_limit u" us l] by fastforce
qed simp

lemma partition_typed: "partition_of b xs l \<Longrightarrow> typed xs"
  by (induction xs arbitrary: b) auto

lemma partition_last: "partition_of b xs l \<Longrightarrow> xs \<noteq> [] \<Longrightarrow> re_limit (last xs) = l"
  by (induction xs arbitrary: b) (auto split: if_splits)

lemma partition_passed:
  assumes "partition_of b xs start" and "x \<in> set (butlast xs)"
  shows "passed start x"
proof -
  have "xs \<noteq> []" using assms(2) by auto
  then have "partition_of b (butlast xs @ [last xs]) start" using assms(1) by simp
  then obtain m where m: "partition_of b (butlast xs) m" "m < start" unfolding partition_append by auto
  have "re_type x \<noteq> None" using partition_typed [OF m(1)] assms(2) by (auto simp: typed_def)
  with partition_mem [OF m(1) assms(2)] m(2) show ?thesis by (auto simp: passed_def)
qed

text \<open>Freeing an entry merges it with a free entry below and a free entry above.\<close>

definition is_free :: "region_map_entry \<Rightarrow> bool" where
  "is_free e \<longleftrightarrow> re_type e = Some FreeRegion"

definition merge_free :: "region_map_entry list \<Rightarrow> region_map_entry \<Rightarrow> region_map_entry list \<Rightarrow> region_map_entry list" where
  "merge_free xs u ys =
     (if xs \<noteq> [] \<and> is_free (last xs) then butlast xs else xs) @
     \<lparr>re_base = (if xs \<noteq> [] \<and> is_free (last xs) then re_base (last xs) else re_base u),
      re_limit = (if ys \<noteq> [] \<and> is_free (hd ys) then re_limit (hd ys) else re_limit u),
      re_type = Some FreeRegion\<rparr> #
     (if ys \<noteq> [] \<and> is_free (hd ys) then tl ys else ys)"

lemma dropped_page_head:
  "rp_frame p' = rp_frame p \<Longrightarrow> dropped_page (p' # ps) qs pm pm' = dropped_page (p # ps) qs pm pm'"
  by (cases "ps = []") (auto simp: dropped_page_def)

lemma absorb_lead_rep:
  assumes wf: "layout_wf rl" and rep: "table_rep rl (p # ps) (as @ l # u # bs)" and j: "length as < rl_entries rl"
    and rel: "ps \<noteq> [] \<Longrightarrow> \<exists>pm'. release_page (last (p # ps)) (km_phys km) = Inr pm'"
    and l: "re_base l \<le> re_limit l"
  shows "\<exists>pm' p' ps'. absorb_lead p ps (length as) km = Inr (km\<lparr>km_phys := pm'\<rparr>, p', ps', re_limit l - re_base l)
     \<and> table_rep rl (p' # ps') (as @ u # bs) \<and> dropped_page (p # ps) (p' # ps') (km_phys km) pm'"
proof -
  let ?p = "p\<lparr>rp_entries := (rp_entries p)[length as := u]\<rparr>"
  have e: "rp_entries p ! length as = l" using table_rep_nth [OF rep, of "length as"] j by simp
  have "re_type u \<noteq> None" using rep by (simp add: table_rep_def)
  then have rep': "table_rep rl (?p # ps) (as @ u # u # bs)" by (rule table_rep_update [OF rep j])
  have "\<exists>pm' p' ps'. remove_after ?p ps (length as) km = Inr (km\<lparr>km_phys := pm'\<rparr>, p', ps')
     \<and> table_rep rl (p' # ps') (as @ u # bs) \<and> dropped_page (?p # ps) (p' # ps') (km_phys km) pm'"
    using rel by (intro remove_after_rep [OF wf rep' j]) simp
  then obtain pm' p' ps' where r: "remove_after ?p ps (length as) km = Inr (km\<lparr>km_phys := pm'\<rparr>, p', ps')"
      "table_rep rl (p' # ps') (as @ u # bs)" "dropped_page (p # ps) (p' # ps') (km_phys km) pm'"
    using dropped_page_head [of ?p p ps] by auto
  moreover have "entry_after p ps (length as) = Some u" using entry_after_rep(1) [OF wf rep j] by simp
  ultimately show ?thesis using e l by (auto simp: absorb_lead_def entry_size_def usub_def)
qed

lemma absorb_tail_rep:
  assumes wf: "layout_wf rl" and rep: "table_rep rl (p # ps) (as @ u # bs)" and j: "length as < rl_entries rl"
    and rel: "ps \<noteq> [] \<Longrightarrow> \<exists>pm'. release_page (last (p # ps)) (km_phys km) = Inr pm'"
    and w: "bs \<noteq> [] \<Longrightarrow> re_base (hd bs) \<le> re_limit (hd bs)"
  shows "\<exists>pm' p' ps'. absorb_tail p ps (length as) km = Inr (km\<lparr>km_phys := pm'\<rparr>, p', ps',
         if bs \<noteq> [] \<and> is_free (hd bs) then re_limit (hd bs) - re_base (hd bs) else 0)
     \<and> table_rep rl (p' # ps') (as @ u # (if bs \<noteq> [] \<and> is_free (hd bs) then tl bs else bs))
     \<and> dropped_page (p # ps) (p' # ps') (km_phys km) pm'"
proof (cases "bs \<noteq> [] \<and> is_free (hd bs)")
  case True
  then obtain b bs' where bs: "bs = b # bs'" by (cases bs) auto
  obtain pm' p' ps' where "remove_after p ps (length as) km = Inr (km\<lparr>km_phys := pm'\<rparr>, p', ps')"
      "table_rep rl (p' # ps') (as @ u # bs')" "dropped_page (p # ps) (p' # ps') (km_phys km) pm'"
    using remove_after_rep [OF wf rep [unfolded bs] j rel] by blast
  moreover have "entry_after p ps (length as) = Some b" using entry_after_rep(1) [OF wf rep j] bs by simp
  ultimately show ?thesis
    using True bs w by (auto simp: absorb_tail_def is_free_def entry_size_def usub_def)
next
  case False
  then have "absorb_tail p ps (length as) km = Inr (km, p, ps, 0)"
    using entry_after_rep [OF wf rep j] by (cases "bs = []") (auto simp: absorb_tail_def is_free_def)
  then show ?thesis
    using False rep by (intro exI [of _ "km_phys km"] exI [of _ p] exI [of _ ps]) (auto simp: dropped_page_def)
qed

text \<open>The pages of an entry, and the frames that go away with it.\<close>

definition entry_pages :: "region_map_entry \<Rightarrow> nat \<Rightarrow> bool" where
  "entry_pages u n \<longleftrightarrow> PAGE_SIZE dvd re_base u \<and> re_limit u = re_base u + n * PAGE_SIZE \<and> 0 < n \<and> n \<le> 2 ^ 36
     \<and> re_limit u < usize_limit"

definition holds_frames :: "region_kind \<Rightarrow> bool" where
  "holds_frames t \<longleftrightarrow> t = Heap \<or> t = KernelStack"

definition entry_frames :: "kmem \<Rightarrow> frame \<Rightarrow> region_map_entry \<Rightarrow> nat \<Rightarrow> frame set" where
  "entry_frames km root u n =
     (if \<exists>t. re_type u = Some t \<and> holds_frames t then leaf_frames km root (re_base u) {..<n} else {})"

text \<open>What freeing an entry needs of the state: nothing else uses its frames or the table's.\<close>

definition freeable :: "kmem \<Rightarrow> frame \<Rightarrow> region_map_entry \<Rightarrow> nat \<Rightarrow> frame list \<Rightarrow> bool" where
  "freeable km root u n fs \<longleftrightarrow> entry_pages u n \<and> re_type u \<noteq> None \<and> re_type u \<noteq> Some FreeRegion
     \<and> (\<forall>i < n. no_huge_on km root (page_path (page_va (re_base u) i)))
     \<and> ((\<exists>t. re_type u = Some t \<and> holds_frames t) \<longrightarrow>
          inj_on (\<lambda>i. pte_frame (page_entry km root (re_base u) i)) {i. i < n \<and> is_present (page_entry km root (re_base u) i)})
     \<and> lendable km root (entry_frames km root u n \<union> set fs) \<and> entry_frames km root u n \<inter> set fs = {}"

lemma unmap_region_spec:
  assumes inv: "tree_inv km (cr3_frame km)" and lk: "\<not> km_page_lock km" and fr: "freeable km (cr3_frame km) u n fs"
  shows "\<exists>km'. unmap_region u km = Inr km' \<and> freed_to km (cr3_frame km) (entry_frames km (cr3_frame km) u n) km'
     \<and> (\<forall>a. lookup km' (cr3_frame km) a = (if vpn a \<in> (\<lambda>i. vpn (page_va (re_base u) i)) ` {..<n} then 0
           else lookup km (cr3_frame km) a))"
proof -
  let ?r = "cr3_frame km"
  obtain t where t: "re_type u = Some t" "t \<noteq> FreeRegion" using fr by (auto simp: freeable_def)
  have g: "PAGE_SIZE dvd re_base u" "0 < n" "n \<le> 2 ^ 36" "re_base u + n * PAGE_SIZE < usize_limit"
      "re_limit u = re_base u + n * PAGE_SIZE" using fr by (auto simp: freeable_def entry_pages_def)
  have nh: "\<forall>i < n. no_huge_on km ?r (page_path (page_va (re_base u) i))" using fr by (simp add: freeable_def)
  have cr: "holds_frames t \<longrightarrow> can_release km ?r (re_base u) {..<n}"
  proof
    assume "holds_frames t"
    then have "entry_frames km ?r u n = leaf_frames km ?r (re_base u) {..<n}" using t(1) by (auto simp: entry_frames_def)
    then have "lendable km ?r (leaf_frames km ?r (re_base u) {..<n})"
      using fr lendable_subset [of km ?r] by (auto simp: freeable_def)
    then show "can_release km ?r (re_base u) {..<n}"
      using fr t(1) \<open>holds_frames t\<close> by (simp add: can_release_def lendable_def freeable_def)
  qed
  obtain km' where k: "unmap_nonpaged (re_base u) (re_base u + n * PAGE_SIZE) (holds_frames t) km = Inr km'"
      "released km ?r (if holds_frames t then leaf_frames km ?r (re_base u) {..<n} else {}) (km'\<lparr>km_tlb := km_tlb km\<rparr>)"
      "\<forall>a. lookup km' ?r a = (if vpn a \<in> (\<lambda>i. vpn (page_va (re_base u) i)) ` {..<n} then 0 else lookup km ?r a)"
    using unmap_nonpaged_spec [OF inv lk g(1-4) nh cr] by blast
  have "unmap_region u km = Inr km'"
    using k(1) t g(5) by (cases t) (simp_all add: unmap_region_def holds_frames_def)
  then show ?thesis using k(2,3) t(1) by (auto simp: freed_to_def entry_frames_def)
qed

lemma drop_entry_spec:
  assumes wf: "layout_wf rl" and rep: "table_rep rl (p # ps) (as @ u # bs)" and j: "length as < rl_entries rl"
    and inv: "tree_inv km (cr3_frame km)" and lk: "\<not> km_page_lock km"
    and fr: "freeable km (cr3_frame km) u n fs" and cf: "chain_frames (qs @ p # ps) fs"
    and part: "partition_of (re_limit u) bs l" "l < usize_limit" and lead: "lead \<le> re_base u"
    and info: "ri_limit info = re_limit u"
  shows "\<exists>km' ps' fs'. drop_entry p ps (length as) lead info km = Inr (km', ps')
     \<and> table_rep rl ps' (as @ \<lparr>re_base = re_base u - lead,
          re_limit = (if bs \<noteq> [] \<and> is_free (hd bs) then re_limit (hd bs) else re_limit u),
          re_type = Some FreeRegion\<rparr> # (if bs \<noteq> [] \<and> is_free (hd bs) then tl bs else bs))
     \<and> chain_frames (qs @ ps') fs' \<and> set fs' \<subseteq> set fs
     \<and> freed_to km (cr3_frame km) (entry_frames km (cr3_frame km) u n \<union> (set fs - set fs')) km'
     \<and> (\<forall>a. lookup km' (cr3_frame km) a = (if vpn a \<in> (\<lambda>i. vpn (page_va (re_base u) i)) ` {..<n} then 0
           else lookup km (cr3_frame km) a))"
proof -
  let ?r = "cr3_frame km" and ?F = "entry_frames km (cr3_frame km) u n" and ?free = "bs \<noteq> [] \<and> is_free (hd bs)"
  have e: "rp_entries p ! length as = u" using table_rep_nth [OF rep, of "length as"] j by simp
  obtain t where t: "re_type u = Some t" "t \<noteq> FreeRegion" using fr by (auto simp: freeable_def)
  obtain km1 where u: "unmap_region u km = Inr km1" "freed_to km ?r ?F km1"
      "\<forall>a. lookup km1 ?r a = (if vpn a \<in> (\<lambda>i. vpn (page_va (re_base u) i)) ` {..<n} then 0 else lookup km ?r a)"
    using unmap_region_spec [OF inv lk fr] by blast
  note inv1 = freed_toD(1) [OF u(2)]
  have "lendable km1 ?r ((?F \<union> set fs) - ?F)" using fr by (intro lendable_freed [OF _ _ u(2)]) (auto simp: freeable_def)
  moreover have "(?F \<union> set fs) - ?F = set fs" using fr by (auto simp: freeable_def)
  ultimately have l1: "lendable km1 ?r (set fs)" by simp
  have rel: "\<exists>pm'. release_page (last (p # ps)) (km_phys km1) = Inr pm'" if "ps \<noteq> []"
  proof -
    have "2 \<le> length (qs @ p # ps)" using that by (cases ps) auto
    note c = chain_frames_last [OF cf this]
    show ?thesis using c release_lendable(1) [OF inv1 l1, of "last fs"] by simp
  qed
  have hb: "bs \<noteq> [] \<Longrightarrow> re_base (hd bs) = re_limit u \<and> re_limit u < re_limit (hd bs) \<and> re_limit (hd bs) < usize_limit"
    using part partition_le by (cases bs) fastforce+
  let ?tail = "if ?free then re_limit (hd bs) - re_base (hd bs) else 0"
  have "\<exists>pm' p' ps'. absorb_tail p ps (length as) km1 = Inr (km1\<lparr>km_phys := pm'\<rparr>, p', ps', ?tail)
     \<and> table_rep rl (p' # ps') (as @ u # (if ?free then tl bs else bs))
     \<and> dropped_page (p # ps) (p' # ps') (km_phys km1) pm'"
    using hb by (intro absorb_tail_rep [OF wf rep j rel]) auto
  then obtain pm' p' ps' where a: "absorb_tail p ps (length as) km1 = Inr (km1\<lparr>km_phys := pm'\<rparr>, p', ps', ?tail)"
      "table_rep rl (p' # ps') (as @ u # (if ?free then tl bs else bs))"
      "dropped_page (p # ps) (p' # ps') (km_phys km1) pm'" by blast
  let ?km2 = "km1\<lparr>km_phys := pm'\<rparr>"
  obtain fs' where f: "chain_frames (qs @ p' # ps') fs'" "set fs' \<subseteq> set fs" "freed_to km1 ?r (set fs - set fs') ?km2"
    using dropped_freed [OF inv1 cf l1 dropped_page_append [OF _ a(3)]] by blast
  let ?e = "\<lparr>re_base = re_base u - lead, re_limit = (if ?free then re_limit (hd bs) else re_limit u),
      re_type = Some FreeRegion\<rparr>"
  let ?p = "p'\<lparr>rp_entries := (rp_entries p')[length as := ?e]\<rparr>"
  have e': "rp_entries p' ! length as = u" using table_rep_nth [OF a(2), of "length as"] j by simp
  have lim: "re_limit u < usize_limit" using fr by (simp add: freeable_def entry_pages_def)
  have "uadd (re_limit u) ?tail = Inr (if ?free then re_limit (hd bs) else re_limit u)"
    using hb lim by (auto simp: uadd_def)
  then have "drop_entry p ps (length as) lead info km = Inr (?km2, ?p # ps')"
    using e e' t info u(1) a(1) lead by (simp add: drop_entry_def usub_def)
  moreover have "table_rep rl (?p # ps') (as @ ?e # (if ?free then tl bs else bs))"
    by (rule table_rep_update [OF a(2) j]) simp
  moreover have "chain_frames (qs @ ?p # ps') fs'" using f(1) by (simp add: chain_frames_def)
  moreover have "freed_to km ?r (?F \<union> (set fs - set fs')) ?km2" by (rule freed_to_trans [OF u(2) f(3)])
  moreover have "lookup ?km2 ?r x = lookup km1 ?r x" for x by (rule lookup_cong) simp
  ultimately show ?thesis
    using u(3) f(2) by (intro exI [of _ ?km2] exI [of _ "?p # ps'"] exI [of _ fs']) simp
qed

text \<open>The outcome of a deallocation, as far as the rest of the kernel can tell.\<close>

definition deallocated ::
  "region_layout \<Rightarrow> kmem \<Rightarrow> region_map_entry list \<Rightarrow> region_map_entry \<Rightarrow> nat \<Rightarrow> frame list
     \<Rightarrow> kmem \<Rightarrow> region_map_page list \<Rightarrow> frame list \<Rightarrow> bool" where
  "deallocated rl km us u n fs km' ps' fs' \<longleftrightarrow> table_rep rl ps' us \<and> chain_frames ps' fs' \<and> set fs' \<subseteq> set fs
     \<and> freed_to km (cr3_frame km) (entry_frames km (cr3_frame km) u n \<union> (set fs - set fs')) km'
     \<and> (\<forall>a. lookup km' (cr3_frame km) a = (if vpn a \<in> (\<lambda>i. vpn (page_va (re_base u) i)) ` {..<n} then 0
           else lookup km (cr3_frame km) a))"

lemma deallocate_at:
  assumes rep: "table_rep rl ps (zs @ e # ws)" and z: "\<forall>x \<in> set zs. passed (ri_start info) x"
    and e: "stops (ri_start info) lead e"
  shows "\<exists>ps1 p ps2 zs2. ps = ps1 @ p # ps2 \<and> table_rep rl (p # ps2) (zs2 @ e # ws)
     \<and> zs = concat (map rp_entries ps1) @ zs2 \<and> length zs2 < rl_entries rl
     \<and> (\<forall>p \<in> set ps1. length (rp_entries p) = rl_entries rl \<and> typed (rp_entries p))
     \<and> deallocate_recurse_thing ps info km =
         bindR (if lead then absorb_lead p ps2 (length zs2) km else Inr (km, p, ps2, 0)) (\<lambda>(km', p', ps', lead_bytes).
         bindR (drop_entry p' ps' (length zs2) lead_bytes info km') (\<lambda>(km'', ps''). Inr (km'', ps1 @ ps'')))"
proof -
  obtain ps1 p ps2 zs2 es where l: "ps = ps1 @ p # ps2" "table_rep rl (p # ps2) (zs2 @ e # ws)"
      "zs = concat (map rp_entries ps1) @ zs2" "length zs2 < rl_entries rl" "rp_entries p = zs2 @ e # es"
      "\<forall>p \<in> set ps1. length (rp_entries p) = rl_entries rl \<and> typed (rp_entries p)"
    using table_locate [OF rep] by blast
  have "find_drop (rp_entries p) 0 (ri_start info) = Inr (Some (length zs2, lead))"
    unfolding l(5) using z l(3) e by (intro find_drop_stops) auto
  then have "deallocate_recurse_thing ps info km =
      bindR (if lead then absorb_lead p ps2 (length zs2) km else Inr (km, p, ps2, 0)) (\<lambda>(km', p', ps', lead_bytes).
      bindR (drop_entry p' ps' (length zs2) lead_bytes info km') (\<lambda>(km'', ps''). Inr (km'', ps1 @ ps'')))"
    unfolding l(1) using deallocate_passed [of ps1 info "p # ps2" km] z l(3)
    by (simp add: bindR_assoc case_prod_beta')
  with l show ?thesis by blast
qed

lemma deallocate_no_lead:
  assumes wf: "layout_wf rl" and rep: "table_rep rl ps (xs @ u # ys)" and part: "partition_of b (xs @ u # ys) l"
    and l: "l < usize_limit" and inv: "tree_inv km (cr3_frame km)" and lk: "\<not> km_page_lock km"
    and fr: "freeable km (cr3_frame km) u n fs" and cf: "chain_frames ps fs"
    and no: "\<not> (xs \<noteq> [] \<and> is_free (last xs))"
  shows "\<exists>km' ps' fs'. manager_deallocate_region \<lparr>ri_start = re_base u, ri_limit = re_limit u\<rparr> ps km = Inr (km', ps')
     \<and> deallocated rl km (merge_free xs u ys) u n fs km' ps' fs'"
proof -
  let ?info = "\<lparr>ri_start = re_base u, ri_limit = re_limit u\<rparr>"
  obtain m where m: "partition_of b xs m" "re_base u = m" "m < re_limit u" "partition_of (re_limit u) ys l"
    using part by (auto simp: partition_append)
  have "passed (re_base u) x" if x: "x \<in> set xs" for x
  proof (cases "x \<in> set (butlast xs)")
    case True
    then show ?thesis using partition_passed m(1,2) by blast
  next
    case False
    have "xs = butlast xs @ [last xs]" using x by (intro append_butlast_last_id [symmetric]) auto
    then have "x = last xs" using x False by (metis in_set_butlast_appendI rotate1.simps(2) set_ConsD set_rotate1)
    then show ?thesis
      using partition_mem [OF m(1) x] partition_typed [OF m(1)] m(2) x no by (auto simp: passed_def is_free_def typed_def)
  qed
  moreover have "stops (re_base u) False u" using fr by (auto simp: stops_def freeable_def)
  ultimately obtain ps1 p ps2 zs2 where a: "ps = ps1 @ p # ps2" "table_rep rl (p # ps2) (zs2 @ u # ys)"
      "xs = concat (map rp_entries ps1) @ zs2" "length zs2 < rl_entries rl"
      "\<forall>p \<in> set ps1. length (rp_entries p) = rl_entries rl \<and> typed (rp_entries p)"
      "deallocate_recurse_thing ps ?info km =
         bindR (drop_entry p ps2 (length zs2) 0 ?info km) (\<lambda>(km'', ps''). Inr (km'', ps1 @ ps''))"
    using deallocate_at [OF rep, of ?info False km] by auto
  have lim: "ri_limit ?info = re_limit u" by simp
  obtain km' ps' fs' where d: "drop_entry p ps2 (length zs2) 0 ?info km = Inr (km', ps')"
      "table_rep rl ps' (zs2 @ \<lparr>re_base = re_base u - 0,
          re_limit = (if ys \<noteq> [] \<and> is_free (hd ys) then re_limit (hd ys) else re_limit u),
          re_type = Some FreeRegion\<rparr> # (if ys \<noteq> [] \<and> is_free (hd ys) then tl ys else ys))"
      "chain_frames (ps1 @ ps') fs'" "set fs' \<subseteq> set fs"
      "freed_to km (cr3_frame km) (entry_frames km (cr3_frame km) u n \<union> (set fs - set fs')) km'"
      "\<forall>a. lookup km' (cr3_frame km) a = (if vpn a \<in> (\<lambda>i. vpn (page_va (re_base u) i)) ` {..<n} then 0
           else lookup km (cr3_frame km) a)"
    using drop_entry_spec [OF wf a(2,4) inv lk fr cf [unfolded a(1)] m(4) l le0 lim] by blast
  have "merge_free xs u ys = concat (map rp_entries ps1) @ zs2 @ \<lparr>re_base = re_base u - 0,
          re_limit = (if ys \<noteq> [] \<and> is_free (hd ys) then re_limit (hd ys) else re_limit u),
          re_type = Some FreeRegion\<rparr> # (if ys \<noteq> [] \<and> is_free (hd ys) then tl ys else ys)"
    using no a(3) by (auto simp: merge_free_def)
  then have "table_rep rl (ps1 @ ps') (merge_free xs u ys)" using table_rep_append [OF d(2) a(5)] by simp
  moreover have "manager_deallocate_region ?info ps km = Inr (km', ps1 @ ps')"
    using a(6) d(1) by (simp add: manager_deallocate_region_def)
  ultimately show ?thesis using d(3-6) by (auto simp: deallocated_def)
qed

lemma freeable_freed:
  assumes fr: "freeable km root u n fs" and f: "freed_to km root (set fs - set fs1) k" "set fs1 \<subseteq> set fs"
    and lk: "\<And>a. lookup k root a = lookup km root a"
  shows "freeable k root u n fs1" and "entry_frames k root u n = entry_frames km root u n"
proof -
  let ?F = "entry_frames km root u n"
  show F: "entry_frames k root u n = ?F" unfolding entry_frames_def leaf_frames_def lk ..
  have "(?F \<union> set fs) - (set fs - set fs1) = ?F \<union> set fs1" using fr f(2) by (auto simp: freeable_def)
  then have "lendable k root (?F \<union> set fs1)"
    using lendable_freed [OF _ _ f(1), of "?F \<union> set fs"] fr by (auto simp: freeable_def)
  moreover have "no_huge_on k root (page_path (page_va (re_base u) i))" if "i < n" for i
    using fr that freed_toD(6) [OF f(1) page_path_ok] by (simp add: freeable_def)
  ultimately show "freeable k root u n fs1" using fr f(2) unfolding freeable_def F lk by auto
qed

lemma deallocate_lead:
  assumes wf: "layout_wf rl" and rep: "table_rep rl ps ((xs @ [v]) @ u # ys)"
    and part: "partition_of b ((xs @ [v]) @ u # ys) l"
    and l: "l < usize_limit" and inv: "tree_inv km (cr3_frame km)" and lk: "\<not> km_page_lock km"
    and fr: "freeable km (cr3_frame km) u n fs" and cf: "chain_frames ps fs" and v: "is_free v"
  shows "\<exists>km' ps' fs'. manager_deallocate_region \<lparr>ri_start = re_base u, ri_limit = re_limit u\<rparr> ps km = Inr (km', ps')
     \<and> deallocated rl km (merge_free (xs @ [v]) u ys) u n fs km' ps' fs'"
proof -
  let ?info = "\<lparr>ri_start = re_base u, ri_limit = re_limit u\<rparr>" and ?r = "cr3_frame km"
  obtain m where m: "partition_of b (xs @ [v]) m" "re_base u = m" "partition_of (re_limit u) ys l"
    using part by (auto simp: partition_append)
  have vl: "re_limit v = re_base u" "re_base v < re_limit v"
    using partition_last [OF m(1)] partition_mem [OF m(1), of v] m(2) by simp_all
  have "\<forall>x \<in> set xs. passed (re_base u) x" using partition_passed [OF m(1)] m(2) by auto
  moreover have "stops (re_base u) True v" using vl v by (auto simp: stops_def is_free_def)
  moreover have rep': "table_rep rl ps (xs @ v # u # ys)" using rep by simp
  ultimately obtain ps1 p ps2 zs2 where a: "ps = ps1 @ p # ps2" "table_rep rl (p # ps2) (zs2 @ v # u # ys)"
      "xs = concat (map rp_entries ps1) @ zs2" "length zs2 < rl_entries rl"
      "\<forall>p \<in> set ps1. length (rp_entries p) = rl_entries rl \<and> typed (rp_entries p)"
      "deallocate_recurse_thing ps ?info km =
         bindR (absorb_lead p ps2 (length zs2) km) (\<lambda>(km', p', ps', lead_bytes).
         bindR (drop_entry p' ps' (length zs2) lead_bytes ?info km') (\<lambda>(km'', ps''). Inr (km'', ps1 @ ps'')))"
    using deallocate_at [of rl ps xs v "u # ys" ?info True km] by auto
  have lf: "lendable km ?r (set fs)" using fr lendable_subset [of km ?r] by (auto simp: freeable_def)
  have rel: "\<exists>pm'. release_page (last (p # ps2)) (km_phys km) = Inr pm'" if "ps2 \<noteq> []"
  proof -
    have "2 \<le> length (ps1 @ p # ps2)" using that by (cases ps2) auto
    note c = chain_frames_last [OF cf [unfolded a(1)] this]
    show ?thesis using c release_lendable(1) [OF inv lf, of "last fs"] by simp
  qed
  have vle: "re_base v \<le> re_limit v" using vl(2) by simp
  obtain pm' p' ps' where al:
      "absorb_lead p ps2 (length zs2) km = Inr (km\<lparr>km_phys := pm'\<rparr>, p', ps', re_limit v - re_base v)"
      "table_rep rl (p' # ps') (zs2 @ u # ys)" "dropped_page (p # ps2) (p' # ps') (km_phys km) pm'"
    using absorb_lead_rep [OF wf a(2,4) rel vle] by blast
  let ?k = "km\<lparr>km_phys := pm'\<rparr>"
  obtain fs1 where f: "chain_frames (ps1 @ p' # ps') fs1" "set fs1 \<subseteq> set fs" "freed_to km ?r (set fs - set fs1) ?k"
    using dropped_freed [OF inv cf [unfolded a(1)] lf dropped_page_append [OF _ al(3)]] by blast
  have c: "cr3_frame ?k = ?r" by (simp add: cr3_frame_def)
  have lkk: "lookup ?k ?r x = lookup km ?r x" for x by (rule lookup_cong) simp
  have fr1: "freeable ?k ?r u n fs1" and ef: "entry_frames ?k ?r u n = entry_frames km ?r u n"
    by (rule freeable_freed [OF fr f(3,2) lkk])+
  have lim: "ri_limit ?info = re_limit u" and ld: "re_limit v - re_base v \<le> re_base u" using vl by simp_all
  have inv1: "tree_inv ?k (cr3_frame ?k)" unfolding c by (rule freed_toD(1) [OF f(3)])
  have lk1: "\<not> km_page_lock ?k" using lk by simp
  obtain km' qs fs' where d: "drop_entry p' ps' (length zs2) (re_limit v - re_base v) ?info ?k = Inr (km', qs)"
      "table_rep rl qs (zs2 @ \<lparr>re_base = re_base u - (re_limit v - re_base v),
          re_limit = (if ys \<noteq> [] \<and> is_free (hd ys) then re_limit (hd ys) else re_limit u),
          re_type = Some FreeRegion\<rparr> # (if ys \<noteq> [] \<and> is_free (hd ys) then tl ys else ys))"
      "chain_frames (ps1 @ qs) fs'" "set fs' \<subseteq> set fs1"
      "freed_to ?k ?r (entry_frames km ?r u n \<union> (set fs1 - set fs')) km'"
      "\<forall>a. lookup km' ?r a = (if vpn a \<in> (\<lambda>i. vpn (page_va (re_base u) i)) ` {..<n} then 0 else lookup km ?r a)"
    using drop_entry_spec [OF wf al(2) a(4) inv1 lk1 fr1 [folded c] f(1) m(3) l ld lim]
    unfolding c ef lkk by blast
  have "merge_free (xs @ [v]) u ys = concat (map rp_entries ps1) @ zs2 @
      \<lparr>re_base = re_base u - (re_limit v - re_base v),
       re_limit = (if ys \<noteq> [] \<and> is_free (hd ys) then re_limit (hd ys) else re_limit u),
       re_type = Some FreeRegion\<rparr> # (if ys \<noteq> [] \<and> is_free (hd ys) then tl ys else ys)"
    using v a(3) vl by (simp add: merge_free_def butlast_append)
  then have "table_rep rl (ps1 @ qs) (merge_free (xs @ [v]) u ys)" using table_rep_append [OF d(2) a(5)] by simp
  moreover have "manager_deallocate_region ?info ps km = Inr (km', ps1 @ qs)"
    using a(6) al(1) d(1) by (simp add: manager_deallocate_region_def)
  moreover have "(set fs - set fs1) \<union> (entry_frames km ?r u n \<union> (set fs1 - set fs')) =
      entry_frames km ?r u n \<union> (set fs - set fs')" using f(2) d(4) by auto
  then have "freed_to km ?r (entry_frames km ?r u n \<union> (set fs - set fs')) km'"
    using freed_to_trans [OF f(3) d(5)] by simp
  ultimately show ?thesis
    using d(3,4,6) f(2) by (intro exI [of _ km'] exI [of _ "ps1 @ qs"] exI [of _ fs']) (auto simp: deallocated_def)
qed

lemma deallocate_spec:
  assumes "layout_wf rl" and "table_rep rl ps (xs @ u # ys)" and "partition_of b (xs @ u # ys) l"
    and "l < usize_limit" and "tree_inv km (cr3_frame km)" and "\<not> km_page_lock km"
    and "freeable km (cr3_frame km) u n fs" and "chain_frames ps fs"
  shows "\<exists>km' ps' fs'. manager_deallocate_region \<lparr>ri_start = re_base u, ri_limit = re_limit u\<rparr> ps km = Inr (km', ps')
     \<and> deallocated rl km (merge_free xs u ys) u n fs km' ps' fs'"
proof (cases "xs \<noteq> [] \<and> is_free (last xs)")
  case True
  then obtain xs0 v where xs: "xs = xs0 @ [v]" "is_free v" by (metis append_butlast_last_id)
  show ?thesis
    unfolding xs(1) by (rule deallocate_lead [OF assms(1) assms(2,3) [unfolded xs(1)] assms(4-8) xs(2)])
next
  case False
  then show ?thesis by (rule deallocate_no_lead [OF assms])
qed

text \<open>Merging keeps the partition and leaves no two free neighbours behind.\<close>

fun coalesced :: "region_map_entry list \<Rightarrow> bool" where
  "coalesced (u # v # us) \<longleftrightarrow> \<not> (is_free u \<and> is_free v) \<and> coalesced (v # us)"
| "coalesced _ \<longleftrightarrow> True"

lemma coalesced_append:
  "coalesced (xs @ ys) \<longleftrightarrow> coalesced xs \<and> coalesced ys
     \<and> \<not> (xs \<noteq> [] \<and> ys \<noteq> [] \<and> is_free (last xs) \<and> is_free (hd ys))"
proof (induction xs)
  case (Cons x xs)
  then show ?case by (cases xs; cases ys) auto
qed simp

lemma coalesced_Cons: "coalesced (u # us) \<longleftrightarrow> coalesced us \<and> \<not> (us \<noteq> [] \<and> is_free u \<and> is_free (hd us))"
  by (cases us) auto

lemma merge_free_partition:
  assumes "partition_of b (xs @ u # ys) l"
  shows "partition_of b (merge_free xs u ys) l"
proof -
  obtain m where m: "partition_of b xs m" "re_base u = m" "m < re_limit u" "partition_of (re_limit u) ys l"
    using assms by (auto simp: partition_append)
  let ?xl = "xs \<noteq> [] \<and> is_free (last xs)" and ?yl = "ys \<noteq> [] \<and> is_free (hd ys)"
  have x: "\<exists>m'. partition_of b (if ?xl then butlast xs else xs) m' \<and> m' \<le> m
      \<and> m' = (if ?xl then re_base (last xs) else re_base u)"
  proof (cases ?xl)
    case True
    then show ?thesis using m(1) partition_append [of b "butlast xs" "[last xs]" m] by auto
  next
    case False
    then show ?thesis using m(1,2) by auto
  qed
  have y: "re_limit u \<le> (if ?yl then re_limit (hd ys) else re_limit u)
      \<and> partition_of (if ?yl then re_limit (hd ys) else re_limit u) (if ?yl then tl ys else ys) l"
    using m(4) by (cases ys) auto
  from x obtain m' where "partition_of b (if ?xl then butlast xs else xs) m'" "m' \<le> m"
      "m' = (if ?xl then re_base (last xs) else re_base u)" by blast
  with y m(3) show ?thesis unfolding merge_free_def partition_append by (intro exI [of _ m']) auto
qed

lemma merge_free_coalesced:
  assumes "coalesced (xs @ u # ys)"
  shows "coalesced (merge_free xs u ys)"
proof -
  have c: "coalesced xs" "coalesced ys" using assms by (auto simp: coalesced_append coalesced_Cons)
  have "coalesced (butlast xs) \<and> \<not> (is_free (last xs) \<and> butlast xs \<noteq> [] \<and> is_free (last (butlast xs)))" if "xs \<noteq> []"
    using c(1) that coalesced_append [of "butlast xs" "[last xs]"] by auto
  moreover have "coalesced (tl ys) \<and> \<not> (is_free (hd ys) \<and> tl ys \<noteq> [] \<and> is_free (hd (tl ys)))" if "ys \<noteq> []"
    using c(2) that by (cases ys) (auto simp: coalesced_Cons)
  ultimately show ?thesis
    using c by (auto simp: merge_free_def coalesced_append coalesced_Cons split: if_splits)
qed

end
