(* ===== verification/Free_List.thy ===== *)
theory Free_List
  imports Kernel_Prelude
begin

text \<open>
  \<^verbatim>\<open>src/src/allocator/free_list.rs\<close>: the coalescing first-fit free list inside a heap region.
  The nodes of the source live in the free memory they describe and are chained through
  \<^verbatim>\<open>next\<close>; the model keeps the chain as the list of its nodes, each with its address and its
  size. The zero-sized head node is part of the list object itself.
\<close>

section \<open>Layouts\<close>

record layout =
  lay_size :: usize
  lay_align :: usize

text \<open>
  \<^verbatim>\<open>Layout::from_size_align\<close>: the alignment is a power of two, and rounding the size up to
  it does not overflow.
\<close>

definition layout_valid :: "layout \<Rightarrow> bool" where
  "layout_valid l \<longleftrightarrow> is_power_of_two (lay_align l) \<and> lay_size l + (lay_align l - 1) < usize_limit"

definition from_size_align :: "usize \<Rightarrow> usize \<Rightarrow> layout option" where
  "from_size_align sz al =
     (let l = \<lparr>lay_size = sz, lay_align = al\<rparr> in if layout_valid l then Some l else None)"

section \<open>Holes and the list\<close>

record hole_info =
  hi_addr :: usize
  hi_size :: usize

record allocation =
  al_info :: hole_info
  al_front :: "hole_info option"
  al_back :: "hole_info option"

record free_list =
  fl_head :: hole_info
  fl_nodes :: "hole_info list"
  fl_allocated_space :: usize
  fl_free_space :: usize

text \<open>A \<^verbatim>\<open>FreeNode\<close> is a \<^verbatim>\<open>usize\<close> and an optional reference.\<close>

definition FREE_NODE_SIZE :: usize where "FREE_NODE_SIZE = 16"
definition FREE_NODE_ALIGN :: usize where "FREE_NODE_ALIGN = 8"

definition min_alignment :: usize where "min_alignment = FREE_NODE_ALIGN"
definition min_alloc_size :: usize where "min_alloc_size = FREE_NODE_SIZE"

definition align_layout :: "layout \<Rightarrow> layout option res" where
  "align_layout l =
     (let required_alignment = max (lay_align l) min_alignment
      in bindR (guardR (required_alignment \<ge> min_alignment)
                  (Assertion ''required_alignment >= Self::min_alignment()'')) (\<lambda>_.
         bindR (align_up (max (lay_size l) min_alloc_size) min_alignment) (\<lambda>required_size.
         Inr (from_size_align required_size required_alignment))))"

definition free_list_new :: "usize \<Rightarrow> usize \<Rightarrow> free_list res" where
  "free_list_new start limit =
     bindR (align_up start FREE_NODE_ALIGN) (\<lambda>aligned_start.
     let size = limit - aligned_start
     in bindR (guardR (size \<ge> FREE_NODE_SIZE) (Assertion ''Buffer size is too small'')) (\<lambda>_.
        Inr \<lparr>fl_head = \<lparr>hi_addr = 0, hi_size = 0\<rparr>,
             fl_nodes = [\<lparr>hi_addr = aligned_start, hi_size = size\<rparr>],
             fl_allocated_space = 0, fl_free_space = size\<rparr>))"

definition allocate_from_hole_info :: "hole_info \<Rightarrow> layout \<Rightarrow> allocation option res" where
  "allocate_from_hole_info hole l =
     (let available_size = hi_size hole; required_size = lay_size l; required_alignment = lay_align l
      in
     bindR (guardR (required_size \<ge> FREE_NODE_SIZE) (Assertion ''required_size >= size_of::<FreeNode>()'')) (\<lambda>_.
     bindR (guardR (required_alignment \<ge> FREE_NODE_ALIGN)
              (Assertion ''required_alignment >= align_of::<FreeNode>()'')) (\<lambda>_.
     bindR (align_up required_size FREE_NODE_ALIGN) (\<lambda>rs.
     bindR (guardR (required_size = rs)
              (Assertion ''required_size == align_up(required_size, align_of::<FreeNode>())'')) (\<lambda>_.
     let node_start = hi_addr hole in
     bindR (uadd node_start available_size) (\<lambda>node_end.
     bindR (align_up node_start required_alignment) (\<lambda>up.
     bindR (if up = node_start then Inr (node_start, None)
            else bindR (uadd node_start FREE_NODE_SIZE) (\<lambda>s.
                 bindR (align_up s required_alignment) (\<lambda>aligned_start.
                 bindR (usub aligned_start node_start) (\<lambda>pad.
                 Inr (aligned_start, Some \<lparr>hi_addr = node_start, hi_size = pad\<rparr>)))))
       (\<lambda>(aligned_hole_start, front_padding).
     bindR (uadd aligned_hole_start required_size) (\<lambda>e.
     if e > node_end then Inr None
     else bindR (usub node_end aligned_hole_start) (\<lambda>hole_size.
          if hole_size = required_size
          then Inr (Some \<lparr>al_info = \<lparr>hi_addr = aligned_hole_start, hi_size = required_size\<rparr>,
                          al_front = front_padding, al_back = None\<rparr>)
          else bindR (usub hole_size required_size) (\<lambda>rest.
               if rest < FREE_NODE_SIZE then Inr None
               else bindR (uadd aligned_hole_start required_size) (\<lambda>back.
                    Inr (Some \<lparr>al_info = \<lparr>hi_addr = aligned_hole_start, hi_size = required_size\<rparr>,
                               al_front = front_padding,
                               al_back = Some \<lparr>hi_addr = back, hi_size = rest\<rparr>\<rparr>)))))))))))))"

fun tail_allocate :: "hole_info list \<Rightarrow> layout \<Rightarrow> (hole_info list \<times> allocation option) res" where
  "tail_allocate [] l = Inr ([], None)"
| "tail_allocate (current # rest) l =
     bindR (allocate_from_hole_info current l) (\<lambda>a. case a of
        Some allocation \<Rightarrow> Inr (rest, Some allocation)
      | None \<Rightarrow> bindR (tail_allocate rest l) (\<lambda>(rest', r). Inr (current # rest', r)))"

text \<open>
  The loop of \<^verbatim>\<open>deallocate_from_hole_info\<close> at one node of the chain and the nodes after it.
  It returns the node and its successors as the loop leaves them.
\<close>

fun deallocate_loop :: "hole_info \<Rightarrow> hole_info list \<Rightarrow> hole_info \<Rightarrow> (hole_info \<times> hole_info list) res" where
  "deallocate_loop node [] hole =
     bindR (uadd (if hi_size node = 0 then 0 else hi_addr node) (hi_size node)) (\<lambda>node_end.
     bindR (guardR (node_end \<le> hi_addr hole) (Assertion ''Invalid deallocation'')) (\<lambda>_.
     if node_end = hi_addr hole
     then bindR (uadd (hi_size node) (hi_size hole)) (\<lambda>s. Inr (node\<lparr>hi_size := s\<rparr>, []))
     else bindR (guardR (hi_addr hole mod FREE_NODE_ALIGN = 0)
                   (Assertion ''hole.addr % align_of::<FreeNode>() == 0'')) (\<lambda>_. Inr (node, [hole]))))"
| "deallocate_loop node (next # rest) hole =
     bindR (uadd (if hi_size node = 0 then 0 else hi_addr node) (hi_size node)) (\<lambda>node_end.
     bindR (guardR (node_end \<le> hi_addr hole) (Assertion ''Invalid deallocation'')) (\<lambda>_.
     bindR (uadd (hi_addr hole) (hi_size hole)) (\<lambda>hole_end.
     if node_end = hi_addr hole \<and> hole_end = hi_addr next
     then bindR (uadd (hi_size hole) (hi_size next)) (\<lambda>s.
          bindR (uadd (hi_size node) s) (\<lambda>s'. Inr (node\<lparr>hi_size := s'\<rparr>, rest)))
     else if node_end = hi_addr hole
     then bindR (uadd (hi_size node) (hi_size hole)) (\<lambda>s. Inr (node\<lparr>hi_size := s\<rparr>, next # rest))
     else if hole_end = hi_addr next
     then bindR (uadd (hi_size hole) (hi_size next)) (\<lambda>s.
          deallocate_loop node rest (hole\<lparr>hi_size := s\<rparr>))
     else if hi_addr next \<le> hi_addr hole
     then bindR (deallocate_loop next rest hole) (\<lambda>(next', rest'). Inr (node, next' # rest'))
     else bindR (guardR (hi_addr hole mod FREE_NODE_ALIGN = 0)
                   (Assertion ''hole.addr % align_of::<FreeNode>() == 0'')) (\<lambda>_.
          Inr (node, hole # next # rest)))))"

definition deallocate_from_hole_info ::
  "hole_info \<Rightarrow> hole_info list \<Rightarrow> hole_info \<Rightarrow> (hole_info \<times> hole_info list) res" where
  "deallocate_from_hole_info node rest hole =
     bindR (guardR (hi_size hole \<ge> FREE_NODE_SIZE) (Assertion ''hole.size >= size_of::<FreeNode>()'')) (\<lambda>_.
     bindR (align_up (hi_size hole) FREE_NODE_ALIGN) (\<lambda>s.
     bindR (guardR (hi_size hole = s)
              (Assertion ''hole.size == align_up(hole.size, align_of::<FreeNode>())'')) (\<lambda>_.
     bindR (align_up (hi_addr hole) FREE_NODE_ALIGN) (\<lambda>a.
     bindR (guardR (hi_addr hole = a)
              (Assertion ''hole.addr == align_up(hole.addr, align_of::<FreeNode>())'')) (\<lambda>_.
     deallocate_loop node rest hole)))))"

definition give_back :: "hole_info option \<Rightarrow> hole_info \<times> hole_info list \<Rightarrow> (hole_info \<times> hole_info list) res" where
  "give_back padding = (\<lambda>(head, nodes). case padding of
       None \<Rightarrow> Inr (head, nodes)
     | Some hole \<Rightarrow> deallocate_from_hole_info head nodes hole)"

definition fl_allocate :: "free_list \<Rightarrow> layout \<Rightarrow> (free_list \<times> usize option) res" where
  "fl_allocate fl l =
     bindR (tail_allocate (fl_nodes fl) l) (\<lambda>(nodes, r). case r of
        None \<Rightarrow> Inr (fl\<lparr>fl_nodes := nodes\<rparr>, None)
      | Some al \<Rightarrow>
          bindR (give_back (al_front al) (fl_head fl, nodes)) (\<lambda>chain.
          bindR (give_back (al_back al) chain) (\<lambda>(head, nodes').
          bindR (uadd (fl_allocated_space fl) (hi_size (al_info al))) (\<lambda>alloc'.
          bindR (usub (fl_free_space fl) (hi_size (al_info al))) (\<lambda>free'.
          bindR (guardR (hi_addr (al_info al) \<noteq> 0) UnwrapNone) (\<lambda>_.
          Inr (fl\<lparr>fl_head := head, fl_nodes := nodes', fl_allocated_space := alloc',
                  fl_free_space := free'\<rparr>, Some (hi_addr (al_info al)))))))))"

definition fl_deallocate :: "free_list \<Rightarrow> usize \<Rightarrow> layout \<Rightarrow> free_list res" where
  "fl_deallocate fl ptr l =
     bindR (deallocate_from_hole_info (fl_head fl) (fl_nodes fl)
              \<lparr>hi_addr = ptr, hi_size = lay_size l\<rparr>) (\<lambda>(head, nodes).
     bindR (usub (fl_allocated_space fl) (lay_size l)) (\<lambda>alloc'.
     bindR (uadd (fl_free_space fl) (lay_size l)) (\<lambda>free'.
     Inr (fl\<lparr>fl_head := head, fl_nodes := nodes, fl_allocated_space := alloc',
             fl_free_space := free'\<rparr>))))"

definition node_count :: "free_list \<Rightarrow> usize" where
  "node_count fl = length (fl_nodes fl)"

section \<open>Coalesced lists\<close>

text \<open>
  The free bytes a chain of holes describes, and the shape of a chain: ascending, with a
  gap between any two holes and below the first, every hole aligned and large enough for
  a node. \<open>e\<close> is the end of what precedes the chain.
\<close>

abbreviation hi_end :: "hole_info \<Rightarrow> usize" where
  "hi_end h \<equiv> hi_addr h + hi_size h"

definition hole_bytes :: "hole_info \<Rightarrow> usize set" where
  "hole_bytes h = {hi_addr h ..< hi_end h}"

definition chain_bytes :: "hole_info list \<Rightarrow> usize set" where
  "chain_bytes hs = (\<Union>h \<in> set hs. hole_bytes h)"

definition hole_ok :: "hole_info \<Rightarrow> bool" where
  "hole_ok h \<longleftrightarrow> FREE_NODE_SIZE \<le> hi_size h \<and> FREE_NODE_ALIGN dvd hi_addr h
     \<and> FREE_NODE_ALIGN dvd hi_size h \<and> hi_end h + FREE_NODE_ALIGN < usize_limit"

fun chain_ok :: "usize \<Rightarrow> hole_info list \<Rightarrow> bool" where
  "chain_ok e [] \<longleftrightarrow> True"
| "chain_ok e (h # hs) \<longleftrightarrow> e < hi_addr h \<and> hole_ok h \<and> chain_ok (hi_end h) hs"

lemma chain_bytes_simps [simp]:
  "chain_bytes [] = {}" "chain_bytes (h # hs) = hole_bytes h \<union> chain_bytes hs"
  by (simp_all add: chain_bytes_def)

lemma hole_okD:
  assumes "hole_ok h"
  shows "16 \<le> hi_size h" "8 dvd hi_addr h" "8 dvd hi_size h" "hi_end h + 8 < usize_limit" "0 < hi_size h"
  using assms by (auto simp: hole_ok_def FREE_NODE_SIZE_def FREE_NODE_ALIGN_def)

lemma chain_bytes_above: "chain_ok e hs \<Longrightarrow> b \<in> chain_bytes hs \<Longrightarrow> e < b"
proof (induction hs arbitrary: e)
  case (Cons h hs)
  then have "chain_ok (hi_end h) hs" "e < hi_addr h" by auto
  moreover have "b \<in> hole_bytes h \<or> hi_end h < b" using Cons by auto
  ultimately show ?case by (auto simp: hole_bytes_def)
qed simp

lemma finite_chain [simp]: "finite (chain_bytes hs)"
  by (simp add: chain_bytes_def hole_bytes_def)

lemma chain_ok_mono: "chain_ok e hs \<Longrightarrow> e' \<le> e \<Longrightarrow> chain_ok e' hs"
  by (cases hs) auto

lemma chain_holes_ok: "chain_ok e hs \<Longrightarrow> h \<in> set hs \<Longrightarrow> hole_ok h \<and> e < hi_addr h"
  by (induction hs arbitrary: e) fastforce+

text \<open>A coalesced chain is determined by the bytes it describes.\<close>

lemma chain_end_gap: "chain_ok e (h # hs) \<Longrightarrow> hi_end h \<notin> chain_bytes (h # hs)"
  using chain_bytes_above [of "hi_end h" hs "hi_end h"] by (auto simp: hole_bytes_def)

lemma chain_first:
  assumes "chain_ok e (h # hs)" and "chain_ok e' (g # gs)" and "chain_bytes (h # hs) = chain_bytes (g # gs)"
  shows "hi_addr h = hi_addr g" and "hi_size h = hi_size g"
proof -
  have mem: "hi_addr h \<in> chain_bytes (h # hs)" "hi_addr g \<in> chain_bytes (g # gs)"
    using hole_okD(5) assms by (auto simp: hole_bytes_def)
  have least: "hi_addr h \<le> b" if "b \<in> chain_bytes (h # hs)" for b
    using that assms(1) chain_bytes_above [of "hi_end h" hs b] by (auto simp: hole_bytes_def)
  have least': "hi_addr g \<le> b" if "b \<in> chain_bytes (g # gs)" for b
    using that assms(2) chain_bytes_above [of "hi_end g" gs b] by (auto simp: hole_bytes_def)
  have "hi_addr h \<le> hi_addr g" by (rule least) (simp only: assms(3) mem(2))
  moreover have "hi_addr g \<le> hi_addr h" by (rule least') (simp only: assms(3) [symmetric] mem(1))
  ultimately show a: "hi_addr h = hi_addr g" by simp
  have "\<not> hi_size h < hi_size g"
  proof
    assume "hi_size h < hi_size g"
    then have "hi_end h \<in> chain_bytes (g # gs)" using a by (simp add: hole_bytes_def)
    then show False using chain_end_gap [OF assms(1)] assms(3) by blast
  qed
  moreover have "\<not> hi_size g < hi_size h"
  proof
    assume "hi_size g < hi_size h"
    then have "hi_end g \<in> chain_bytes (h # hs)" using a by (simp add: hole_bytes_def)
    then show False using chain_end_gap [OF assms(2)] assms(3) by blast
  qed
  ultimately show "hi_size h = hi_size g" by simp
qed

lemma chain_unique:
  "chain_ok e hs \<Longrightarrow> chain_ok e' gs \<Longrightarrow> chain_bytes hs = chain_bytes gs \<Longrightarrow> hs = gs"
proof (induction hs arbitrary: e e' gs)
  case Nil
  then show ?case using hole_okD(5) by (cases gs) (fastforce simp: hole_bytes_def)+
next
  case (Cons h hs)
  then obtain g gs' where gs: "gs = g # gs'" using hole_okD(5) by (cases gs) (fastforce simp: hole_bytes_def)+
  note f = chain_first [OF Cons.prems(1) Cons.prems(2) [unfolded gs] Cons.prems(3) [unfolded gs]]
  then have hg: "h = g" by simp
  have "hole_bytes h \<inter> chain_bytes hs = {}" "hole_bytes g \<inter> chain_bytes gs' = {}"
    using Cons.prems(1,2) gs chain_bytes_above by (fastforce simp: hole_bytes_def)+
  then have "chain_bytes hs = chain_bytes gs'" using Cons.prems(3) gs hg by auto
  then show ?case using Cons.IH [of "hi_end h" "hi_end g" gs'] Cons.prems(1,2) gs hg by simp
qed

section \<open>Deallocation\<close>

definition node_end :: "hole_info \<Rightarrow> usize" where
  "node_end node = (if hi_size node = 0 then 0 else hi_addr node) + hi_size node"

text \<open>What the loop leaves behind a node: the node may only have grown, over the hole.\<close>

definition merged :: "hole_info \<Rightarrow> hole_info list \<Rightarrow> hole_info \<Rightarrow> hole_info \<Rightarrow> hole_info list \<Rightarrow> bool" where
  "merged node rest hole node' rest' \<longleftrightarrow> hi_addr node' = hi_addr node \<and> hi_size node \<le> hi_size node'
     \<and> FREE_NODE_ALIGN dvd hi_size node' \<and> node_end node' + FREE_NODE_ALIGN < usize_limit
     \<and> (node_end node < hi_addr hole \<longrightarrow> node' = node) \<and> chain_ok (node_end node') rest'
     \<and> {node_end node ..< node_end node'} \<union> chain_bytes rest' = hole_bytes hole \<union> chain_bytes rest"

definition mergeable :: "hole_info \<Rightarrow> hole_info list \<Rightarrow> hole_info \<Rightarrow> bool" where
  "mergeable node rest hole \<longleftrightarrow> chain_ok (node_end node) rest \<and> hole_ok hole \<and> 0 < hi_addr hole
     \<and> node_end node \<le> hi_addr hole \<and> FREE_NODE_ALIGN dvd hi_size node
     \<and> hole_bytes hole \<inter> chain_bytes rest = {}"

lemma holes_apart:
  assumes "hole_bytes h \<inter> hole_bytes g = {}" and "hole_ok h" and "hole_ok g"
  shows "hi_end h \<le> hi_addr g \<or> hi_end g \<le> hi_addr h"
proof (rule ccontr)
  assume "\<not> ?thesis"
  then have "max (hi_addr h) (hi_addr g) \<in> hole_bytes h \<inter> hole_bytes g"
    using hole_okD(5) [OF assms(2)] hole_okD(5) [OF assms(3)] by (auto simp: hole_bytes_def)
  then show False using assms(1) by blast
qed

lemma merged_grow:
  assumes m: "mergeable node rest hole" and e: "node_end node = hi_addr hole"
    and s: "hi_size node' = hi_size node + (hi_size hole + n)" "hi_addr node' = hi_addr node"
    and n: "FREE_NODE_ALIGN dvd n" "hi_end hole + n + FREE_NODE_ALIGN < usize_limit"
    and c: "chain_ok (hi_end hole + n) rest'"
      "chain_bytes rest' \<union> {hi_end hole ..< hi_end hole + n} = chain_bytes rest"
  shows "merged node rest hole node' rest'"
proof -
  have nz: "hi_size node \<noteq> 0" using e m by (auto simp: mergeable_def node_end_def)
  then have ne: "node_end node' = hi_end hole + n" using e s by (simp add: node_end_def)
  have "{node_end node ..< node_end node'} = hole_bytes hole \<union> {hi_end hole ..< hi_end hole + n}"
    unfolding ne e hole_bytes_def by auto
  then show ?thesis
    using m s n c ne e unfolding merged_def mergeable_def hole_ok_def by auto
qed

lemma merged_insert:
  assumes m: "mergeable node rest hole" and e: "node_end node < hi_addr hole"
    and c: "chain_ok (hi_end hole) rest" and b: "node_end node + FREE_NODE_ALIGN < usize_limit"
  shows "merged node rest hole node (hole # rest)"
  using assms by (auto simp: merged_def mergeable_def)

lemma deallocate_loop_Cons:
  assumes m: "mergeable node (nx # rest) hole"
  shows "deallocate_loop node (nx # rest) hole =
    (if node_end node = hi_addr hole \<and> hi_end hole = hi_addr nx
     then Inr (node\<lparr>hi_size := hi_size node + (hi_size hole + hi_size nx)\<rparr>, rest)
     else if node_end node = hi_addr hole
     then Inr (node\<lparr>hi_size := hi_size node + hi_size hole\<rparr>, nx # rest)
     else if hi_end hole = hi_addr nx
     then deallocate_loop node rest (hole\<lparr>hi_size := hi_size hole + hi_size nx\<rparr>)
     else if hi_addr nx \<le> hi_addr hole
     then bindR (deallocate_loop nx rest hole) (\<lambda>(next', rest'). Inr (node, next' # rest'))
     else Inr (node, hole # nx # rest))"
proof -
  have h: "hole_ok hole" "node_end node \<le> hi_addr hole" "hi_addr hole mod FREE_NODE_ALIGN = 0" "hole_ok nx"
    using m by (auto simp: mergeable_def hole_ok_def)
  note hd = hole_okD [OF h(1)] and nd = hole_okD [OF h(4)]
  have "uadd (if hi_size node = 0 then 0 else hi_addr node) (hi_size node) = Inr (node_end node)"
    using h(2) hd(4) by (subst uadd_Inr) (auto simp: node_end_def)
  moreover have "hi_size hole + hi_size nx < usize_limit" if "hi_end hole = hi_addr nx"
    using that nd(4) by simp
  moreover have "hi_size node + (hi_size hole + hi_size nx) < usize_limit"
    if "node_end node = hi_addr hole" "hi_end hole = hi_addr nx"
    using that nd(4) by (simp add: node_end_def split: if_splits)
  moreover have "hi_size node + hi_size hole < usize_limit" if "node_end node = hi_addr hole"
    using that hd(4) by (simp add: node_end_def split: if_splits)
  ultimately show ?thesis using h hd(4) by (simp add: guardR_def)
qed

lemma deallocate_loop_Nil:
  assumes m: "mergeable node [] hole"
  shows "\<exists>node' rest'. deallocate_loop node [] hole = Inr (node', rest') \<and> merged node [] hole node' rest'"
proof -
  have h: "hole_ok hole" "node_end node \<le> hi_addr hole" "hi_addr hole mod FREE_NODE_ALIGN = 0"
    using m by (auto simp: mergeable_def hole_ok_def)
  note hd = hole_okD [OF h(1)]
  have lim: "node_end node + FREE_NODE_ALIGN < usize_limit"
    using hd(4) h(2) by (simp add: FREE_NODE_ALIGN_def)
  show ?thesis
  proof (cases "node_end node = hi_addr hole")
    case True
    have "hi_size node + hi_size hole < usize_limit" using True hd(4) by (simp add: node_end_def split: if_splits)
    moreover have "merged node [] hole (node\<lparr>hi_size := hi_size node + hi_size hole\<rparr>) []"
      using hd(4) by (intro merged_grow [OF m True, where n = 0]) (simp_all add: FREE_NODE_ALIGN_def)
    ultimately show ?thesis
      using True lim by (simp add: node_end_def FREE_NODE_ALIGN_def)
  next
    case False
    then have "merged node [] hole node [hole]" using h(2) lim by (intro merged_insert [OF m]) auto
    then show ?thesis
      using False h lim by (simp add: node_end_def FREE_NODE_ALIGN_def)
  qed
qed

text \<open>The two ways the loop goes on: over the next hole, or with the next hole absorbed.\<close>

lemma merged_step:
  assumes m: "mergeable node (nx # rest) hole" and le: "hi_end nx \<le> hi_addr hole"
    and r: "merged nx rest hole nx' rest'"
  shows "merged node (nx # rest) hole node (nx' # rest')"
proof -
  have nx: "hole_ok nx" "node_end node < hi_addr nx" using m by (auto simp: mergeable_def)
  have ne: "node_end nx = hi_end nx" "node_end nx' = hi_end nx'"
    using hole_okD(5) [OF nx(1)] r by (auto simp: node_end_def merged_def)
  have a: "hi_addr nx' = hi_addr nx" "hi_size nx \<le> hi_size nx'" using r by (auto simp: merged_def)
  have ok: "hole_ok nx'" using r nx(1) ne by (auto simp: merged_def hole_ok_def)
  have "hole_bytes nx' = hole_bytes nx \<union> {node_end nx ..< node_end nx'}"
    unfolding ne hole_bytes_def using a by auto
  then have b: "chain_bytes (nx' # rest') = hole_bytes hole \<union> chain_bytes (nx # rest)"
    using r by (auto simp: merged_def)
  have "node_end node + FREE_NODE_ALIGN < usize_limit"
    using nx hole_okD(4) [OF nx(1)] by (simp add: FREE_NODE_ALIGN_def)
  moreover have "chain_ok (node_end node) (nx' # rest')" using r nx(2) a ok ne by (simp add: merged_def)
  ultimately show ?thesis using b m by (simp add: merged_def mergeable_def)
qed

lemma mergeable_step:
  assumes m: "mergeable node (nx # rest) hole" and le: "hi_end nx \<le> hi_addr hole"
  shows "mergeable nx rest hole"
proof -
  have "hole_ok nx" using m by (simp add: mergeable_def)
  then have "node_end nx = hi_end nx" "FREE_NODE_ALIGN dvd hi_size nx"
    using hole_okD(5) [of nx] by (auto simp: node_end_def hole_ok_def)
  then show ?thesis using m le by (auto simp: mergeable_def)
qed

lemma mergeable_absorb:
  assumes m: "mergeable node (nx # rest) hole" and e: "hi_end hole = hi_addr nx"
  shows "mergeable node rest (hole\<lparr>hi_size := hi_size hole + hi_size nx\<rparr>)"
    and "hole_bytes (hole\<lparr>hi_size := hi_size hole + hi_size nx\<rparr>) = hole_bytes hole \<union> hole_bytes nx"
proof -
  let ?h = "hole\<lparr>hi_size := hi_size hole + hi_size nx\<rparr>"
  have nx: "hole_ok nx" "hole_ok hole" "chain_ok (hi_end nx) rest" using m by (auto simp: mergeable_def)
  show b: "hole_bytes ?h = hole_bytes hole \<union> hole_bytes nx" unfolding hole_bytes_def using e by auto
  have en: "hi_end ?h = hi_end nx" using e by simp
  have "hole_ok ?h"
    using nx en hole_okD(1) [OF nx(2)] unfolding hole_ok_def FREE_NODE_SIZE_def by auto
  moreover have "chain_ok (node_end node) rest"
    using nx(3) m by (intro chain_ok_mono [OF nx(3)]) (auto simp: mergeable_def)
  moreover have "hole_bytes nx \<inter> chain_bytes rest = {}"
    using chain_bytes_above [OF nx(3)] by (fastforce simp: hole_bytes_def)
  ultimately show "mergeable node rest ?h" using m b by (auto simp: mergeable_def)
qed

lemma deallocate_loop_spec:
  "mergeable node rest hole \<Longrightarrow> \<exists>node' rest'. deallocate_loop node rest hole = Inr (node', rest')
     \<and> merged node rest hole node' rest'"
proof (induction rest arbitrary: node hole)
  case Nil
  then show ?case by (rule deallocate_loop_Nil)
next
  case (Cons nx rest)
  note m = Cons.prems and eq = deallocate_loop_Cons [OF Cons.prems]
  have h: "hole_ok hole" "hole_ok nx" "node_end node \<le> hi_addr hole" "chain_ok (hi_end nx) rest"
    using m by (auto simp: mergeable_def)
  note hd = hole_okD [OF h(1)] and nd = hole_okD [OF h(2)]
  have apart: "hi_end hole \<le> hi_addr nx \<or> hi_end nx \<le> hi_addr hole"
    using m by (intro holes_apart) (auto simp: mergeable_def)
  have lim: "node_end node + FREE_NODE_ALIGN < usize_limit"
    using hd(4) h(3) by (simp add: FREE_NODE_ALIGN_def)
  show ?case
  proof (cases "hi_end hole = hi_addr nx"; cases "node_end node = hi_addr hole")
    assume a: "hi_end hole = hi_addr nx" "node_end node = hi_addr hole"
    have "merged node (nx # rest) hole (node\<lparr>hi_size := hi_size node + (hi_size hole + hi_size nx)\<rparr>) rest"
      using a(1) nd h(4) by (intro merged_grow [OF m a(2), where n = "hi_size nx"])
        (auto simp: FREE_NODE_ALIGN_def hole_bytes_def)
    then show ?thesis using a eq by simp
  next
    assume a: "hi_end hole \<noteq> hi_addr nx" "node_end node = hi_addr hole"
    have "\<not> hi_end nx \<le> hi_addr hole" using a(2) m by (auto simp: mergeable_def)
    then have "hi_end hole < hi_addr nx" using a apart by simp
    then have "merged node (nx # rest) hole (node\<lparr>hi_size := hi_size node + hi_size hole\<rparr>) (nx # rest)"
      using hd(4) m by (intro merged_grow [OF m a(2), where n = 0])
        (auto simp: FREE_NODE_ALIGN_def mergeable_def)
    then show ?thesis using a eq by simp
  next
    assume a: "hi_end hole = hi_addr nx" "node_end node \<noteq> hi_addr hole"
    let ?h = "hole\<lparr>hi_size := hi_size hole + hi_size nx\<rparr>"
    from Cons.IH [OF mergeable_absorb(1) [OF m a(1)]] obtain node' rest' where
      r: "deallocate_loop node rest ?h = Inr (node', rest')" "merged node rest ?h node' rest'" by blast
    have "merged node (nx # rest) hole node' rest'"
      using r(2) mergeable_absorb(2) [OF m a(1)] by (auto simp: merged_def)
    then show ?thesis using a eq r(1) by simp
  next
    assume a: "hi_end hole \<noteq> hi_addr nx" "node_end node \<noteq> hi_addr hole"
    show ?thesis
    proof (cases "hi_addr nx \<le> hi_addr hole")
      case True
      then have le: "hi_end nx \<le> hi_addr hole" using apart hd(5) by auto
      from Cons.IH [OF mergeable_step [OF m le]] obtain nx' rest' where
        r: "deallocate_loop nx rest hole = Inr (nx', rest')" "merged nx rest hole nx' rest'" by blast
      then show ?thesis using a True eq merged_step [OF m le r(2)] by simp
    next
      case False
      then have "chain_ok (hi_end hole) (nx # rest)" using a apart m by (auto simp: mergeable_def)
      then show ?thesis using False a eq h(3) merged_insert [OF m _ _ lim] by simp
    qed
  qed
qed

section \<open>Operations on a well-formed list\<close>

definition head_node :: hole_info where
  "head_node = \<lparr>hi_addr = 0, hi_size = 0\<rparr>"

text \<open>
  A well-formed free list over the bytes \<open>lo ..< hi\<close>: a coalesced chain inside the range and
  counters that account for every byte.
\<close>

definition fl_bytes :: "free_list \<Rightarrow> usize set" where
  "fl_bytes fl = chain_bytes (fl_nodes fl)"

definition fl_inv :: "usize \<Rightarrow> usize \<Rightarrow> free_list \<Rightarrow> bool" where
  "fl_inv lo hi fl \<longleftrightarrow> fl_head fl = head_node \<and> chain_ok 0 (fl_nodes fl) \<and> fl_bytes fl \<subseteq> {lo ..< hi}
     \<and> fl_free_space fl = card (fl_bytes fl) \<and> fl_allocated_space fl + fl_free_space fl = hi - lo
     \<and> 0 < lo \<and> lo \<le> hi \<and> hi + FREE_NODE_ALIGN < usize_limit"

definition layout_ok :: "layout \<Rightarrow> bool" where
  "layout_ok l \<longleftrightarrow> is_power_of_two (lay_align l) \<and> FREE_NODE_ALIGN \<le> lay_align l
     \<and> FREE_NODE_SIZE \<le> lay_size l \<and> FREE_NODE_ALIGN dvd lay_size l"

lemma eight_power [simp]: "is_power_of_two FREE_NODE_ALIGN"
  using is_power_of_two_pow [of 3] by (simp add: FREE_NODE_ALIGN_def)

lemma node_align_pos [simp]: "0 < FREE_NODE_ALIGN"
  by (simp add: FREE_NODE_ALIGN_def)

lemma align_up_node: "FREE_NODE_ALIGN dvd a \<Longrightarrow> a + FREE_NODE_ALIGN < usize_limit \<Longrightarrow>
    align_up a FREE_NODE_ALIGN = Inr a"
  by (simp add: align_up_round_up round_up_id)

lemma deallocate_hole:
  assumes c: "chain_ok 0 nodes" and h: "hole_ok hole" "0 < hi_addr hole"
    and d: "hole_bytes hole \<inter> chain_bytes nodes = {}"
  shows "\<exists>nodes'. deallocate_from_hole_info head_node nodes hole = Inr (head_node, nodes')
           \<and> chain_ok 0 nodes' \<and> chain_bytes nodes' = chain_bytes nodes \<union> hole_bytes hole"
proof -
  have ne: "node_end head_node = 0" by (simp add: node_end_def head_node_def)
  have m: "mergeable head_node nodes hole"
    using assms by (simp add: mergeable_def ne) (simp add: head_node_def)
  from deallocate_loop_spec [OF m] obtain n' r where r: "deallocate_loop head_node nodes hole = Inr (n', r)"
      "merged head_node nodes hole n' r" by blast
  then have "n' = head_node" using h(2) by (simp add: merged_def ne)
  moreover have "deallocate_from_hole_info head_node nodes hole = deallocate_loop head_node nodes hole"
    using h(1) by (simp add: deallocate_from_hole_info_def hole_ok_def align_up_node)
  ultimately show ?thesis using r by (auto simp: merged_def ne)
qed

definition pad_bytes :: "hole_info option \<Rightarrow> usize set" where
  "pad_bytes p = (case p of None \<Rightarrow> {} | Some h \<Rightarrow> hole_bytes h)"

lemma pad_bytes_simps [simp]: "pad_bytes None = {}" "pad_bytes (Some h) = hole_bytes h"
  by (simp_all add: pad_bytes_def)

lemma give_back_spec:
  assumes c: "chain_ok 0 nodes" and h: "\<forall>h \<in> set_option p. hole_ok h \<and> 0 < hi_addr h"
    and d: "pad_bytes p \<inter> chain_bytes nodes = {}"
  shows "\<exists>nodes'. give_back p (head_node, nodes) = Inr (head_node, nodes')
           \<and> chain_ok 0 nodes' \<and> chain_bytes nodes' = chain_bytes nodes \<union> pad_bytes p"
proof (cases p)
  case None
  then show ?thesis using c by (simp add: give_back_def)
next
  case (Some hole)
  then show ?thesis using deallocate_hole [OF c, of hole] h d by (simp add: give_back_def)
qed

subsection \<open>First fit\<close>

definition hole_start :: "hole_info \<Rightarrow> layout \<Rightarrow> usize" where
  "hole_start h l = (if lay_align l dvd hi_addr h then hi_addr h
     else round_up (hi_addr h + FREE_NODE_SIZE) (lay_align l))"

text \<open>
  A hole serves a layout when what is left after the aligned allocation is nothing or room
  for another node.
\<close>

definition hole_fits :: "hole_info \<Rightarrow> layout \<Rightarrow> bool" where
  "hole_fits h l \<longleftrightarrow> hole_start h l + lay_size l = hi_end h
     \<or> hole_start h l + lay_size l + FREE_NODE_SIZE \<le> hi_end h"

definition carve :: "hole_info \<Rightarrow> layout \<Rightarrow> allocation" where
  "carve h l = (let s = hole_start h l in
     \<lparr>al_info = \<lparr>hi_addr = s, hi_size = lay_size l\<rparr>,
      al_front = (if lay_align l dvd hi_addr h then None
                  else Some \<lparr>hi_addr = hi_addr h, hi_size = s - hi_addr h\<rparr>),
      al_back = (if s + lay_size l = hi_end h then None
                 else Some \<lparr>hi_addr = s + lay_size l, hi_size = hi_end h - s - lay_size l\<rparr>)\<rparr>)"

lemma layout_okD:
  assumes "layout_ok l"
  shows "is_power_of_two (lay_align l)" "8 \<le> lay_align l" "16 \<le> lay_size l" "8 dvd lay_size l"
    "0 < lay_align l" "8 dvd lay_align l"
proof -
  show l: "is_power_of_two (lay_align l)" "8 \<le> lay_align l" "16 \<le> lay_size l" "8 dvd lay_size l"
    using assms by (auto simp: layout_ok_def FREE_NODE_ALIGN_def FREE_NODE_SIZE_def)
  then show "0 < lay_align l" by simp
  obtain k where k: "lay_align l = 2 ^ k" using l(1) by (auto simp: is_power_of_two_iff)
  have "3 \<le> k"
  proof (rule ccontr)
    assume "\<not> 3 \<le> k"
    then have "(2 :: nat) ^ k \<le> 2 ^ 2" by (intro power_increasing) auto
    then show False using l(2) k by simp
  qed
  then have "(2 :: nat) ^ 3 dvd 2 ^ k" by (rule le_imp_power_dvd)
  then show "8 dvd lay_align l" using k by simp
qed

lemma hole_start_bounds:
  assumes "layout_ok l"
  shows "hi_addr h \<le> hole_start h l" "lay_align l dvd hole_start h l"
    "hole_start h l < hi_addr h + FREE_NODE_SIZE + lay_align l"
    "\<not> lay_align l dvd hi_addr h \<Longrightarrow> hi_addr h + FREE_NODE_SIZE \<le> hole_start h l"
  using layout_okD(5) [OF assms] round_up_ge [of "lay_align l" "hi_addr h + FREE_NODE_SIZE"]
    round_up_less [of "lay_align l" "hi_addr h + FREE_NODE_SIZE"]
  by (auto simp: hole_start_def)

lemma allocate_from_hole_info_eq:
  assumes l: "layout_ok l" and h: "hole_ok h"
    and lim: "hi_end h + FREE_NODE_SIZE + lay_align l + lay_size l < usize_limit"
  shows "allocate_from_hole_info h l = Inr (if hole_fits h l then Some (carve h l) else None)"
proof -
  note ld = layout_okD [OF l] and sb = hole_start_bounds [OF l, of h]
  have rs: "align_up (lay_size l) FREE_NODE_ALIGN = Inr (lay_size l)"
    using l lim ld(2) by (intro align_up_node) (auto simp: layout_ok_def FREE_NODE_ALIGN_def)
  have up: "align_up (hi_addr h) (lay_align l) = Inr (round_up (hi_addr h) (lay_align l))"
      "align_up (hi_addr h + FREE_NODE_SIZE) (lay_align l)
         = Inr (round_up (hi_addr h + FREE_NODE_SIZE) (lay_align l))"
    using lim ld(1) by (simp_all add: align_up_round_up)
  have st: "(if round_up (hi_addr h) (lay_align l) = hi_addr h then Inr (hi_addr h, None)
       else bindR (uadd (hi_addr h) FREE_NODE_SIZE) (\<lambda>s. bindR (align_up s (lay_align l)) (\<lambda>aligned_start.
            bindR (usub aligned_start (hi_addr h)) (\<lambda>pad.
            Inr (aligned_start, Some \<lparr>hi_addr = hi_addr h, hi_size = pad\<rparr>)))))
     = Inr (hole_start h l, al_front (carve h l))"
    using up lim sb(1) ld(5) by (auto simp: round_up_eq_iff hole_start_def carve_def Let_def)
  have e: "uadd (hi_addr h) (hi_size h) = Inr (hi_end h)"
      "uadd (hole_start h l) (lay_size l) = Inr (hole_start h l + lay_size l)"
    using lim sb(3) by simp_all
  show ?thesis
    using l rs up(1) e sb(1) unfolding allocate_from_hole_info_def Let_def st
    by (auto simp: layout_ok_def st hole_fits_def carve_def Let_def)
qed

lemma carve_spec:
  assumes l: "layout_ok l" and h: "hole_ok h" and f: "hole_fits h l"
  shows "hole_bytes (al_info (carve h l)) \<union> pad_bytes (al_front (carve h l)) \<union> pad_bytes (al_back (carve h l))
           = hole_bytes h"
    and "hole_bytes (al_info (carve h l)) \<inter> pad_bytes (al_front (carve h l)) = {}"
    and "hole_bytes (al_info (carve h l)) \<inter> pad_bytes (al_back (carve h l)) = {}"
    and "pad_bytes (al_front (carve h l)) \<inter> pad_bytes (al_back (carve h l)) = {}"
    and "0 < hi_addr h \<Longrightarrow> \<forall>g \<in> set_option (al_front (carve h l)) \<union> set_option (al_back (carve h l)).
           hole_ok g \<and> 0 < hi_addr g"
proof -
  let ?s = "hole_start h l"
  note ld = layout_okD [OF l] and hd = hole_okD [OF h] and sb = hole_start_bounds [OF l, of h]
  have e: "?s + lay_size l = hi_end h \<or> ?s + lay_size l + 16 \<le> hi_end h"
    using f by (simp add: hole_fits_def FREE_NODE_SIZE_def)
  have d: "8 dvd ?s" using sb(2) ld(6) by (rule dvd_trans [rotated])
  show "hole_bytes (al_info (carve h l)) \<union> pad_bytes (al_front (carve h l)) \<union> pad_bytes (al_back (carve h l))
      = hole_bytes h"
    using sb(1) e by (auto simp: carve_def Let_def hole_bytes_def hole_start_def)
  show "hole_bytes (al_info (carve h l)) \<inter> pad_bytes (al_front (carve h l)) = {}"
      "hole_bytes (al_info (carve h l)) \<inter> pad_bytes (al_back (carve h l)) = {}"
      "pad_bytes (al_front (carve h l)) \<inter> pad_bytes (al_back (carve h l)) = {}"
    using sb(1) e by (auto simp: carve_def Let_def hole_bytes_def)
  have "8 dvd ?s - hi_addr h" "8 dvd hi_end h - ?s - lay_size l" "8 dvd ?s + lay_size l"
    using d hd(2,3) ld(4) by (auto intro: dvd_diff_nat dvd_add)
  then show "\<forall>g \<in> set_option (al_front (carve h l)) \<union> set_option (al_back (carve h l)).
      hole_ok g \<and> 0 < hi_addr g" if "0 < hi_addr h"
    using that e hd sb ld(3)
    by (auto simp: carve_def Let_def hole_ok_def FREE_NODE_SIZE_def FREE_NODE_ALIGN_def split: if_splits)
qed

text \<open>The search removes the first hole that fits, and only that.\<close>

lemma tail_allocate_spec:
  assumes l: "layout_ok l"
  shows "\<forall>h \<in> set hs. hole_ok h \<and> hi_end h + FREE_NODE_SIZE + lay_align l + lay_size l < usize_limit \<Longrightarrow>
    (if \<exists>h \<in> set hs. hole_fits h l
     then \<exists>xs h ys. hs = xs @ h # ys \<and> hole_fits h l \<and> (\<forall>x \<in> set xs. \<not> hole_fits x l)
            \<and> tail_allocate hs l = Inr (xs @ ys, Some (carve h l))
     else tail_allocate hs l = Inr (hs, None))"
proof (induction hs)
  case (Cons h hs)
  have eq: "allocate_from_hole_info h l = Inr (if hole_fits h l then Some (carve h l) else None)"
    using Cons.prems by (intro allocate_from_hole_info_eq [OF l]) auto
  show ?case
  proof (cases "hole_fits h l")
    case True
    then have "tail_allocate (h # hs) l = Inr ([] @ hs, Some (carve h l))" using eq by simp
    moreover have "\<exists>h \<in> set (h # hs). hole_fits h l" using True by simp
    ultimately show ?thesis
      using True unfolding if_P [OF \<open>\<exists>h \<in> set (h # hs). hole_fits h l\<close>]
      by (intro exI [of _ "[]"] exI [of _ h] exI [of _ hs] conjI) (simp_all only: append_Nil list.set, simp_all)
  next
    case False
    show ?thesis
    proof (cases "\<exists>h \<in> set hs. hole_fits h l")
      case True
      then obtain xs g ys where g: "hs = xs @ g # ys" "hole_fits g l" "\<forall>x \<in> set xs. \<not> hole_fits x l"
          "tail_allocate hs l = Inr (xs @ ys, Some (carve g l))" using Cons.IH Cons.prems by auto
      then have "tail_allocate (h # hs) l = Inr ((h # xs) @ ys, Some (carve g l))" using eq False by simp
      moreover have "\<exists>h \<in> set (h # hs). hole_fits h l" using True by simp
      ultimately show ?thesis
        using g False unfolding if_P [OF \<open>\<exists>h \<in> set (h # hs). hole_fits h l\<close>]
        by (intro exI [of _ "h # xs"] exI [of _ g] exI [of _ ys] conjI) (simp_all only: append_Cons list.set, simp_all)
    next
      case none: False
      then show ?thesis using Cons.IH Cons.prems eq False by simp
    qed
  qed
qed simp

lemma chain_ok_append_hole:
  "chain_ok e (xs @ h # ys) \<Longrightarrow> chain_ok e (xs @ ys) \<and> hole_bytes h \<inter> chain_bytes (xs @ ys) = {}
     \<and> hole_ok h \<and> e < hi_addr h"
proof (induction xs arbitrary: e)
  case Nil
  then have "chain_ok (hi_end h) ys" "hole_ok h" "e < hi_addr h" by auto
  then show ?case
    using chain_ok_mono [of "hi_end h" ys e] chain_bytes_above [of "hi_end h" ys]
    by (fastforce simp: hole_bytes_def)
next
  case (Cons x xs)
  then have IH: "chain_ok (hi_end x) (xs @ ys)" "hole_bytes h \<inter> chain_bytes (xs @ ys) = {}" "hole_ok h"
      "hi_end x < hi_addr h" and x: "e < hi_addr x" "hole_ok x" by auto
  have "hole_bytes h \<inter> hole_bytes x = {}" using IH(4) by (auto simp: hole_bytes_def)
  then show ?case using IH x by auto
qed

lemma chain_bytes_append: "chain_bytes (xs @ ys) = chain_bytes xs \<union> chain_bytes ys"
  by (auto simp: chain_bytes_def)

definition fits_limit :: "usize \<Rightarrow> layout \<Rightarrow> bool" where
  "fits_limit hi l \<longleftrightarrow> hi + FREE_NODE_SIZE + lay_align l + lay_size l < usize_limit"

lemma fl_holes_bounded:
  assumes inv: "fl_inv lo hi fl" and l: "fits_limit hi l"
  shows "\<forall>h \<in> set (fl_nodes fl). hole_ok h \<and> hi_end h + FREE_NODE_SIZE + lay_align l + lay_size l < usize_limit"
proof
  fix h
  assume h: "h \<in> set (fl_nodes fl)"
  have ok: "hole_ok h" using inv chain_holes_ok [OF _ h] by (auto simp: fl_inv_def)
  have "hi_end h - 1 \<in> fl_bytes fl"
    using h hole_okD(5) [OF ok] by (auto simp: fl_bytes_def chain_bytes_def hole_bytes_def intro!: bexI [of _ h])
  moreover have "fl_bytes fl \<subseteq> {lo ..< hi}" using inv by (simp add: fl_inv_def)
  ultimately have "hi_end h - 1 < hi" by auto
  then have "hi_end h \<le> hi" by simp
  then show "hole_ok h \<and> hi_end h + FREE_NODE_SIZE + lay_align l + lay_size l < usize_limit"
    using ok l by (simp add: fits_limit_def)
qed

lemma fl_allocate_none:
  assumes inv: "fl_inv lo hi fl" and l: "layout_ok l" "fits_limit hi l"
    and none: "\<forall>h \<in> set (fl_nodes fl). \<not> hole_fits h l"
  shows "fl_allocate fl l = Inr (fl, None)"
proof -
  note fl_holes_bounded [OF inv l(2)]
  then show ?thesis using tail_allocate_spec [OF l(1), of "fl_nodes fl"] none by (simp add: fl_allocate_def)
qed

lemma fl_allocate_some:
  assumes inv: "fl_inv lo hi fl" and l: "layout_ok l" "fits_limit hi l"
    and some: "\<exists>h \<in> set (fl_nodes fl). hole_fits h l"
  shows "\<exists>fl' p. fl_allocate fl l = Inr (fl', Some p) \<and> fl_inv lo hi fl' \<and> lay_align l dvd p
           \<and> {p ..< p + lay_size l} \<subseteq> fl_bytes fl \<and> fl_bytes fl' = fl_bytes fl - {p ..< p + lay_size l}
           \<and> fl_allocated_space fl' = fl_allocated_space fl + lay_size l"
proof -
  have fi: "fl_head fl = head_node" "chain_ok 0 (fl_nodes fl)" "fl_bytes fl \<subseteq> {lo ..< hi}"
      "fl_free_space fl = card (fl_bytes fl)" "fl_allocated_space fl + fl_free_space fl = hi - lo"
      "0 < lo" "lo \<le> hi" "hi + FREE_NODE_ALIGN < usize_limit" using inv by (simp_all add: fl_inv_def)
  obtain xs h ys where t: "fl_nodes fl = xs @ h # ys" "hole_fits h l"
      "tail_allocate (fl_nodes fl) l = Inr (xs @ ys, Some (carve h l))"
    using tail_allocate_spec [OF l(1) fl_holes_bounded [OF inv l(2)]] some by auto
  have c: "chain_ok 0 (xs @ ys)" "hole_bytes h \<inter> chain_bytes (xs @ ys) = {}" "hole_ok h" "0 < hi_addr h"
    using chain_ok_append_hole fi(2) t(1) by auto
  note cs = carve_spec [OF l(1) c(3) t(2)]
  let ?A = "carve h l"
  let ?I = "hole_bytes (al_info ?A)"
  obtain n1 where g1: "give_back (al_front ?A) (head_node, xs @ ys) = Inr (head_node, n1)" "chain_ok 0 n1"
      "chain_bytes n1 = chain_bytes (xs @ ys) \<union> pad_bytes (al_front ?A)"
    using give_back_spec [OF c(1), of "al_front ?A"] cs(1,5) c(2,4) by auto
  have d2: "pad_bytes (al_back ?A) \<inter> chain_bytes n1 = {}" using g1(3) cs(1,4) c(2) by blast
  obtain n2 where g2: "give_back (al_back ?A) (head_node, n1) = Inr (head_node, n2)" "chain_ok 0 n2"
      "chain_bytes n2 = chain_bytes n1 \<union> pad_bytes (al_back ?A)"
    using give_back_spec [OF g1(2) _ d2] cs(5) c(4) by auto
  have all: "fl_bytes fl = chain_bytes (xs @ ys) \<union> hole_bytes h"
    using t(1) by (auto simp: fl_bytes_def chain_bytes_append)
  have n2: "chain_bytes n2 = fl_bytes fl - ?I" using g1(3) g2(3) all cs(1-3) c(2) by blast
  have sub: "?I \<subseteq> fl_bytes fl" using all cs(1) by blast
  have I: "al_info ?A = \<lparr>hi_addr = hole_start h l, hi_size = lay_size l\<rparr>" "card ?I = lay_size l"
    by (simp_all add: carve_def Let_def hole_bytes_def)
  have cd: "card (fl_bytes fl) = card (chain_bytes n2) + lay_size l"
    using card_Diff_subset [OF _ sub] card_mono [OF _ sub] I(2) n2 by (simp add: fl_bytes_def hole_bytes_def)
  let ?fl = "fl\<lparr>fl_head := head_node, fl_nodes := n2, fl_allocated_space := fl_allocated_space fl + lay_size l,
      fl_free_space := fl_free_space fl - lay_size l\<rparr>"
  have pos: "hole_start h l \<noteq> 0" using hole_start_bounds(1) [OF l(1), of h] c(4) by simp
  have "fl_allocated_space fl + lay_size l < usize_limit" "lay_size l \<le> fl_free_space fl"
    using cd fi(4,5,8) by auto
  then have "fl_allocate fl l = Inr (?fl, Some (hole_start h l))"
    using t(3) g1(1) g2(1) fi(1) I(1) pos by (simp add: fl_allocate_def)
  moreover have "fl_inv lo hi ?fl"
    using fi g2(2) n2 cd by (auto simp: fl_inv_def fl_bytes_def)
  ultimately show ?thesis
    using n2 sub I(1) hole_start_bounds(2) [OF l(1), of h] by (auto simp: fl_bytes_def hole_bytes_def)
qed

lemma fl_deallocate_some:
  assumes inv: "fl_inv lo hi fl" and l: "layout_ok l" and p: "FREE_NODE_ALIGN dvd p"
    and r: "{p ..< p + lay_size l} \<subseteq> {lo ..< hi}" and d: "{p ..< p + lay_size l} \<inter> fl_bytes fl = {}"
  shows "\<exists>fl'. fl_deallocate fl p l = Inr fl' \<and> fl_inv lo hi fl'
           \<and> fl_bytes fl' = fl_bytes fl \<union> {p ..< p + lay_size l}
           \<and> lay_size l \<le> fl_allocated_space fl
           \<and> fl_allocated_space fl' = fl_allocated_space fl - lay_size l
           \<and> fl_free_space fl' = fl_free_space fl + lay_size l"
proof -
  have fi: "fl_head fl = head_node" "chain_ok 0 (fl_nodes fl)" "fl_bytes fl \<subseteq> {lo ..< hi}"
      "fl_free_space fl = card (fl_bytes fl)" "fl_allocated_space fl + fl_free_space fl = hi - lo"
      "0 < lo" "lo \<le> hi" "hi + FREE_NODE_ALIGN < usize_limit" using inv by (simp_all add: fl_inv_def)
  note ld = layout_okD [OF l]
  let ?h = "\<lparr>hi_addr = p, hi_size = lay_size l\<rparr>"
  have b: "hole_bytes ?h = {p ..< p + lay_size l}" by (simp add: hole_bytes_def)
  have pl: "lo \<le> p" "p + lay_size l \<le> hi" using r ld(3) by (auto simp: atLeastLessThan_subset_iff)
  have ok: "hole_ok ?h" "0 < hi_addr ?h"
    using l p pl fi(6,8) by (auto simp: hole_ok_def layout_ok_def)
  from deallocate_hole [OF fi(2) ok] d b obtain n where n:
    "deallocate_from_hole_info head_node (fl_nodes fl) ?h = Inr (head_node, n)" "chain_ok 0 n"
    "chain_bytes n = fl_bytes fl \<union> {p ..< p + lay_size l}" by (auto simp: fl_bytes_def)
  have cd: "card (chain_bytes n) = card (fl_bytes fl) + lay_size l"
    unfolding n(3) using d by (subst card_Un_disjoint) (auto simp: fl_bytes_def)
  have sub: "chain_bytes n \<subseteq> {lo ..< hi}" using n(3) r fi(3) by blast
  have le: "card (chain_bytes n) \<le> hi - lo" using card_mono [OF _ sub] by simp
  let ?fl = "fl\<lparr>fl_head := head_node, fl_nodes := n, fl_allocated_space := fl_allocated_space fl - lay_size l,
      fl_free_space := fl_free_space fl + lay_size l\<rparr>"
  have "lay_size l \<le> fl_allocated_space fl" "fl_free_space fl + lay_size l < usize_limit"
    using cd le fi(4,5,8) by auto
  then show ?thesis
    using n fi cd sub by (intro exI [of _ ?fl]) (auto simp: fl_deallocate_def fl_inv_def fl_bytes_def)
qed

lemma fl_eqI:
  assumes "fl_inv lo hi fl" and "fl_inv lo hi fl'" and "fl_bytes fl' = fl_bytes fl"
    and "fl_allocated_space fl' = fl_allocated_space fl"
  shows "fl' = fl"
proof -
  have "fl_nodes fl' = fl_nodes fl"
    using assms(1-3) chain_unique [of 0 "fl_nodes fl'" 0 "fl_nodes fl"] by (simp add: fl_inv_def fl_bytes_def)
  moreover have "fl_head fl' = fl_head fl" "fl_free_space fl' = fl_free_space fl"
    using assms by (simp_all add: fl_inv_def)
  ultimately show ?thesis using assms(4) by simp
qed

lemma free_list_new_spec:
  assumes "0 < start" and "FREE_NODE_ALIGN dvd limit" and "limit + FREE_NODE_ALIGN < usize_limit"
    and "round_up start FREE_NODE_ALIGN + FREE_NODE_SIZE \<le> limit"
  shows "\<exists>fl. free_list_new start limit = Inr fl \<and> fl_inv (round_up start FREE_NODE_ALIGN) limit fl
           \<and> fl_bytes fl = {round_up start FREE_NODE_ALIGN ..< limit} \<and> fl_allocated_space fl = 0"
proof -
  let ?s = "round_up start FREE_NODE_ALIGN"
  have s: "start \<le> ?s" by (simp add: round_up_ge)
  then have up: "align_up start FREE_NODE_ALIGN = Inr ?s" using assms(3,4) by (intro align_up_round_up) auto
  have ok: "hole_ok \<lparr>hi_addr = ?s, hi_size = limit - ?s\<rparr>"
    using assms by (auto simp: hole_ok_def)
  have b: "hole_bytes \<lparr>hi_addr = ?s, hi_size = limit - ?s\<rparr> = {?s ..< limit}"
    using assms(4) by (simp add: hole_bytes_def)
  have "FREE_NODE_SIZE \<le> limit - ?s" using assms(4) by simp
  then show ?thesis
    using up assms s ok b by (auto simp: free_list_new_def fl_inv_def fl_bytes_def head_node_def Let_def)
qed

text \<open>Freeing an address inside a free hole runs into the assertion at that hole.\<close>

lemma deallocate_loop_stops:
  assumes "hi_size node \<noteq> 0" and "hi_addr hole < hi_end node" and "hi_end node < usize_limit"
  shows "deallocate_loop node rest hole = Inl (Assertion ''Invalid deallocation'')"
  using assms by (cases rest) simp_all

lemma deallocate_loop_inside:
  "chain_ok (node_end node) rest \<Longrightarrow> hi_addr hole \<in> chain_bytes rest \<Longrightarrow> 0 < hi_size hole \<Longrightarrow>
   hi_end hole < usize_limit \<Longrightarrow> deallocate_loop node rest hole = Inl (Assertion ''Invalid deallocation'')"
proof (induction rest arbitrary: node)
  case (Cons nx rest)
  have nx: "node_end node < hi_addr nx" "hole_ok nx" "chain_ok (hi_end nx) rest" using Cons.prems(1) by auto
  have ne: "node_end nx = hi_end nx" using hole_okD(5) [OF nx(2)] by (simp add: node_end_def)
  have le: "hi_addr nx \<le> hi_addr hole"
    using Cons.prems(2) chain_bytes_above [OF nx(3)] by (fastforce simp: hole_bytes_def)
  have "deallocate_loop nx rest hole = Inl (Assertion ''Invalid deallocation'')"
  proof (cases "hi_addr hole \<in> hole_bytes nx")
    case True
    then show ?thesis
      using hole_okD [OF nx(2)] by (intro deallocate_loop_stops) (auto simp: hole_bytes_def)
  next
    case False
    then show ?thesis using Cons.IH [of nx] Cons.prems(2-4) nx(3) ne by simp
  qed
  moreover have "uadd (if hi_size node = 0 then 0 else hi_addr node) (hi_size node) = Inr (node_end node)"
    using nx(1) le Cons.prems(4) by (subst uadd_Inr) (auto simp: node_end_def)
  ultimately show ?case using nx(1) le Cons.prems(3,4) by simp
qed simp

section \<open>Properties\<close>

text \<open>A page-sized free list at address 4096, and a request for 100 bytes at alignment 64.\<close>

definition page_list :: free_list where
  "page_list = \<lparr>fl_head = head_node, fl_nodes = [\<lparr>hi_addr = 4104, hi_size = 4088\<rparr>],
     fl_allocated_space = 0, fl_free_space = 4088\<rparr>"

definition page_layout :: layout where
  "page_layout = \<lparr>lay_size = 104, lay_align = 64\<rparr>"

lemma page_list_ok:
  "fl_inv 4104 8192 page_list" "layout_ok page_layout" "fits_limit 8192 page_layout"
  "fl_bytes page_list = {4104 ..< 8192}"
proof -
  show b: "fl_bytes page_list = {4104 ..< 8192}"
    by (simp add: fl_bytes_def page_list_def hole_bytes_def)
  show "fl_inv 4104 8192 page_list"
    unfolding fl_inv_def b
    by (simp add: page_list_def hole_ok_def FREE_NODE_SIZE_def FREE_NODE_ALIGN_def usize_limit_def)
  show "layout_ok page_layout"
    using is_power_of_two_pow [of 6]
    by (simp add: layout_ok_def page_layout_def FREE_NODE_SIZE_def FREE_NODE_ALIGN_def)
qed (simp add: fits_limit_def page_layout_def FREE_NODE_SIZE_def usize_limit_def)



text \<open>
  C34. Freeing a block right after allocating it restores the free list exactly, node for node:
  the padding holes that allocation split off coalesce again with the freed block.
\<close>

theorem fl_allocate_deallocate_roundtrip:
  assumes "fl_inv lo hi fl" and "layout_ok l" and "fits_limit hi l"
    and "fl_allocate fl l = Inr (fl', Some p)"
  shows "fl_deallocate fl' p l = Inr fl"
proof -
  have "\<exists>h \<in> set (fl_nodes fl). hole_fits h l"
    using fl_allocate_none [OF assms(1-3)] assms(4) by auto
  from fl_allocate_some [OF assms(1-3) this] assms(4)
  have a: "fl_inv lo hi fl'" "lay_align l dvd p" "{p ..< p + lay_size l} \<subseteq> fl_bytes fl"
      "fl_bytes fl' = fl_bytes fl - {p ..< p + lay_size l}"
      "fl_allocated_space fl' = fl_allocated_space fl + lay_size l" by auto
  have p: "FREE_NODE_ALIGN dvd p"
    using a(2) layout_okD(6) [OF assms(2)] by (auto simp: FREE_NODE_ALIGN_def intro: dvd_trans)
  have "fl_bytes fl \<subseteq> {lo ..< hi}" using assms(1) by (simp add: fl_inv_def)
  with a(3) have "{p ..< p + lay_size l} \<subseteq> {lo ..< hi}" by (rule order_trans)
  moreover have "{p ..< p + lay_size l} \<inter> fl_bytes fl' = {}" using a(4) by blast
  ultimately obtain fl2 where b: "fl_deallocate fl' p l = Inr fl2" "fl_inv lo hi fl2"
      "fl_bytes fl2 = fl_bytes fl' \<union> {p ..< p + lay_size l}"
      "fl_allocated_space fl2 = fl_allocated_space fl' - lay_size l"
    using fl_deallocate_some [OF a(1) assms(2) p] by blast
  have "fl_bytes fl2 = fl_bytes fl" using b(3) a(3,4) by blast
  with b a(5) fl_eqI [OF assms(1) b(2)] show ?thesis by simp
qed

theorem fl_allocate_deallocate_roundtrip_witness:
  "\<exists>fl' p. fl_allocate page_list page_layout = Inr (fl', Some p) \<and> fl_deallocate fl' p page_layout = Inr page_list"
proof -
  have "hole_fits \<lparr>hi_addr = 4104, hi_size = 4088\<rparr> page_layout"
    by (simp add: hole_fits_def hole_start_def page_layout_def round_up_def FREE_NODE_SIZE_def)
  then have "\<exists>h \<in> set (fl_nodes page_list). hole_fits h page_layout" by (simp add: page_list_def)
  from fl_allocate_some [OF page_list_ok(1-3) this] obtain fl' p where
    "fl_allocate page_list page_layout = Inr (fl', Some p)" by blast
  with fl_allocate_deallocate_roundtrip [OF page_list_ok(1-3) this] show ?thesis by blast
qed

text \<open>
  C35. Freeing an allocated block of a well-formed list never panics: the block's bytes join
  the free set, neighbouring holes coalesce with it, and the counters move by its size.
\<close>

theorem fl_deallocate_correct:
  assumes "fl_inv lo hi fl" and "layout_ok l" and "FREE_NODE_ALIGN dvd p"
    and "{p ..< p + lay_size l} \<subseteq> {lo ..< hi}" and "{p ..< p + lay_size l} \<inter> fl_bytes fl = {}"
  shows "\<exists>fl'. fl_deallocate fl p l = Inr fl' \<and> fl_inv lo hi fl'
           \<and> fl_bytes fl' = fl_bytes fl \<union> {p ..< p + lay_size l}
           \<and> fl_allocated_space fl' = fl_allocated_space fl - lay_size l
           \<and> fl_free_space fl' = fl_free_space fl + lay_size l"
  using fl_deallocate_some [OF assms] by blast

text \<open>Two holes with an allocated block of 64 bytes between them.\<close>

definition gap_list :: free_list where
  "gap_list = \<lparr>fl_head = head_node,
     fl_nodes = [\<lparr>hi_addr = 4096, hi_size = 64\<rparr>, \<lparr>hi_addr = 4224, hi_size = 32\<rparr>],
     fl_allocated_space = 64, fl_free_space = 96\<rparr>"

lemma gap_list_ok:
  "fl_inv 4096 4256 gap_list" "fl_bytes gap_list = {4096 ..< 4160} \<union> {4224 ..< 4256}"
proof -
  show b: "fl_bytes gap_list = {4096 ..< 4160} \<union> {4224 ..< 4256}"
    by (simp add: fl_bytes_def gap_list_def hole_bytes_def)
  have "card ({4096 ..< 4160} \<union> {4224 ..< 4256 :: nat}) = 96" by (subst card_Un_disjoint) auto
  then show "fl_inv 4096 4256 gap_list"
    unfolding fl_inv_def b
    by (simp add: gap_list_def hole_ok_def FREE_NODE_SIZE_def FREE_NODE_ALIGN_def usize_limit_def)
qed

theorem fl_deallocate_correct_witness:
  "fl_inv 4096 4256 gap_list
   \<and> (\<exists>fl'. fl_deallocate gap_list 4160 \<lparr>lay_size = 64, lay_align = 8\<rparr> = Inr fl' \<and> fl_inv 4096 4256 fl'
        \<and> fl_bytes fl' = {4096 ..< 4256})"
proof -
  let ?l = "\<lparr>lay_size = 64, lay_align = 8\<rparr> :: layout"
  have l: "layout_ok ?l"
    using is_power_of_two_pow [of 3] by (simp add: layout_ok_def FREE_NODE_SIZE_def FREE_NODE_ALIGN_def)
  have h: "FREE_NODE_ALIGN dvd 4160" "{4160 ..< 4160 + lay_size ?l} \<subseteq> {4096 ..< 4256}"
      "{4160 ..< 4160 + lay_size ?l} \<inter> fl_bytes gap_list = {}"
    by (auto simp: FREE_NODE_ALIGN_def gap_list_ok(2))
  have "{4096 ..< 4160} \<union> {4224 ..< 4256} \<union> {4160 ..< 4224} = {4096 ..< 4256 :: nat}" by auto
  with fl_deallocate_correct [OF gap_list_ok(1) l h] show ?thesis
    using gap_list_ok by auto
qed

text \<open>
  C36. Freeing an address that lies inside a free hole, in particular freeing the same block
  twice, panics instead of corrupting the list.
\<close>

theorem fl_double_free_panics:
  assumes "fl_inv lo hi fl" and "layout_ok l" and "FREE_NODE_ALIGN dvd p" and "p \<in> fl_bytes fl"
    and "p + lay_size l + FREE_NODE_ALIGN < usize_limit"
  shows "fl_deallocate fl p l = Inl (Assertion ''Invalid deallocation'')"
proof -
  let ?h = "\<lparr>hi_addr = p, hi_size = lay_size l\<rparr>"
  have "hole_ok ?h" using assms(2,3,5) by (simp add: hole_ok_def layout_ok_def)
  then have "deallocate_from_hole_info head_node (fl_nodes fl) ?h = deallocate_loop head_node (fl_nodes fl) ?h"
    by (simp add: deallocate_from_hole_info_def hole_ok_def align_up_node)
  moreover have "deallocate_loop head_node (fl_nodes fl) ?h = Inl (Assertion ''Invalid deallocation'')"
    using assms layout_okD(3) [OF assms(2)]
    by (intro deallocate_loop_inside) (auto simp: fl_inv_def fl_bytes_def node_end_def head_node_def)
  ultimately show ?thesis using assms(1) by (simp add: fl_deallocate_def fl_inv_def)
qed

theorem fl_double_free_panics_witness:
  "fl_inv 4104 8192 page_list \<and> 4160 \<in> fl_bytes page_list
   \<and> fl_deallocate page_list 4160 page_layout = Inl (Assertion ''Invalid deallocation'')"
proof -
  have "FREE_NODE_ALIGN dvd 4160" "4160 + lay_size page_layout + FREE_NODE_ALIGN < usize_limit"
      "4160 \<in> fl_bytes page_list"
    by (simp_all add: FREE_NODE_ALIGN_def page_layout_def usize_limit_def page_list_ok)
  with fl_double_free_panics [OF page_list_ok(1,2), of 4160] page_list_ok show ?thesis by blast
qed

text \<open>
  C37. \<^verbatim>\<open>align_layout\<close> never panics on a valid layout of moderate size, and what it returns
  is large and aligned enough for the free list, covers the request, and adds less than a
  node to it.
\<close>

theorem align_layout_bounds:
  assumes "layout_valid l" and "lay_size l + 24 + lay_align l < usize_limit"
  shows "\<exists>l'. align_layout l = Inr (Some l') \<and> layout_valid l' \<and> layout_ok l'
     \<and> lay_size l \<le> lay_size l' \<and> lay_align l dvd lay_align l' \<and> lay_size l' < max (lay_size l) 16 + 8"
proof -
  let ?n = "max (lay_size l) 16" and ?a = "max (lay_align l) 8"
  have pw: "is_power_of_two (lay_align l)" using assms(1) by (simp add: layout_valid_def)
  have lim: "?n + 8 < usize_limit" using assms(2) by (auto simp: max_def usize_limit_def)
  have up: "align_up ?n 8 = Inr (round_up ?n 8)"
    using lim is_power_of_two_pow [of 3] by (intro align_up_round_up) simp_all
  have r: "?n \<le> round_up ?n 8" "round_up ?n 8 < ?n + 8" "8 dvd round_up ?n 8"
    by (rule round_up_ge, simp) (rule round_up_less, simp, rule round_up_dvd)
  obtain k where k: "lay_align l = 2 ^ k" using pw by (auto simp: is_power_of_two_iff)
  have a: "is_power_of_two ?a" using pw is_power_of_two_pow [of 3] by (simp add: max_def)
  have d: "lay_align l dvd ?a"
  proof (cases "lay_align l \<le> 8")
    case True
    then have "(2 :: nat) ^ k \<le> 2 ^ 3" using k by simp
    then have "k \<le> 3" using power_le_imp_le_exp [of "2 :: nat" k 3] by simp
    then have "(2 :: nat) ^ k dvd 2 ^ 3" by (rule le_imp_power_dvd)
    then show ?thesis using True k by (simp add: max_def)
  qed (simp add: max_def)
  have "round_up ?n 8 + (?a - 1) < usize_limit"
    using r(2) assms(2) by (auto simp: max_def usize_limit_def split: if_splits)
  then show ?thesis
    using up r a d
    by (auto simp: align_layout_def from_size_align_def layout_valid_def layout_ok_def Let_def
        min_alignment_def min_alloc_size_def FREE_NODE_ALIGN_def FREE_NODE_SIZE_def)
qed

theorem align_layout_bounds_witness:
  "layout_valid \<lparr>lay_size = 1, lay_align = 1\<rparr>
   \<and> (\<exists>l'. align_layout \<lparr>lay_size = 1, lay_align = 1\<rparr> = Inr (Some l') \<and> layout_ok l' \<and> lay_size l' < 24)"
proof -
  have v: "layout_valid \<lparr>lay_size = 1, lay_align = 1\<rparr>"
    using is_power_of_two_pow [of 0] by (simp add: layout_valid_def usize_limit_def)
  with align_layout_bounds [OF v] show ?thesis by (auto simp: usize_limit_def)
qed

text \<open>
  A new free list over a buffer whose end is aligned is well formed and entirely free.
\<close>

theorem free_list_new_all_free:
  assumes "0 < start" and "FREE_NODE_ALIGN dvd limit" and "limit + FREE_NODE_ALIGN < usize_limit"
    and "round_up start FREE_NODE_ALIGN + FREE_NODE_SIZE \<le> limit"
  shows "\<exists>fl. free_list_new start limit = Inr fl \<and> fl_inv (round_up start FREE_NODE_ALIGN) limit fl
           \<and> fl_bytes fl = {round_up start FREE_NODE_ALIGN ..< limit} \<and> fl_allocated_space fl = 0"
  by (rule free_list_new_spec [OF assms])

theorem free_list_new_all_free_witness:
  "\<exists>fl. free_list_new 4100 8192 = Inr fl \<and> fl_inv 4104 8192 fl \<and> fl_bytes fl = {4104 ..< 8192}"
proof -
  have "round_up 4100 FREE_NODE_ALIGN = 4104" by (simp add: round_up_def FREE_NODE_ALIGN_def)
  with free_list_new_all_free [of 4100 8192] show ?thesis
    by (simp add: FREE_NODE_ALIGN_def FREE_NODE_SIZE_def usize_limit_def) blast
qed

end
