(* ===== verification/Simple_Allocator.thy ===== *)
theory Simple_Allocator
  imports Region_Manager Free_List
begin

text \<open>
  \<^verbatim>\<open>src/src/allocator/simple_allocator.rs\<close> and \<^verbatim>\<open>src/src/allocator/mod.rs\<close>: the kernel heap, a
  list of heap regions that each carry a free list. A region's header lives at the start of
  its own memory; the model keeps the chain of headers behind the dummy head as a list, each
  header with its address. The size and the alignment of the header depend on the compiler's
  layout of the header type and are parameters.
\<close>

section \<open>Heap regions\<close>

record heap_layout =
  hl_region_size :: usize
  hl_region_align :: usize
  hl_table :: region_layout

datatype payload_region_alloc = Buffer usize usize | RegionAlloc region

record heap_region_payload =
  hp_alloc_region :: payload_region_alloc
  hp_can_free :: bool
  hp_free_list :: free_list

record heap_region =
  hr_address :: usize
  hr_payload :: "heap_region_payload option"

definition MINIMUM_HEAP_REGION_PAGES :: usize where "MINIMUM_HEAP_REGION_PAGES = 16"
definition MINIMUM_HEAP_REGION_SIZE :: usize where
  "MINIMUM_HEAP_REGION_SIZE = MINIMUM_HEAP_REGION_PAGES * PAGE_SIZE"
definition HEAP_RESERVE_LIMIT :: usize where "HEAP_RESERVE_LIMIT = 128"
definition INITIAL_HEAP_REGION_SIZE :: usize where "INITIAL_HEAP_REGION_SIZE = 128 * 1024"

text \<open>
  The \<^verbatim>\<open>&&\<close> of the source evaluates its right operand only when the left one holds, so a
  subtraction that underflows panics only then.
\<close>

definition alloc_contains :: "payload_region_alloc \<Rightarrow> usize \<Rightarrow> usize \<Rightarrow> bool res" where
  "alloc_contains a addr sz = (case a of
       Buffer start len \<Rightarrow>
         bindR (uadd start len) (\<lambda>limit.
         if addr \<ge> start then bindR (usub limit addr) (\<lambda>d. Inr (sz \<le> d)) else Inr False)
     | RegionAlloc r \<Rightarrow>
         bindR (region_start r) (\<lambda>start.
         if addr \<ge> start
         then bindR (region_limit r) (\<lambda>limit.
              if addr \<le> limit then bindR (usub limit addr) (\<lambda>d. Inr (sz \<le> d)) else Inr False)
         else Inr False))"

definition payload_allocate ::
  "heap_region_payload \<Rightarrow> layout \<Rightarrow> (heap_region_payload \<times> usize option) res" where
  "payload_allocate hp l =
     bindR (fl_allocate (hp_free_list hp) l) (\<lambda>(fl, r). Inr (hp\<lparr>hp_free_list := fl\<rparr>, r))"

definition payload_deallocate ::
  "heap_region_payload \<Rightarrow> usize \<Rightarrow> layout \<Rightarrow> (heap_region_payload \<times> unit option) res" where
  "payload_deallocate hp ptr l =
     bindR (alloc_contains (hp_alloc_region hp) ptr (lay_size l)) (\<lambda>c.
     if c then bindR (fl_deallocate (hp_free_list hp) ptr l) (\<lambda>fl. Inr (hp\<lparr>hp_free_list := fl\<rparr>, Some ()))
     else Inr (hp, None))"

definition hr_allocate :: "heap_region \<Rightarrow> layout \<Rightarrow> (heap_region \<times> usize option) res" where
  "hr_allocate r l = (case hr_payload r of
       None \<Rightarrow> Inr (r, None)
     | Some hp \<Rightarrow> bindR (payload_allocate hp l) (\<lambda>(hp', x). Inr (r\<lparr>hr_payload := Some hp'\<rparr>, x)))"

definition hr_deallocate :: "heap_region \<Rightarrow> usize \<Rightarrow> layout \<Rightarrow> (heap_region \<times> unit option) res" where
  "hr_deallocate r ptr l = (case hr_payload r of
       None \<Rightarrow> Inr (r, None)
     | Some hp \<Rightarrow> bindR (payload_deallocate hp ptr l) (\<lambda>(hp', x). Inr (r\<lparr>hr_payload := Some hp'\<rparr>, x)))"

definition hr_free_space :: "heap_region \<Rightarrow> usize" where
  "hr_free_space r = (case hr_payload r of None \<Rightarrow> 0 | Some hp \<Rightarrow> fl_free_space (hp_free_list hp))"

definition hr_allocated_space :: "heap_region \<Rightarrow> usize" where
  "hr_allocated_space r = (case hr_payload r of None \<Rightarrow> 0 | Some hp \<Rightarrow> fl_allocated_space (hp_free_list hp))"

definition hr_can_free :: "heap_region \<Rightarrow> bool" where
  "hr_can_free r = (case hr_payload r of None \<Rightarrow> False | Some hp \<Rightarrow> hp_can_free hp)"

section \<open>The list of regions\<close>

record heap_state =
  hs_regions :: "heap_region list"
  hs_kernel :: kstate

fun do_allocate :: "heap_region list \<Rightarrow> layout \<Rightarrow> (heap_region list \<times> usize option) res" where
  "do_allocate [] l = Inr ([], None)"
| "do_allocate (r # rs) l =
     bindR (hr_allocate r l) (\<lambda>(r', x). case x of
        Some p \<Rightarrow> Inr (r' # rs, Some p)
      | None \<Rightarrow> bindR (do_allocate rs l) (\<lambda>(rs', y). Inr (r' # rs', y)))"

fun do_deallocate ::
  "heap_region list \<Rightarrow> usize \<Rightarrow> layout \<Rightarrow> (heap_region list \<times> heap_region option) res" where
  "do_deallocate [] ptr l = Inl (PanicMsg ''Failed to deallocate pointer'')"
| "do_deallocate (r # rs) ptr l =
     bindR (hr_deallocate r ptr l) (\<lambda>(r', x). case x of
        Some _ \<Rightarrow> Inr (if hr_allocated_space r' = 0 then (rs, Some r') else (r' # rs, None))
      | None \<Rightarrow> bindR (do_deallocate rs ptr l) (\<lambda>(rs', y). Inr (r' # rs', y)))"

fun sum_space :: "(heap_region \<Rightarrow> usize) \<Rightarrow> heap_region list \<Rightarrow> usize \<Rightarrow> usize res" where
  "sum_space f [] acc = Inr acc"
| "sum_space f (r # rs) acc = bindR (uadd acc (f r)) (\<lambda>t. sum_space f rs t)"

definition free_space :: "heap_region list \<Rightarrow> usize res" where
  "free_space rs = sum_space hr_free_space rs 0"

definition allocated_space :: "heap_region list \<Rightarrow> usize res" where
  "allocated_space rs = sum_space hr_allocated_space rs 0"

text \<open>The number of pages that \<^verbatim>\<open>expand_and_allocate\<close> asks for.\<close>

definition expand_pages :: "heap_layout \<Rightarrow> layout \<Rightarrow> nat res" where
  "expand_pages hl l =
     bindR (align_up (hl_region_size hl) min_alignment) (\<lambda>header_size.
     bindR (align_up header_size (lay_align l)) (\<lambda>h.
     bindR (if header_size = h then Inr 0
            else bindR (uadd header_size min_alloc_size) (\<lambda>s.
                 bindR (align_up s (lay_align l)) (\<lambda>a. usub a header_size))) (\<lambda>front_padding_size.
     bindR (uadd header_size front_padding_size) (\<lambda>hf.
     bindR (uadd hf (lay_size l)) (\<lambda>required_size.
     bindR (align_up required_size PAGE_SIZE) (\<lambda>u.
     bindR (if header_size = u then Inr 0
            else bindR (uadd required_size min_alloc_size) (\<lambda>s.
                 bindR (align_up s PAGE_SIZE) (\<lambda>a. usub a required_size))) (\<lambda>back_padding_size.
     bindR (uadd required_size back_padding_size) (\<lambda>total.
     Inr (max total MINIMUM_HEAP_REGION_SIZE div PAGE_SIZE)))))))))"

text \<open>Writing the header of a new region into its memory.\<close>

definition region_header :: "heap_layout \<Rightarrow> payload_region_alloc \<Rightarrow> bool \<Rightarrow> usize \<Rightarrow> usize \<Rightarrow> heap_region res" where
  "region_header hl a can_free start limit =
     bindR (align_up start (hl_region_align hl)) (\<lambda>aligned_start.
     let size = limit - aligned_start in
     bindR (guardR (size \<ge> hl_region_size hl) (Assertion ''size >= size_of::<HeapRegion>()'')) (\<lambda>_.
     bindR (uadd aligned_start (hl_region_size hl)) (\<lambda>s.
     bindR (free_list_new s limit) (\<lambda>fl.
     Inr \<lparr>hr_address = aligned_start,
          hr_payload = Some \<lparr>hp_alloc_region = a, hp_can_free = can_free, hp_free_list = fl\<rparr>\<rparr>))))"

definition expand_and_allocate :: "heap_layout \<Rightarrow> layout \<Rightarrow> heap_state \<Rightarrow> (heap_state \<times> usize option) res" where
  "expand_and_allocate hl l hs =
     bindR (expand_pages hl l) (\<lambda>pages.
     bindR (allocate_region (hl_table hl) pages (hs_kernel hs)) (\<lambda>(ks, r). case r of
        Inl _ \<Rightarrow> Inr (hs\<lparr>hs_kernel := ks\<rparr>, None)
      | Inr reg \<Rightarrow>
          bindR (region_start reg) (\<lambda>start.
          bindR (region_limit reg) (\<lambda>limit.
          bindR (region_header hl (RegionAlloc reg) True start limit) (\<lambda>h.
          bindR (hr_allocate h l) (\<lambda>(h', x).
          bindR (unwrapR (Expectation ''Could not make allocation from new region'') x) (\<lambda>p.
          Inr (hs\<lparr>hs_regions := h' # hs_regions hs, hs_kernel := ks\<rparr>, Some p))))))))"

definition heap_alloc :: "heap_layout \<Rightarrow> layout \<Rightarrow> heap_state \<Rightarrow> (heap_state \<times> usize option) res" where
  "heap_alloc hl original_layout hs =
     bindR (align_layout original_layout) (\<lambda>x. case x of
        None \<Rightarrow> Inr (hs, None)
      | Some l \<Rightarrow>
          bindR (do_allocate (hs_regions hs) l) (\<lambda>(rs, r). case r of
             Some p \<Rightarrow> Inr (hs\<lparr>hs_regions := rs\<rparr>, Some p)
           | None \<Rightarrow> expand_and_allocate hl l (hs\<lparr>hs_regions := rs\<rparr>)))"

text \<open>Dropping a header runs the destructor of the region it owns; a buffer has none.\<close>

definition drop_heap_region :: "heap_region \<Rightarrow> kstate \<Rightarrow> kstate res" where
  "drop_heap_region r ks = (case hr_payload r of
       None \<Rightarrow> Inr ks
     | Some hp \<Rightarrow> (case hp_alloc_region hp of Buffer _ _ \<Rightarrow> Inr ks | RegionAlloc reg \<Rightarrow> region_drop reg ks))"

definition heap_deallocate :: "usize \<Rightarrow> layout \<Rightarrow> heap_state \<Rightarrow> heap_state res" where
  "heap_deallocate ptr original_layout hs =
     bindR (align_layout original_layout) (\<lambda>x. case x of
        None \<Rightarrow> Inr hs
      | Some l \<Rightarrow>
          bindR (do_deallocate (hs_regions hs) ptr l) (\<lambda>(rs, removed). case removed of
             None \<Rightarrow> Inr (hs\<lparr>hs_regions := rs\<rparr>)
           | Some r \<Rightarrow>
               bindR (if \<not> hr_can_free r then Inr True
                      else if hr_free_space r < MINIMUM_HEAP_REGION_SIZE
                           then bindR (free_space rs) (\<lambda>fs. Inr (fs < HEAP_RESERVE_LIMIT))
                           else Inr False) (\<lambda>keep.
               if keep then Inr (hs\<lparr>hs_regions := r # rs\<rparr>)
               else bindR (drop_heap_region r (hs_kernel hs)) (\<lambda>ks.
                    Inr (hs\<lparr>hs_regions := rs, hs_kernel := ks\<rparr>)))))"

section \<open>The global allocator\<close>

text \<open>
  \<^verbatim>\<open>SimpleAllocator::new\<close>: the first call, recorded in the static flag, builds the heap over the
  static buffer at \<open>buffer\<close>; a later call yields an empty heap.
\<close>

definition simple_allocator_new :: "heap_layout \<Rightarrow> usize \<Rightarrow> bool \<Rightarrow> (bool \<times> heap_region list) res" where
  "simple_allocator_new hl buffer initialized =
     (if initialized then Inr (True, [])
      else bindR (uadd buffer INITIAL_HEAP_REGION_SIZE) (\<lambda>region_end.
           bindR (region_header hl (Buffer buffer INITIAL_HEAP_REGION_SIZE) False buffer region_end) (\<lambda>h.
           Inr (True, [h]))))"

definition simple_alloc :: "heap_layout \<Rightarrow> layout \<Rightarrow> heap_state \<Rightarrow> (heap_state \<times> usize) res" where
  "simple_alloc hl l hs =
     bindR (heap_alloc hl l hs) (\<lambda>(hs', x). Inr (hs', case x of None \<Rightarrow> 0 | Some p \<Rightarrow> p))"

definition simple_dealloc :: "usize \<Rightarrow> layout \<Rightarrow> heap_state \<Rightarrow> heap_state res" where
  "simple_dealloc ptr l hs =
     bindR (guardR (ptr \<noteq> 0) UnwrapNone) (\<lambda>_. heap_deallocate ptr l hs)"

record alloc_state =
  as_impl :: "heap_region list init_mutex"
  as_initialized :: bool
  as_kernel :: kstate

definition allocator_init :: "heap_layout \<Rightarrow> usize \<Rightarrow> alloc_state \<Rightarrow> alloc_state res" where
  "allocator_init hl buffer as =
     bindR (simple_allocator_new hl buffer (as_initialized as)) (\<lambda>(b, rs).
     Inr (as\<lparr>as_impl := mutex_init (as_impl as) rs, as_initialized := b\<rparr>))"

definition global_alloc :: "heap_layout \<Rightarrow> layout \<Rightarrow> alloc_state \<Rightarrow> (alloc_state \<times> usize) res" where
  "global_alloc hl l as =
     bindR (guard_deref (as_impl as)) (\<lambda>rs.
     bindR (simple_alloc hl l \<lparr>hs_regions = rs, hs_kernel = as_kernel as\<rparr>) (\<lambda>(hs, p).
     Inr (as\<lparr>as_impl := Some (hs_regions hs), as_kernel := hs_kernel hs\<rparr>, p)))"

definition global_dealloc :: "usize \<Rightarrow> layout \<Rightarrow> alloc_state \<Rightarrow> alloc_state res" where
  "global_dealloc ptr l as =
     bindR (guard_deref (as_impl as)) (\<lambda>rs.
     bindR (simple_dealloc ptr l \<lparr>hs_regions = rs, hs_kernel = as_kernel as\<rparr>) (\<lambda>hs.
     Inr (as\<lparr>as_impl := Some (hs_regions hs), as_kernel := hs_kernel hs\<rparr>)))"

definition heap_allocated_space :: "alloc_state \<Rightarrow> usize res" where
  "heap_allocated_space as = bindR (guard_deref (as_impl as)) allocated_space"

definition heap_free_space :: "alloc_state \<Rightarrow> usize res" where
  "heap_free_space as = bindR (guard_deref (as_impl as)) free_space"

end
