(* ===== verification/Region_Invariant.thy ===== *)
theory Region_Invariant
  imports Region_Manager
begin

text \<open>
  The invariant of the region manager together with the address space: the region table
  partitions the heap's address range into adjacent entries with no two free neighbours, the
  pages of free entries are unmapped, and every frame behind an allocated entry or a table
  page is lent to exactly one of them. Allocating and freeing regions keep it.
\<close>

section \<open>Frames that change hands\<close>

lemma owns_kernel:
  assumes "pm_inv pm" and "user_owns pm f" and "f < NORMAL_REGION_FRAMES"
  shows "kernel_owns pm f"
proof -
  have "\<not> im_owns (high_region pm) f"
  proof
    assume "im_owns (high_region pm) f"
    then have "pm_pool f = 2" using assms(1) im_owns_contains by (simp add: pm_inv_def)
    then show False using assms(3) by (simp add: pm_pool_def split: if_splits)
  qed
  then show ?thesis using assms(2) by (simp add: user_owns_def)
qed

lemma lendable_cong:
  assumes "same_mem km k"
  shows "lendable k root F = lendable km root F"
  unfolding lendable_def same_mem_cong [OF assms] ..

text \<open>Frames that an operation takes from the free ones become lent.\<close>

definition takes :: "kmem \<Rightarrow> frame \<Rightarrow> frame set \<Rightarrow> kmem \<Rightarrow> bool" where
  "takes km root N km' \<longleftrightarrow> finite N \<and> N \<subseteq> user_free (km_phys km) - user_free (km_phys km')
     \<and> (\<forall>f \<in> N. \<forall>q. table_path q \<longrightarrow> node_from km' root q \<noteq> Some f)
     \<and> (\<forall>c. pm_lent (km_phys km) c + card {f \<in> N. pm_pool f = c} \<le> pm_lent (km_phys km') c)"

lemma lendable_takes:
  assumes inv: "tree_inv km root" and l: "lendable km root F" and k: "kept km root m km'" and t: "takes km root N km'"
  shows "lendable km' root (F \<union> N)"
proof -
  note pm = tree_invD(1) [OF inv] and pm' = tree_invD(1) [OF keptD(1) [OF k]]
  have dis: "F \<inter> N = {}" using l t by (auto simp: lendable_def takes_def)
  have fin: "finite F" "finite N" using l t by (simp_all add: lendable_def takes_def)
  have "card {f \<in> F \<union> N. pm_pool f = c} \<le> pm_lent (km_phys km') c" for c
  proof -
    have "{f \<in> F \<union> N. pm_pool f = c} = {f \<in> F. pm_pool f = c} \<union> {f \<in> N. pm_pool f = c}" by auto
    then have "card {f \<in> F \<union> N. pm_pool f = c} = card {f \<in> F. pm_pool f = c} + card {f \<in> N. pm_pool f = c}"
      using dis fin by (simp add: card_Un_disjoint disjoint_iff)
    moreover have "card {f \<in> F. pm_pool f = c} \<le> pm_lent (km_phys km) c" using l unfolding lendable_def by blast
    moreover have "pm_lent (km_phys km) c + card {f \<in> N. pm_pool f = c} \<le> pm_lent (km_phys km') c"
      using t unfolding takes_def by blast
    ultimately show ?thesis by linarith
  qed
  moreover have "user_owns (km_phys km') f \<and> f \<notin> user_free (km_phys km')
      \<and> (kernel_owns (km_phys km') f \<longrightarrow> identity_mapped f)
      \<and> (\<forall>q. table_path q \<longrightarrow> node_from km' root q \<noteq> Some f)" if "f \<in> F \<union> N" for f
  proof (cases "f \<in> F")
    case True
    then have f: "user_owns (km_phys km) f" "f \<notin> user_free (km_phys km)"
        "kernel_owns (km_phys km) f \<longrightarrow> identity_mapped f" "\<forall>q. table_path q \<longrightarrow> node_from km root q \<noteq> Some f"
      using l by (auto simp: lendable_def)
    have "identity_mapped f" if "kernel_owns (km_phys km') f"
      using f(3) owns_kernel [OF pm f(1) kernel_owns_below [OF pm' that]] by simp
    moreover have "f \<notin> kernel_free (km_phys km)" using f(2) by (auto simp: user_free_def)
    ultimately show ?thesis using f keptD(6,7,12) [OF k] by (metis subsetD)
  next
    case False
    then have f: "f \<in> user_free (km_phys km)" "f \<notin> user_free (km_phys km')"
        "\<forall>q. table_path q \<longrightarrow> node_from km' root q \<noteq> Some f"
      using that t by (auto simp: takes_def)
    have "identity_mapped f" if "kernel_owns (km_phys km') f"
      using kernel_owns_below [OF pm' that] f(1) kernel_free_user [OF pm] tree_invD(5) [OF inv] by auto
    then show ?thesis using f user_frames.free_owned [OF pm f(1)] keptD(7) [OF k] by simp
  qed
  ultimately show ?thesis using fin unfolding lendable_def by blast
qed

lemma takes_cong:
  assumes "same_mem km k" and "same_mem km' k'"
  shows "takes k root N k' = takes km root N km'"
  unfolding takes_def same_mem_cong [OF assms(1)] same_mem_cong [OF assms(2)] ..

text \<open>A kernel frame for the region table.\<close>

lemma kernel_frame_taken:
  assumes inv: "tree_inv km root" and fz: "free_zeroed km" and ne: "kernel_free (km_phys km) \<noteq> {}"
  shows "\<exists>pm f. allocate_kernel_frame (km_phys km) = Inr (pm, Some f) \<and> kept km root 1 (km\<lparr>km_phys := pm\<rparr>)
           \<and> takes km root {f} (km\<lparr>km_phys := pm\<rparr>) \<and> identity_mapped f"
proof -
  note pm = tree_invD(1) [OF inv]
  obtain pm' f where a: "allocate_kernel_frame (km_phys km) = Inr (pm', Some f)"
      "took kernel_free kernel_owns (km_phys km) pm' f" "high_region pm' = high_region (km_phys km)"
    using allocate_kernel_some [OF pm ne] by blast
  note t = took_user_of_kernel [OF pm a(2,3)]
  let ?k = "km\<lparr>km_phys := pm'\<rparr>"
  have "node_from ?k root q \<noteq> Some f" if "table_path q" for q
    using user_frame_no_node [OF inv tookD(1) [OF t] that] node_from_cong [of ?k km root q] by simp
  moreover have "{g \<in> {f}. pm_pool g = c} = (if pm_pool f = c then {f} else {})" for c by auto
  then have "pm_lent (km_phys km) c + card {g \<in> {f}. pm_pool g = c} \<le> pm_lent pm' c" for c
    using tookD(4) [OF t] by simp
  ultimately have "takes km root {f} ?k" using tookD(1,3) [OF t] by (simp add: takes_def)
  moreover have "identity_mapped f" by (rule tree_invD(5) [OF inv tookD(1) [OF a(2)]])
  ultimately show ?thesis using a(1) user_frame_kept [OF inv fz t] by blast
qed

section \<open>What mapping an entry does\<close>

abbreviation page_frame :: "kmem \<Rightarrow> frame \<Rightarrow> usize \<Rightarrow> frame" where
  "page_frame km root a \<equiv> pte_frame (lookup km root a)"

definition held_pages :: "kmem \<Rightarrow> frame \<Rightarrow> usize \<Rightarrow> nat \<Rightarrow> region_kind \<Rightarrow> usize set" where
  "held_pages km root base n kind =
     (if holds_frames kind then {a \<in> page_va base ` {..<n}. is_present (lookup km root a)} else {})"

definition maps_entry :: "kmem \<Rightarrow> frame \<Rightarrow> usize \<Rightarrow> nat \<Rightarrow> region_kind \<Rightarrow> kmem \<Rightarrow> bool" where
  "maps_entry km root base n kind km' \<longleftrightarrow> (\<exists>m. session km root m True km')
     \<and> inj_on (page_frame km' root) (held_pages km' root base n kind)
     \<and> takes km root (page_frame km' root ` held_pages km' root base n kind) km'
     \<and> (\<forall>a. vpn a \<notin> (\<lambda>i. vpn (page_va base i)) ` {..<n} \<longrightarrow> lookup km' root a = lookup km root a)"

text \<open>What the three kinds of mapping promise.\<close>

definition heap_backed :: "(usize \<Rightarrow> raw_pte) \<Rightarrow> usize \<Rightarrow> nat \<Rightarrow> bool" where
  "heap_backed m base n \<longleftrightarrow> (\<forall>i < n. is_present (m (page_va base i)) \<and> present_flags (m (page_va base i)) = HEAP_PAGE_FLAGS)"

definition stack_backed :: "(usize \<Rightarrow> raw_pte) \<Rightarrow> usize \<Rightarrow> nat \<Rightarrow> bool" where
  "stack_backed m base n \<longleftrightarrow> m base = 2 \<and> (\<forall>i. 0 < i \<and> i < n \<longrightarrow> is_present (m (page_va base i)))"

definition physically_backed :: "physical_mapping \<Rightarrow> (usize \<Rightarrow> raw_pte) \<Rightarrow> usize \<Rightarrow> nat \<Rightarrow> bool" where
  "physically_backed pmap m base n \<longleftrightarrow> (\<forall>i < n. is_present (m (page_va base i))
     \<and> present_flags (m (page_va base i)) = physical_mapping_page_flags (pmap_flags pmap)
     \<and> pte_frame (m (page_va base i)) = containing_address (pmap_address pmap) + i)"

lemma page_va_inj: "inj_on (page_va base) P"
  by (auto simp: inj_on_def page_va_def PAGE_SIZE_def)

lemma takes_image:
  assumes inj: "inj_on f P" and fin: "finite P"
    and f: "\<And>i. i \<in> P \<Longrightarrow> f i \<in> user_free (km_phys km) - user_free (km_phys km')"
      "\<And>i q. i \<in> P \<Longrightarrow> table_path q \<Longrightarrow> node_from km' root q \<noteq> Some (f i)"
    and lent: "\<And>c. pm_lent (km_phys km) c + card {i \<in> P. pm_pool (f i) = c} \<le> pm_lent (km_phys km') c"
  shows "takes km root (f ` P) km'"
proof -
  have "card {g \<in> f ` P. pm_pool g = c} = card {i \<in> P. pm_pool (f i) = c}" for c
  proof -
    have "{g \<in> f ` P. pm_pool g = c} = f ` {i \<in> P. pm_pool (f i) = c}" by auto
    then show ?thesis using inj by (simp add: card_image inj_on_subset)
  qed
  then show ?thesis using f lent fin by (auto simp: takes_def)
qed

lemma maps_entry_heap:
  assumes "tree_inv km (cr3_frame km)" and "free_zeroed km" and "\<not> km_page_lock km"
    and "PAGE_SIZE dvd base" and "0 < n" and "n \<le> 2 ^ 36" and "base + n * PAGE_SIZE < usize_limit"
    and "unmapped_pages km (cr3_frame km) base {..<n}"
    and "4 * n \<le> card (kernel_free (km_phys km))" and "\<forall>f \<in> user_free (km_phys km). f < 2 ^ 40"
  shows "\<exists>km'. map_nonpaged base (base + n * PAGE_SIZE) km = Inr (km', Inr ())
     \<and> maps_entry km (cr3_frame km) base n Heap km'
     \<and> (\<forall>i < n. is_present (page_entry km' (cr3_frame km) base i)
          \<and> present_flags (page_entry km' (cr3_frame km) base i) = HEAP_PAGE_FLAGS)"
proof -
  let ?r = "cr3_frame km"
  obtain km' where m: "map_nonpaged base (base + n * PAGE_SIZE) km = Inr (km', Inr ())"
      "session km ?r (4 * n) True km'" "fresh_pages km km' ?r base {..<n}"
    using map_nonpaged_spec [OF assms] by blast
  have H: "held_pages km' ?r base n Heap = page_va base ` {..<n}"
    using m(3) by (auto simp: held_pages_def holds_frames_def fresh_pages_def)
  have "inj_on (page_frame km' ?r) (page_va base ` {..<n})"
    using m(3) by (auto simp: fresh_pages_def inj_on_def)
  moreover have "takes km ?r ((\<lambda>i. page_frame km' ?r (page_va base i)) ` {..<n}) km'"
    using m(3) unfolding fresh_pages_def by (intro takes_image) auto
  moreover have "page_frame km' ?r ` page_va base ` {..<n} = (\<lambda>i. page_frame km' ?r (page_va base i)) ` {..<n}"
    by (simp add: image_image)
  moreover have "\<forall>a. vpn a \<notin> (\<lambda>i. vpn (page_va base i)) ` {..<n} \<longrightarrow> lookup km' ?r a = lookup km ?r a"
    using m(3) unfolding fresh_pages_def by blast
  ultimately have "maps_entry km ?r base n Heap km'" using m(2) unfolding maps_entry_def H by auto
  then show ?thesis using m(1,3) by (auto simp: fresh_pages_def)
qed

lemma maps_entry_stack:
  assumes "tree_inv km (cr3_frame km)" and "free_zeroed km" and "\<not> km_page_lock km"
    and "PAGE_SIZE dvd base" and "0 < n" and "n < 2 ^ 36" and "base + Suc n * PAGE_SIZE < usize_limit"
    and "unmapped_pages km (cr3_frame km) base {..n}"
    and "4 * n + 3 \<le> card (kernel_free (km_phys km))" and "\<forall>f \<in> user_free (km_phys km). f < 2 ^ 40"
  shows "\<exists>km'. map_kernel_stack base (base + Suc n * PAGE_SIZE) km = Inr (km', Inr ())
     \<and> maps_entry km (cr3_frame km) base (Suc n) KernelStack km' \<and> stack_backed (lookup km' (cr3_frame km)) base (Suc n)"
proof -
  let ?r = "cr3_frame km" and ?above = "base + PAGE_SIZE"
  obtain km' k where m: "map_kernel_stack base (base + Suc n * PAGE_SIZE) km = Inr (km', Inr ())"
      "session km ?r (4 * n + 3) True km'" "page_entry km' ?r base 0 = 2"
      "user_free (km_phys k) \<subseteq> user_free (km_phys km)" "\<forall>c. pm_lent (km_phys km) c \<le> pm_lent (km_phys k) c"
      "\<forall>a. vpn a \<noteq> vpn base \<longrightarrow> lookup k ?r a = lookup km ?r a" "fresh_pages k km' ?r ?above {..<n}"
    using map_kernel_stack_spec [OF assms] by (elim exE conjE)
  let ?f = "\<lambda>i. page_frame km' ?r (page_va ?above i)"
  have lt: "page_va base ` {..<Suc n} = insert base (page_va ?above ` {..<n})"
    unfolding lessThan_Suc_eq_insert_0 page_va_shift by (simp add: image_image)
  have np: "\<not> is_present (lookup km' ?r base)" using m(3) by (simp add: is_present_bit)
  have H: "held_pages km' ?r base (Suc n) KernelStack = page_va ?above ` {..<n}"
    unfolding held_pages_def lt using np m(7) by (auto simp: holds_frames_def fresh_pages_def)
  have "inj_on (page_frame km' ?r) (page_va ?above ` {..<n})" using m(7) by (auto simp: fresh_pages_def inj_on_def)
  moreover have "pm_lent (km_phys km) c + card {i \<in> {..<n}. pm_pool (?f i) = c} \<le> pm_lent (km_phys km') c" for c
  proof -
    have "pm_lent (km_phys k) c + card {i \<in> {..<n}. pm_pool (?f i) = c} \<le> pm_lent (km_phys km') c"
      using m(7) unfolding fresh_pages_def by blast
    then show ?thesis using m(5) [rule_format, of c] by linarith
  qed
  then have "takes km ?r (?f ` {..<n}) km'"
    using m(4,7) unfolding fresh_pages_def by (intro takes_image) auto
  moreover have "page_frame km' ?r ` page_va ?above ` {..<n} = ?f ` {..<n}" by (simp add: image_image)
  moreover have "lookup km' ?r a = lookup km ?r a" if a: "vpn a \<notin> (\<lambda>i. vpn (page_va base i)) ` {..<Suc n}" for a
  proof -
    have "(\<lambda>i. vpn (page_va base i)) ` {..<Suc n} = insert (vpn base) ((\<lambda>i. vpn (page_va ?above i)) ` {..<n})"
      unfolding lessThan_Suc_eq_insert_0 page_va_shift by (simp add: image_image)
    then have "vpn a \<noteq> vpn base" "vpn a \<notin> (\<lambda>i. vpn (page_va ?above i)) ` {..<n}" using a by auto
    then show ?thesis using m(6,7) by (simp add: fresh_pages_def)
  qed
  ultimately have "maps_entry km ?r base (Suc n) KernelStack km'" using m(2) unfolding maps_entry_def H by auto
  moreover have "is_present (lookup km' ?r (page_va base i))" if i: "0 < i" "i < Suc n" for i
  proof -
    obtain j where "i = Suc j" using i(1) by (cases i) auto
    then show ?thesis using m(7) i(2) unfolding fresh_pages_def page_va_shift by simp
  qed
  then have "stack_backed (lookup km' ?r) base (Suc n)" using m(3) by (simp add: stack_backed_def)
  ultimately show ?thesis using m(1) by blast
qed

lemma maps_entry_physical:
  assumes "tree_inv km (cr3_frame km)" and "free_zeroed km" and "\<not> km_page_lock km"
    and "PAGE_SIZE dvd base" and "0 < n" and "n \<le> 2 ^ 36" and "base + n * PAGE_SIZE < usize_limit"
    and "unmapped_pages km (cr3_frame km) base {..<n}"
    and "3 * n \<le> card (kernel_free (km_phys km))" and "pmap_address pmap + n * PAGE_SIZE \<le> 2 ^ 52"
  shows "\<exists>km'. map_physical_range pmap base (base + n * PAGE_SIZE) km = Inr (km', Inr ())
     \<and> maps_entry km (cr3_frame km) base n (PhysicalMapping pmap) km'
     \<and> phys_pages km km' (cr3_frame km) pmap base {..<n}"
proof -
  let ?r = "cr3_frame km"
  obtain km' where m: "map_physical_range pmap base (base + n * PAGE_SIZE) km = Inr (km', Inr ())"
      "session km ?r (3 * n) True km'" "phys_pages km km' ?r pmap base {..<n}"
    using map_physical_range_spec [OF assms] by blast
  have H: "held_pages km' ?r base n (PhysicalMapping pmap) = {}" by (simp add: held_pages_def holds_frames_def)
  have "takes km ?r {} km'" using sessionD(11) [OF m(2)] by (simp add: takes_def)
  moreover have "\<forall>a. vpn a \<notin> (\<lambda>i. vpn (page_va base i)) ` {..<n} \<longrightarrow> lookup km' ?r a = lookup km ?r a"
    using m(3) unfolding phys_pages_def by blast
  ultimately have "maps_entry km ?r base n (PhysicalMapping pmap) km'" using m(2) unfolding maps_entry_def H by auto
  then show ?thesis using m(1,3) by blast
qed

section \<open>The invariant\<close>

definition range_pages :: "usize \<Rightarrow> usize \<Rightarrow> usize set" where
  "range_pages x y = {a. PAGE_SIZE dvd a \<and> x \<le> a \<and> a < y}"

lemma range_pages_va:
  assumes "PAGE_SIZE dvd x"
  shows "page_va x ` {..<n} = range_pages x (x + n * PAGE_SIZE)"
proof -
  obtain k where k: "x = PAGE_SIZE * k" using assms by (elim dvdE)
  have "a \<in> page_va x ` {..<n}" if a: "a \<in> range_pages x (x + n * PAGE_SIZE)" for a
  proof -
    obtain j where j: "a = PAGE_SIZE * j" using a by (auto simp: range_pages_def elim: dvdE)
    have "k \<le> j" "j < k + n" using a unfolding range_pages_def k j by (auto simp: PAGE_SIZE_def)
    then have "a = page_va x (j - k)" "j - k < n" unfolding page_va_def k j
      by (simp_all add: diff_mult_distrib algebra_simps PAGE_SIZE_def)
    then show ?thesis by blast
  qed
  moreover have "page_va x i \<in> range_pages x (x + n * PAGE_SIZE)" if "i < n" for i
    using that assms by (auto simp: range_pages_def page_va_def PAGE_SIZE_def)
  ultimately show ?thesis by auto
qed

lemma vpn_inj:
  assumes "PAGE_SIZE dvd a" and "PAGE_SIZE dvd a'" and "b \<le> a" "a < l" "b \<le> a'" "a' < l" and "l - b \<le> 2 ^ 48"
    and "vpn a = vpn a'"
  shows "a = a'"
proof -
  have eq: "x = y" if "x \<le> y" "PAGE_SIZE * y - PAGE_SIZE * x < 2 ^ 48" "vpn (PAGE_SIZE * x) = vpn (PAGE_SIZE * y)" for x y
  proof -
    have "y - x < 2 ^ 36" using that(2) unfolding diff_mult_distrib2 [symmetric] by (simp add: PAGE_SIZE_def)
    moreover have "(x + 0) mod 2 ^ 36 = (x + (y - x)) mod 2 ^ 36"
      using that(1,3) by (simp add: vpn_def PAGE_SIZE_def)
    ultimately show ?thesis using mod_shift_inj [of 0 "2 ^ 36" "y - x" x] that(1) by simp
  qed
  obtain x y where x: "a = PAGE_SIZE * x" "a' = PAGE_SIZE * y" using assms(1,2) by (auto elim!: dvdE)
  have "a' - a < 2 ^ 48" "a - a' < 2 ^ 48" using assms(3-7) by linarith+
  then show ?thesis
    using eq [of x y] eq [of y x] assms(8) unfolding x by (cases "x \<le> y") (auto simp: PAGE_SIZE_def)
qed

text \<open>The shape of the table: aligned entries that partition the range.\<close>

definition geometry :: "usize \<Rightarrow> usize \<Rightarrow> region_map_entry list \<Rightarrow> bool" where
  "geometry b l us \<longleftrightarrow> partition_of b us l \<and> coalesced us \<and> l < usize_limit \<and> l - b \<le> 2 ^ 48
     \<and> (\<forall>u \<in> set us. PAGE_SIZE dvd re_base u \<and> PAGE_SIZE dvd re_limit u)"

definition heap_held :: "kmem \<Rightarrow> frame \<Rightarrow> region_map_entry list \<Rightarrow> usize set" where
  "heap_held km root us =
     {a. is_present (lookup km root a) \<and>
         (\<exists>u \<in> set us. (\<exists>t. re_type u = Some t \<and> holds_frames t) \<and> a \<in> range_pages (re_base u) (re_limit u))}"

text \<open>
  The memory behind the table, with \<open>F\<close> the frames of the table's own pages: free entries are
  unmapped, and the frames of held pages and of the table are distinct and on loan.
\<close>

definition mem_inv :: "usize \<Rightarrow> usize \<Rightarrow> kmem \<Rightarrow> frame \<Rightarrow> region_map_entry list \<Rightarrow> frame set \<Rightarrow> bool" where
  "mem_inv b l km root us F \<longleftrightarrow> tree_inv km root
     \<and> (\<forall>u \<in> set us. is_free u \<longrightarrow> (\<forall>a \<in> range_pages (re_base u) (re_limit u). lookup km root a = 0))
     \<and> (\<forall>a \<in> range_pages b l. no_huge_on km root (page_path a))
     \<and> inj_on (page_frame km root) (heap_held km root us)
     \<and> lendable km root (page_frame km root ` heap_held km root us \<union> F)
     \<and> page_frame km root ` heap_held km root us \<inter> F = {}"

definition heap_inv ::
  "region_layout \<Rightarrow> usize \<Rightarrow> usize \<Rightarrow> kmem \<Rightarrow> region_map_page list \<Rightarrow> region_map_entry list \<Rightarrow> frame list \<Rightarrow> bool" where
  "heap_inv rl b l km ps us fs \<longleftrightarrow> layout_wf rl \<and> table_rep rl ps us \<and> geometry b l us \<and> \<not> km_page_lock km
     \<and> chain_frames ps fs \<and> mem_inv b l km (cr3_frame km) us (set fs)"

lemma mem_inv_cong:
  assumes "same_mem km k"
  shows "mem_inv b l k root us F = mem_inv b l km root us F"
  unfolding mem_inv_def heap_held_def lendable_cong [OF assms] same_mem_cong [OF assms] ..

lemma heap_held_cong:
  "(\<And>a. lookup k root a = lookup km root a) \<Longrightarrow> heap_held k root us = heap_held km root us"
  by (simp add: heap_held_def)

lemma mem_inv_lendable: "mem_inv b l km root us F \<Longrightarrow> lendable km root F"
  unfolding mem_inv_def by (elim conjE) (rule lendable_subset [OF _ Un_upper2])

lemma mem_inv_frame:
  assumes m: "mem_inv b l km root us F" and k: "kept km root n k" and t: "takes km root {f} k"
    and lk: "\<And>a. lookup k root a = lookup km root a"
  shows "mem_inv b l k root us (insert f F)"
proof -
  have inv: "tree_inv km root" and ld: "lendable km root (page_frame km root ` heap_held km root us \<union> F)"
    using m by (simp_all add: mem_inv_def)
  have h: "heap_held k root us = heap_held km root us" by (rule heap_held_cong) (rule lk)
  have "lendable k root ((page_frame km root ` heap_held km root us \<union> F) \<union> {f})" by (rule lendable_takes [OF inv ld k t])
  moreover have "f \<in> user_free (km_phys km)" using t by (simp add: takes_def)
  then have "f \<notin> page_frame km root ` heap_held km root us" using ld by (auto simp: lendable_def)
  moreover have "no_huge_on k root (page_path a)" if "a \<in> range_pages b l" for a
    using that m keptD(3) [OF k page_path_ok] by (simp add: mem_inv_def)
  ultimately show ?thesis
    using m keptD(1) [OF k] unfolding mem_inv_def h lk by auto
qed

lemma mem_inv_freed:
  assumes m: "mem_inv b l km root us F" and f: "freed_to km root G k" and G: "G \<subseteq> F"
    and lk: "\<And>a. lookup k root a = lookup km root a"
  shows "mem_inv b l k root us (F - G)"
proof -
  let ?H = "page_frame km root ` heap_held km root us"
  have h: "heap_held k root us = heap_held km root us" by (rule heap_held_cong) (rule lk)
  have d: "?H \<inter> F = {}" and ld: "lendable km root (?H \<union> F)" using m by (simp_all add: mem_inv_def)
  have "lendable k root ((?H \<union> F) - G)" by (rule lendable_freed [OF ld _ f]) (use G in auto)
  moreover have "(?H \<union> F) - G = ?H \<union> (F - G)" using d G by auto
  moreover have "no_huge_on k root (page_path a)" if "a \<in> range_pages b l" for a
    using that m freed_toD(6) [OF f page_path_ok] by (simp add: mem_inv_def)
  ultimately show ?thesis using m freed_toD(1) [OF f] unfolding mem_inv_def h lk by auto
qed

section \<open>Allocating keeps the invariant\<close>

lemma partition_split:
  assumes "partition_of b (xs @ u # ys) l"
  shows "b \<le> re_base u" "re_base u < re_limit u" "re_limit u \<le> l"
    and "x \<in> set xs \<Longrightarrow> b \<le> re_base x \<and> re_limit x \<le> re_base u"
    and "y \<in> set ys \<Longrightarrow> re_limit u \<le> re_base y \<and> re_limit y \<le> l"
proof -
  obtain m where m: "partition_of b xs m" "re_base u = m" "m < re_limit u" "partition_of (re_limit u) ys l"
    using assms by (auto simp: partition_append)
  then show "b \<le> re_base u" "re_base u < re_limit u" "re_limit u \<le> l" using partition_le by auto
  show "x \<in> set xs \<Longrightarrow> b \<le> re_base x \<and> re_limit x \<le> re_base u" using partition_mem [OF m(1)] m(2) by auto
  show "y \<in> set ys \<Longrightarrow> re_limit u \<le> re_base y \<and> re_limit y \<le> l" using partition_mem [OF m(4)] by auto
qed

lemma session_lendable:
  assumes inv: "tree_inv km root" and l: "lendable km root F" and s: "session km root m flushed k" and t: "takes km root N k"
  shows "lendable k root (F \<union> N)"
proof -
  let ?k = "k\<lparr>km_page_lock := km_page_lock km, km_tlb := km_tlb km\<rparr>"
  have sm: "same_mem k ?k" by simp
  have "kept km root m ?k" using s by (simp add: session_def)
  moreover have "takes km root N ?k" using t takes_cong [OF _ sm, of km km] by (simp add: same_mem_def)
  ultimately have "lendable ?k root (F \<union> N)" by (rule lendable_takes [OF inv l])
  then show ?thesis using lendable_cong [OF sm] by simp
qed

lemma maps_entry_same:
  assumes me: "maps_entry km root base n kind k" and g: "l - b \<le> 2 ^ 48" "PAGE_SIZE dvd base"
    and sub: "range_pages base (base + n * PAGE_SIZE) \<subseteq> range_pages b l"
    and a: "a \<in> range_pages b l" "a \<notin> range_pages base (base + n * PAGE_SIZE)"
  shows "lookup k root a = lookup km root a"
proof -
  have "vpn a \<notin> (\<lambda>i. vpn (page_va base i)) ` {..<n}"
  proof
    assume "vpn a \<in> (\<lambda>i. vpn (page_va base i)) ` {..<n}"
    then obtain a' where a': "a' \<in> page_va base ` {..<n}" "vpn a = vpn a'" by auto
    then have "a' \<in> range_pages b l" using sub range_pages_va [OF g(2)] by auto
    then have "a = a'" using a(1) a'(2) g(1) by (intro vpn_inj [of a a' b l]) (auto simp: range_pages_def)
    then show False using a(2) a'(1) range_pages_va [OF g(2)] by auto
  qed
  then show ?thesis using me by (simp add: maps_entry_def)
qed

lemma mem_inv_map:
  assumes g: "geometry b l (xs @ u # ys)" and u: "is_free u" "n * PAGE_SIZE \<le> re_limit u - re_base u"
    and kind: "kind \<noteq> FreeRegion" and m: "mem_inv b l km root (xs @ u # ys) F"
    and me: "maps_entry km root (re_base u) n kind k"
  shows "mem_inv b l k root (xs @ split_entry u (n * PAGE_SIZE) kind @ ys) F"
proof -
  let ?us = "xs @ u # ys" and ?us' = "xs @ split_entry u (n * PAGE_SIZE) kind @ ys"
  let ?A = "range_pages (re_base u) (re_base u + n * PAGE_SIZE)" and ?N = "held_pages k root (re_base u) n kind"
  let ?H = "heap_held km root ?us"
  have pt: "partition_of b ?us l" "l - b \<le> 2 ^ 48" "PAGE_SIZE dvd re_base u" using g by (auto simp: geometry_def)
  note ps = partition_split [OF pt(1)]
  have lim: "re_base u + n * PAGE_SIZE \<le> re_limit u" using u(2) ps(2) by linarith
  then have sub: "?A \<subseteq> range_pages b l" using ps(1,3) by (auto simp: range_pages_def)
  have same: "lookup k root a = lookup km root a" if "a \<in> range_pages b l" "a \<notin> ?A" for a
    by (rule maps_entry_same [OF me pt(2,3) sub that])
  have oth: "range_pages (re_base e) (re_limit e) \<subseteq> range_pages b l - ?A" if "e \<in> set xs \<union> set ys" for e
    using that ps(1,2,3) ps(4) [of e] ps(5) [of e] lim by (auto simp: range_pages_def)
  obtain mm where ss: "session km root mm True k" using me by (auto simp: maps_entry_def)
  have inv: "tree_inv km root" and ld: "lendable km root (page_frame km root ` ?H \<union> F)" and inj: "inj_on (page_frame km root) ?H"
    and dF: "page_frame km root ` ?H \<inter> F = {}" using m by (simp_all add: mem_inv_def)
  have tk: "takes km root (page_frame k root ` ?N) k" and injN: "inj_on (page_frame k root) ?N"
    using me by (auto simp: maps_entry_def)
  have Hsame: "lookup k root a = lookup km root a" if "a \<in> ?H" for a
    using that oth same u(1) by (force simp: heap_held_def is_free_def holds_frames_def)
  have NA: "?N = {a \<in> ?A. is_present (lookup k root a) \<and> holds_frames kind}"
    unfolding held_pages_def range_pages_va [OF pt(3)] by auto
  have held: "heap_held k root ?us' = ?H \<union> ?N"
  proof (intro equalityI subsetI)
    fix a assume "a \<in> heap_held k root ?us'"
    then obtain e t where e: "e \<in> set ?us'" "re_type e = Some t" "holds_frames t"
        "a \<in> range_pages (re_base e) (re_limit e)" "is_present (lookup k root a)" by (auto simp: heap_held_def)
    show "a \<in> ?H \<union> ?N"
    proof (cases "e \<in> set xs \<union> set ys")
      case True
      then show ?thesis using e oth [OF True] same [of a] by (auto simp: heap_held_def)
    next
      case False
      then show ?thesis using e unfolding NA by (auto simp: split_entry_def holds_frames_def split: if_splits)
    qed
  next
    fix a assume "a \<in> ?H \<union> ?N"
    then consider "a \<in> ?H" | "a \<in> ?N" by blast
    then show "a \<in> heap_held k root ?us'"
    proof cases
      case 1
      then obtain e where "e \<in> set xs \<union> set ys" "\<exists>t. re_type e = Some t \<and> holds_frames t"
          "a \<in> range_pages (re_base e) (re_limit e)" "is_present (lookup km root a)"
        using u(1) by (auto simp: heap_held_def is_free_def holds_frames_def)
      then show ?thesis using Hsame [OF 1] by (auto simp: heap_held_def)
    next
      case 2
      then show ?thesis unfolding NA by (auto simp: heap_held_def split_entry_def)
    qed
  qed
  have img: "page_frame k root ` ?H = page_frame km root ` ?H" by (rule image_cong) (simp_all add: Hsame)
  have nf: "page_frame km root ` ?H \<inter> user_free (km_phys km) = {}" "F \<inter> user_free (km_phys km) = {}"
    using ld by (auto simp: lendable_def)
  have tf: "page_frame k root ` ?N \<subseteq> user_free (km_phys km)" using tk by (auto simp: takes_def)
  have "inj_on (page_frame k root) ?H" using inj inj_on_cong [of ?H "page_frame k root" "page_frame km root"] Hsame by simp
  then have "inj_on (page_frame k root) (?H \<union> ?N)"
    using injN nf tf img unfolding inj_on_Un by blast
  moreover have "lendable k root ((page_frame km root ` ?H \<union> F) \<union> page_frame k root ` ?N)"
    by (rule session_lendable [OF inv ld ss tk])
  then have "lendable k root (page_frame k root ` (?H \<union> ?N) \<union> F)"
    unfolding image_Un img by (simp add: Un_ac)
  moreover have "page_frame k root ` (?H \<union> ?N) \<inter> F = {}" using dF nf(2) tf unfolding image_Un img by blast
  moreover have "lookup k root a = 0" if "e \<in> set ?us'" "is_free e" "a \<in> range_pages (re_base e) (re_limit e)" for e a
  proof (cases "e \<in> set xs \<union> set ys")
    case True
    then show ?thesis using that oth [OF True] same [of a] m by (auto simp: mem_inv_def)
  next
    case False
    then have "a \<in> range_pages (re_base u) (re_limit u) - ?A"
      using that kind lim by (auto simp: split_entry_def is_free_def range_pages_def split: if_splits)
    then show ?thesis using m u(1) same [of a] ps(1,3) by (auto simp: mem_inv_def range_pages_def)
  qed
  moreover have "no_huge_on k root (page_path a)" if "a \<in> range_pages b l" for a
    using that m sessionD(3) [OF ss page_path_ok] by (simp add: mem_inv_def)
  ultimately show ?thesis using sessionD(1) [OF ss] unfolding mem_inv_def held by blast
qed

lemma geometry_split:
  assumes g: "geometry b l (xs @ u # ys)" and u: "is_free u" "0 < n" "n * PAGE_SIZE \<le> re_limit u - re_base u"
    and kind: "kind \<noteq> FreeRegion"
  shows "geometry b l (xs @ split_entry u (n * PAGE_SIZE) kind @ ys)"
proof -
  have pos: "0 < n * PAGE_SIZE" using u(2) by (simp add: PAGE_SIZE_def)
  have part: "partition_of b (xs @ u # ys) l" and co: "coalesced (xs @ u # ys)" using g by (simp_all add: geometry_def)
  note ps = partition_split [OF part]
  have ex: "re_limit u - re_base u = n * PAGE_SIZE \<Longrightarrow> re_base u + n * PAGE_SIZE = re_limit u" using ps(2) by linarith
  have "partition_of b (xs @ split_entry u (n * PAGE_SIZE) kind @ ys) l"
    using part pos u(3) ps(2) ex unfolding partition_append by (auto simp: split_entry_def)
  moreover have "coalesced (xs @ split_entry u (n * PAGE_SIZE) kind @ ys)"
    using co u(1) kind by (auto simp: coalesced_append coalesced_Cons split_entry_def is_free_def)
  moreover have "PAGE_SIZE dvd re_base e \<and> PAGE_SIZE dvd re_limit e" if "e \<in> set (split_entry u (n * PAGE_SIZE) kind)" for e
    using that g ex by (auto simp: split_entry_def geometry_def split: if_splits)
  ultimately show ?thesis using g by (auto simp: geometry_def)
qed

text \<open>
  The contract between the region manager and the mapping operations: a kind of region whose
  \<open>n\<close> pages can be mapped whenever \<open>need n\<close> kernel frames are free, with what the mapping
  promises about the entries of those pages.
\<close>

definition free_entry :: "usize \<Rightarrow> nat \<Rightarrow> region_map_entry" where
  "free_entry base n = \<lparr>re_base = base, re_limit = base + n * PAGE_SIZE, re_type = Some FreeRegion\<rparr>"

definition region_handle :: "usize \<Rightarrow> nat \<Rightarrow> region" where
  "region_handle base n =
     \<lparr>reg_info = \<lparr>ri_start = base, ri_limit = base + n * PAGE_SIZE\<rparr>, reg_offset = 0, reg_length = n * PAGE_SIZE\<rparr>"

text \<open>Enough memory to map \<open>n\<close> pages, and no frame beyond the physical address width.\<close>

definition memory_for :: "nat \<Rightarrow> kmem \<Rightarrow> bool" where
  "memory_for m km \<longleftrightarrow> free_zeroed km \<and> m \<le> card (kernel_free (km_phys km))
     \<and> (\<forall>f \<in> user_free (km_phys km). f < 2 ^ 40)"

locale region_backing =
  fixes kind :: region_kind and need :: "nat \<Rightarrow> nat" and ok :: "nat \<Rightarrow> bool"
    and post :: "(usize \<Rightarrow> raw_pte) \<Rightarrow> usize \<Rightarrow> nat \<Rightarrow> bool"
  assumes kind_used: "kind \<noteq> FreeRegion"
    and backs: "tree_inv km (cr3_frame km) \<Longrightarrow> \<not> km_page_lock km \<Longrightarrow> PAGE_SIZE dvd base \<Longrightarrow> 0 < n \<Longrightarrow>
      n \<le> 2 ^ 36 \<Longrightarrow> base + n * PAGE_SIZE < usize_limit \<Longrightarrow> unmapped_pages km (cr3_frame km) base {..<n} \<Longrightarrow>
      memory_for (need n) km \<Longrightarrow> ok n \<Longrightarrow>
      \<exists>km'. map_region (free_entry base n) kind km = Inr (km', Inr ())
         \<and> maps_entry km (cr3_frame km) base n kind km' \<and> post (lookup km' (cr3_frame km)) base n"
begin

lemma closure_backs:
  assumes "tree_inv km (cr3_frame km)" and "\<not> km_page_lock km" and "PAGE_SIZE dvd base" and "0 < n"
    and "n \<le> 2 ^ 36" and "base + n * PAGE_SIZE < usize_limit" and "unmapped_pages km (cr3_frame km) base {..<n}"
    and "memory_for (need n) km" and "ok n"
  shows "\<exists>km'. region_closure (n * PAGE_SIZE) kind (free_entry base n) km = Inr (km', Inr kind)
     \<and> maps_entry km (cr3_frame km) base n kind km' \<and> post (lookup km' (cr3_frame km)) base n"
  using backs [OF assms] by (auto simp: region_closure_def free_entry_def entry_size_def usub_def)

end

lemma heap_inv_unmapped:
  assumes h: "heap_inv rl b l km ps (xs @ u # ys) fs" and u: "is_free u" "n * PAGE_SIZE \<le> re_limit u - re_base u"
  shows "unmapped_pages km (cr3_frame km) (re_base u) {..<n}"
proof -
  let ?us = "xs @ u # ys"
  have pt: "partition_of b ?us l" "PAGE_SIZE dvd re_base u" and m: "mem_inv b l km (cr3_frame km) ?us (set fs)"
    using h by (auto simp: heap_inv_def geometry_def)
  note ps = partition_split [OF pt(1)]
  have "range_pages (re_base u) (re_base u + n * PAGE_SIZE) \<subseteq> range_pages (re_base u) (re_limit u)"
    "range_pages (re_base u) (re_limit u) \<subseteq> range_pages b l" using u(2) ps(1-3) by (auto simp: range_pages_def)
  moreover have "page_va (re_base u) i \<in> range_pages (re_base u) (re_base u + n * PAGE_SIZE)" if "i < n" for i
    using range_pages_va [OF pt(2), of n] that by blast
  ultimately show ?thesis using m u(1) unfolding unmapped_pages_def mem_inv_def by fastforce
qed

lemma entry_fits_free: "entry_fits r u \<Longrightarrow> is_free u \<and> r \<le> re_limit u - re_base u"
  by (simp add: entry_fits_def is_free_def)

lemma heap_inv_wf:
  assumes "heap_inv rl b l km ps us fs" and "u \<in> set us"
  shows "entry_wf u"
  using assms partition_mem [of b us l u] by (auto simp: heap_inv_def geometry_def entry_wf_def)

text \<open>The result of a successful allocation.\<close>

definition allocated ::
  "region_layout \<Rightarrow> usize \<Rightarrow> usize \<Rightarrow> kmem \<Rightarrow> region_map_entry list \<Rightarrow> usize \<Rightarrow> nat
     \<Rightarrow> ((usize \<Rightarrow> raw_pte) \<Rightarrow> usize \<Rightarrow> nat \<Rightarrow> bool) \<Rightarrow> kmem \<Rightarrow> region_map_page list \<Rightarrow> frame list \<Rightarrow> bool" where
  "allocated rl b l km us base n post km' ps' fs' \<longleftrightarrow> heap_inv rl b l km' ps' us fs' \<and> cr3_frame km' = cr3_frame km
     \<and> (\<forall>a. vpn a \<notin> (\<lambda>i. vpn (page_va base i)) ` {..<n} \<longrightarrow>
          lookup km' (cr3_frame km) a = lookup km (cr3_frame km) a)
     \<and> post (lookup km' (cr3_frame km)) base n"

context region_backing
begin

lemma allocate_exactly:
  assumes h: "heap_inv rl b l km ps (xs @ u # ys) fs"
    and x: "\<forall>x \<in> set xs. \<not> entry_fits (n * PAGE_SIZE) x" and u: "entry_fits (n * PAGE_SIZE) u"
    and n: "0 < n" "n \<le> 2 ^ 36" "ok n" and mem: "memory_for (need n) km"
    and ex: "re_limit u - re_base u = n * PAGE_SIZE"
  shows "\<exists>km' ps' fs'. manager_allocate_region rl n kind ps km = Inr (km', ps', Inr (region_handle (re_base u) n))
     \<and> allocated rl b l km (xs @ split_entry u (n * PAGE_SIZE) kind @ ys) (re_base u) n post km' ps' fs'"
proof -
  let ?us = "xs @ u # ys" and ?r = "cr3_frame km"
  have h': "layout_wf rl" "table_rep rl ps ?us" "geometry b l ?us" "\<not> km_page_lock km" "chain_frames ps fs"
      "mem_inv b l km ?r ?us (set fs)" "tree_inv km ?r" using h by (auto simp: heap_inv_def mem_inv_def)
  note fu = entry_fits_free [OF u]
  have uw: "entry_wf u" using heap_inv_wf [OF h] by simp
  have al: "PAGE_SIZE dvd re_base u" "re_base u + n * PAGE_SIZE < usize_limit"
    using h'(3) uw ex by (auto simp: geometry_def entry_wf_def)
  have ue: "u = free_entry (re_base u) n"
    using fu ex uw by (cases u) (auto simp: free_entry_def is_free_def entry_wf_def)
  have un: "unmapped_pages km ?r (re_base u) {..<n}" using heap_inv_unmapped [OF h] fu by blast
  obtain km' where k: "region_closure (n * PAGE_SIZE) kind u km = Inr (km', Inr kind)"
      "maps_entry km ?r (re_base u) n kind km'" "post (lookup km' ?r) (re_base u) n"
    using closure_backs [OF h'(7,4) al(1) n(1,2) al(2) un mem n(3)] ue by auto
  obtain m where ss: "session km ?r m True km'" using k(2) by (auto simp: maps_entry_def)
  have xw: "\<forall>x \<in> set xs. entry_wf x \<and> \<not> entry_fits (n * PAGE_SIZE) x" using x heap_inv_wf [OF h] by auto
  obtain ps' where a: "allocate_first_fit rl ps (n * PAGE_SIZE) (region_closure (n * PAGE_SIZE) kind) km =
        Inr (km', ps', Inr \<lparr>ri_start = re_base u, ri_limit = re_base u + n * PAGE_SIZE\<rparr>)"
      "table_rep rl ps' (xs @ split_entry u (n * PAGE_SIZE) kind @ ys)" "map rp_frame ps' = map rp_frame ps"
    using allocate_exact_spec(2) [OF xw uw u h'(2) ex, of "region_closure (n * PAGE_SIZE) kind" km km' kind] k(1)
    by blast
  have "manager_allocate_region rl n kind ps km = Inr (km', ps', Inr (region_handle (re_base u) n))"
    using a(1) al(2) by (simp add: manager_allocate_region_def umul_def region_handle_new_def info_size_def usub_def
        region_handle_def)
  moreover have "heap_inv rl b l km' ps' (xs @ split_entry u (n * PAGE_SIZE) kind @ ys) fs"
    using h'(1,5) a(2,3) sessionD(7,8) [OF ss] geometry_split [OF h'(3) _ n(1) _ kind_used] fu
      mem_inv_map [OF h'(3) _ _ kind_used h'(6) k(2)]
    by (simp add: heap_inv_def chain_frames_def)
  moreover have "\<forall>a. vpn a \<notin> (\<lambda>i. vpn (page_va (re_base u) i)) ` {..<n} \<longrightarrow> lookup km' ?r a = lookup km ?r a"
    using k(2) unfolding maps_entry_def by blast
  ultimately show ?thesis using k(3) sessionD(7) [OF ss] unfolding allocated_def by blast
qed

lemma allocate_splitting:
  assumes h: "heap_inv rl b l km ps (xs @ u # ys) fs"
    and x: "\<forall>x \<in> set xs. \<not> entry_fits (n * PAGE_SIZE) x" and u: "entry_fits (n * PAGE_SIZE) u"
    and n: "0 < n" "n \<le> 2 ^ 36" "ok n" and mem: "memory_for (need n + 1) km"
    and ex: "re_limit u - re_base u \<noteq> n * PAGE_SIZE"
  shows "\<exists>km' ps' fs'. manager_allocate_region rl n kind ps km = Inr (km', ps', Inr (region_handle (re_base u) n))
     \<and> allocated rl b l km (xs @ split_entry u (n * PAGE_SIZE) kind @ ys) (re_base u) n post km' ps' fs'"
proof -
  let ?us = "xs @ u # ys" and ?us' = "xs @ split_entry u (n * PAGE_SIZE) kind @ ys" and ?r = "cr3_frame km"
  let ?cl = "region_closure (n * PAGE_SIZE) kind"
  have h': "layout_wf rl" "table_rep rl ps ?us" "geometry b l ?us" "\<not> km_page_lock km" "chain_frames ps fs"
      "mem_inv b l km ?r ?us (set fs)" "tree_inv km ?r" using h by (auto simp: heap_inv_def mem_inv_def)
  have fz: "free_zeroed km" and cd: "need n + 1 \<le> card (kernel_free (km_phys km))"
    using mem by (simp_all add: memory_for_def)
  note fu = entry_fits_free [OF u]
  have uw: "entry_wf u" using heap_inv_wf [OF h] by simp
  have al: "PAGE_SIZE dvd re_base u" "re_base u + n * PAGE_SIZE < usize_limit"
    using h'(3) uw fu by (auto simp: geometry_def entry_wf_def)
  have ue: "u\<lparr>re_limit := re_base u + n * PAGE_SIZE\<rparr> = free_entry (re_base u) n"
    using fu by (cases u) (auto simp: free_entry_def is_free_def)
  obtain pm f where f: "allocate_kernel_frame (km_phys km) = Inr (pm, Some f)" "kept km ?r 1 (km\<lparr>km_phys := pm\<rparr>)"
      "takes km ?r {f} (km\<lparr>km_phys := pm\<rparr>)" "identity_mapped f"
    using kernel_frame_taken [OF h'(7) fz] cd by fastforce
  let ?k0 = "km\<lparr>km_phys := pm\<rparr>"
  have c0: "cr3_frame ?k0 = ?r" by (simp add: cr3_frame_def)
  have l0: "lookup ?k0 ?r a = lookup km ?r a" for a by (rule lookup_cong) simp
  have un: "unmapped_pages ?k0 ?r (re_base u) {..<n}"
    using heap_inv_unmapped [OF h, of n] fu keptD(3) [OF f(2) page_path_ok] unfolding unmapped_pages_def l0 by blast
  have mem0: "memory_for (need n) ?k0"
    using mem keptD(2,5,6) [OF f(2)] unfolding memory_for_def by auto
  obtain km1 where k: "?cl (free_entry (re_base u) n) ?k0 = Inr (km1, Inr kind)" "maps_entry ?k0 ?r (re_base u) n kind km1"
      "post (lookup km1 ?r) (re_base u) n"
    using closure_backs [of ?k0 "re_base u" n, unfolded c0, OF keptD(1) [OF f(2)] _ al(1) n(1,2) al(2) un mem0 n(3)] h'(4)
    by auto
  obtain m where ss: "session ?k0 ?r m True km1" using k(2) by (auto simp: maps_entry_def)
  have c1: "cr3_frame km1 = ?r" using sessionD(7) [OF ss] c0 by simp
  have "mem_inv b l ?k0 ?r ?us (insert f (set fs))" by (rule mem_inv_frame [OF h'(6) f(2,3) l0])
  then have m1: "mem_inv b l km1 ?r ?us' (insert f (set fs))"
    using mem_inv_map [OF h'(3) _ _ kind_used _ k(2)] fu by blast
  have nf: "f \<notin> set fs" using f(3) h'(6) by (auto simp: takes_def mem_inv_def lendable_def)
  have lf: "lendable km1 ?r (insert f (set fs))" by (rule mem_inv_lendable [OF m1])
  obtain pm2 where p2: "pm_deallocate_frame (km_phys km1) f = Inr pm2" "freed_to km1 ?r {f} (km1\<lparr>km_phys := pm2\<rparr>)"
    using release_lendable [OF sessionD(1) [OF ss] lf, of f] by auto
  let ?k2 = "km1\<lparr>km_phys := pm2\<rparr>"
  have l2: "lookup ?k2 ?r a = lookup km1 ?r a" for a by (rule lookup_cong) simp
  have m2: "mem_inv b l ?k2 ?r ?us' (set fs)"
    using mem_inv_freed [OF m1 p2(2) _ l2] nf by (simp add: insert_Diff_if)
  have tok: "table_frame_ok rl f"
    using f(4) h'(1) by (simp add: table_frame_ok_def identity_mapped_def layout_wf_def)
  have ff: "free_frame f km1 = Inr ?k2" using p2(1) by (simp add: free_frame_def)
  have xw: "\<forall>x \<in> set xs. entry_wf x \<and> \<not> entry_fits (n * PAGE_SIZE) x" using x heap_inv_wf [OF h] by auto
  obtain ps' tf where a: "allocate_first_fit rl ps (n * PAGE_SIZE) ?cl km =
        Inr (if tf = None then km1 else ?k2, ps', Inr \<lparr>ri_start = re_base u, ri_limit = re_base u + n * PAGE_SIZE\<rparr>)"
      "table_rep rl ps' ?us'" "used_table_frame ps ps' f tf"
    using allocate_split_spec(3) [OF xw uw u h'(2) ex h'(1) f(1), of ?cl km1 kind ?k2] k(1) ue tok ff by auto
  let ?km' = "if tf = None then km1 else ?k2"
  have mar: "manager_allocate_region rl n kind ps km = Inr (?km', ps', Inr (region_handle (re_base u) n))"
    using a(1) al(2) by (simp add: manager_allocate_region_def umul_def region_handle_new_def info_size_def usub_def
        region_handle_def)
  have geo: "geometry b l ?us'" using geometry_split [OF h'(3) _ n(1) _ kind_used] fu by blast
  have c2: "cr3_frame ?k2 = ?r" using c1 by (simp add: cr3_frame_def)
  have hi: "\<exists>fs'. heap_inv rl b l ?km' ps' ?us' fs'"
  proof (cases tf)
    case None
    then have "chain_frames ps' (fs @ [f])"
      using a(3) h'(5) nf by (auto simp: used_table_frame_def chain_frames_def)
    then show ?thesis
      using None h'(1) a(2) geo sessionD(8) [OF ss] m1 c1 by (intro exI [of _ "fs @ [f]"]) (simp add: heap_inv_def)
  next
    case (Some g)
    then have "chain_frames ps' fs" using a(3) h'(5) by (auto simp: used_table_frame_def chain_frames_def)
    then show ?thesis
      using Some h'(1) a(2) geo sessionD(8) [OF ss] m2 c2 by (intro exI [of _ fs]) (simp add: heap_inv_def)
  qed
  have lk: "lookup ?km' ?r a = lookup km1 ?r a" for a using l2 by simp
  have c': "cr3_frame ?km' = ?r" using c1 c2 by simp
  have same: "\<forall>a. vpn a \<notin> (\<lambda>i. vpn (page_va (re_base u) i)) ` {..<n} \<longrightarrow> lookup ?km' ?r a = lookup km ?r a"
    using k(2) unfolding lk maps_entry_def l0 [symmetric] by blast
  have lf: "lookup ?km' ?r = lookup km1 ?r" by (rule ext) (rule lk)
  from hi obtain fs' where "allocated rl b l km ?us' (re_base u) n post ?km' ps' fs'"
    using c' same k(3) unfolding allocated_def lf by blast
  with mar show ?thesis by blast
qed

lemma allocates:
  assumes "heap_inv rl b l km ps (xs @ u # ys) fs"
    and "\<forall>x \<in> set xs. \<not> entry_fits (n * PAGE_SIZE) x" and "entry_fits (n * PAGE_SIZE) u"
    and "0 < n" and "n \<le> 2 ^ 36" and "ok n" and mem: "memory_for (need n + 1) km"
  shows "\<exists>km' ps' fs'. manager_allocate_region rl n kind ps km = Inr (km', ps', Inr (region_handle (re_base u) n))
     \<and> allocated rl b l km (xs @ split_entry u (n * PAGE_SIZE) kind @ ys) (re_base u) n post km' ps' fs'"
proof (cases "re_limit u - re_base u = n * PAGE_SIZE")
  case True
  have "memory_for (need n) km" using mem by (simp add: memory_for_def)
  then show ?thesis by (rule allocate_exactly [OF assms(1-6) _ True])
next
  case False
  then show ?thesis by (rule allocate_splitting [OF assms])
qed

end

interpretation heap: region_backing Heap "\<lambda>n. 4 * n" "\<lambda>_. True" heap_backed
proof
  show "\<exists>km'. map_region (free_entry base n) Heap km = Inr (km', Inr ())
      \<and> maps_entry km (cr3_frame km) base n Heap km' \<and> heap_backed (lookup km' (cr3_frame km)) base n"
    if "tree_inv km (cr3_frame km)" "\<not> km_page_lock km" "PAGE_SIZE dvd base" "0 < n" "n \<le> 2 ^ 36"
      "base + n * PAGE_SIZE < usize_limit" "unmapped_pages km (cr3_frame km) base {..<n}" "memory_for (4 * n) km"
    for km base n
    using maps_entry_heap [of km base n] that by (auto simp: map_region_def free_entry_def memory_for_def heap_backed_def)
qed simp

interpretation stack: region_backing KernelStack "\<lambda>n. 4 * n" "\<lambda>n. 2 \<le> n" stack_backed
proof
  show "\<exists>km'. map_region (free_entry base n) KernelStack km = Inr (km', Inr ())
      \<and> maps_entry km (cr3_frame km) base n KernelStack km' \<and> stack_backed (lookup km' (cr3_frame km)) base n"
    if a: "tree_inv km (cr3_frame km)" "\<not> km_page_lock km" "PAGE_SIZE dvd base" "n \<le> 2 ^ 36"
      "base + n * PAGE_SIZE < usize_limit" "unmapped_pages km (cr3_frame km) base {..<n}" "memory_for (4 * n) km" "2 \<le> n"
    for km base n
  proof -
    obtain j where j: "n = Suc j" "0 < j" using a(8) by (cases n) auto
    have "{..<n} = {..j}" using j(1) by auto
    then have "\<exists>km'. map_kernel_stack base (base + Suc j * PAGE_SIZE) km = Inr (km', Inr ())
        \<and> maps_entry km (cr3_frame km) base (Suc j) KernelStack km' \<and> stack_backed (lookup km' (cr3_frame km)) base (Suc j)"
      using a j by (intro maps_entry_stack) (simp_all add: memory_for_def)
    then show ?thesis using j(1) by (simp add: map_region_def free_entry_def)
  qed
qed simp

interpretation physical: region_backing "PhysicalMapping pmap" "\<lambda>n. 3 * n"
    "\<lambda>n. pmap_address pmap + n * PAGE_SIZE \<le> 2 ^ 52" "physically_backed pmap" for pmap
proof
  show "\<exists>km'. map_region (free_entry base n) (PhysicalMapping pmap) km = Inr (km', Inr ())
      \<and> maps_entry km (cr3_frame km) base n (PhysicalMapping pmap) km'
      \<and> physically_backed pmap (lookup km' (cr3_frame km)) base n"
    if "tree_inv km (cr3_frame km)" "\<not> km_page_lock km" "PAGE_SIZE dvd base" "0 < n" "n \<le> 2 ^ 36"
      "base + n * PAGE_SIZE < usize_limit" "unmapped_pages km (cr3_frame km) base {..<n}" "memory_for (3 * n) km"
      "pmap_address pmap + n * PAGE_SIZE \<le> 2 ^ 52" for km base n
    using maps_entry_physical [of km base n pmap] that
    by (auto simp: map_region_def free_entry_def memory_for_def physically_backed_def phys_pages_def)
qed simp

section \<open>Freeing keeps the invariant\<close>

definition entry_count :: "region_map_entry \<Rightarrow> nat" where
  "entry_count u = (re_limit u - re_base u) div PAGE_SIZE"

lemma heap_inv_entry:
  assumes h: "heap_inv rl b l km ps (xs @ u # ys) fs"
  shows "entry_pages u (entry_count u)" and "page_va (re_base u) ` {..<entry_count u} = range_pages (re_base u) (re_limit u)"
    and "range_pages (re_base u) (re_limit u) \<subseteq> range_pages b l"
proof -
  have g: "partition_of b (xs @ u # ys) l" "l < usize_limit" "l - b \<le> 2 ^ 48" "PAGE_SIZE dvd re_base u" "PAGE_SIZE dvd re_limit u"
    using h by (auto simp: heap_inv_def geometry_def)
  note ps = partition_split [OF g(1)]
  have "PAGE_SIZE dvd re_limit u - re_base u" using g(5,4) by (rule dvd_diff_nat)
  then have e: "re_limit u = re_base u + entry_count u * PAGE_SIZE" using ps(2) by (simp add: entry_count_def)
  have "0 < entry_count u" using e ps(2) by (cases "entry_count u") auto
  moreover have "entry_count u * PAGE_SIZE \<le> 2 ^ 48" using e ps(1,3) g(3) by linarith
  then have "entry_count u \<le> 2 ^ 36" by (simp add: PAGE_SIZE_def)
  ultimately show "entry_pages u (entry_count u)" using g ps(3) e by (simp add: entry_pages_def)
  show "page_va (re_base u) ` {..<entry_count u} = range_pages (re_base u) (re_limit u)"
    using range_pages_va [OF g(4), of "entry_count u"] e by simp
  show "range_pages (re_base u) (re_limit u) \<subseteq> range_pages b l" using ps(1,3) by (auto simp: range_pages_def)
qed

lemma heap_inv_held:
  assumes h: "heap_inv rl b l km ps (xs @ u # ys) fs" and root: "root = cr3_frame km"
  shows "heap_held km root (xs @ u # ys) \<inter> range_pages (re_base u) (re_limit u) =
           {a \<in> range_pages (re_base u) (re_limit u). is_present (lookup km root a) \<and> (\<exists>t. re_type u = Some t \<and> holds_frames t)}"
    and "entry_frames km root u (entry_count u) =
           page_frame km root ` (heap_held km root (xs @ u # ys) \<inter> range_pages (re_base u) (re_limit u))"
proof -
  have part: "partition_of b (xs @ u # ys) l" using h by (simp add: heap_inv_def geometry_def)
  note ps = partition_split [OF part]
  have "range_pages (re_base e) (re_limit e) \<inter> range_pages (re_base u) (re_limit u) = {}" if "e \<in> set xs \<union> set ys" for e
    using that ps(2) ps(4) [of e] ps(5) [of e] by (auto simp: range_pages_def)
  then show H: "heap_held km root (xs @ u # ys) \<inter> range_pages (re_base u) (re_limit u) =
      {a \<in> range_pages (re_base u) (re_limit u). is_present (lookup km root a) \<and> (\<exists>t. re_type u = Some t \<and> holds_frames t)}"
    by (auto simp: heap_held_def)
  have "leaf_frames km root (re_base u) {..<entry_count u} =
      page_frame km root ` {a \<in> page_va (re_base u) ` {..<entry_count u}. is_present (lookup km root a)}"
    by (auto simp: leaf_frames_def)
  then show "entry_frames km root u (entry_count u) =
      page_frame km root ` (heap_held km root (xs @ u # ys) \<inter> range_pages (re_base u) (re_limit u))"
    unfolding H heap_inv_entry(2) [OF h] by (auto simp: entry_frames_def)
qed

lemma heap_inv_freeable:
  assumes h: "heap_inv rl b l km ps (xs @ u # ys) fs" and t: "re_type u = Some t" "t \<noteq> FreeRegion"
  shows "freeable km (cr3_frame km) u (entry_count u) fs"
proof -
  let ?r = "cr3_frame km" and ?A = "range_pages (re_base u) (re_limit u)" and ?H = "heap_held km (cr3_frame km) (xs @ u # ys)"
  have m: "mem_inv b l km ?r (xs @ u # ys) (set fs)" using h by (simp add: heap_inv_def)
  note e = heap_inv_entry [OF h] and hh = heap_inv_held [OF h refl]
  have "no_huge_on km ?r (page_path (page_va (re_base u) i))" if "i < entry_count u" for i
    using that e(2,3) m unfolding mem_inv_def by blast
  moreover have "inj_on (\<lambda>i. page_frame km ?r (page_va (re_base u) i))
      {i. i < entry_count u \<and> is_present (page_entry km ?r (re_base u) i)}" if "holds_frames t"
  proof -
    let ?P = "{i. i < entry_count u \<and> is_present (page_entry km ?r (re_base u) i)}"
    have "page_va (re_base u) i \<in> ?H" if i: "i \<in> ?P" for i
    proof -
      have "page_va (re_base u) i \<in> ?A" using i e(2) by auto
      then have "page_va (re_base u) i \<in> ?H \<inter> ?A" unfolding hh(1) using i t(1) \<open>holds_frames t\<close> by simp
      then show ?thesis by simp
    qed
    then have "page_va (re_base u) ` ?P \<subseteq> ?H" by auto
    moreover have "inj_on (page_frame km ?r) ?H" using m by (simp add: mem_inv_def)
    ultimately have "inj_on (page_frame km ?r) (page_va (re_base u) ` ?P)" by (rule inj_on_subset [rotated])
    then show ?thesis using comp_inj_on [OF page_va_inj] by (simp add: comp_def)
  qed
  moreover have "entry_frames km ?r u (entry_count u) \<subseteq> page_frame km ?r ` ?H" unfolding hh(2) by blast
  moreover have "lendable km ?r (page_frame km ?r ` ?H \<union> set fs)" "page_frame km ?r ` ?H \<inter> set fs = {}"
    using m by (simp_all add: mem_inv_def)
  ultimately show ?thesis
    using e(1) t lendable_subset [of km ?r "page_frame km ?r ` ?H \<union> set fs" "entry_frames km ?r u (entry_count u) \<union> set fs"]
    unfolding freeable_def by auto
qed

definition merged_entry :: "region_map_entry list \<Rightarrow> region_map_entry \<Rightarrow> region_map_entry list \<Rightarrow> region_map_entry" where
  "merged_entry xs u ys =
     \<lparr>re_base = (if xs \<noteq> [] \<and> is_free (last xs) then re_base (last xs) else re_base u),
      re_limit = (if ys \<noteq> [] \<and> is_free (hd ys) then re_limit (hd ys) else re_limit u),
      re_type = Some FreeRegion\<rparr>"

lemma merge_free_set:
  shows "e \<in> set (merge_free xs u ys) \<Longrightarrow> e = merged_entry xs u ys \<or> e \<in> set xs \<union> set ys"
    and "e \<in> set xs \<union> set ys \<Longrightarrow> \<not> is_free e \<Longrightarrow> e \<in> set (merge_free xs u ys)"
proof -
  show "e \<in> set (merge_free xs u ys) \<Longrightarrow> e = merged_entry xs u ys \<or> e \<in> set xs \<union> set ys"
    by (auto simp: merge_free_def merged_entry_def dest: in_set_butlastD list.set_sel(2) split: if_splits)
  assume e: "e \<in> set xs \<union> set ys" "\<not> is_free e"
  have "e \<in> set (if xs \<noteq> [] \<and> is_free (last xs) then butlast xs else xs)" if "e \<in> set xs"
    using that e(2) in_set_conv_decomp_last [of e xs]
    by (cases xs rule: rev_cases) auto
  moreover have "e \<in> set (if ys \<noteq> [] \<and> is_free (hd ys) then tl ys else ys)" if "e \<in> set ys"
    using that e(2) by (cases ys) auto
  ultimately show "e \<in> set (merge_free xs u ys)" using e(1) unfolding merge_free_def by auto
qed

lemma merged_range:
  assumes part: "partition_of b (xs @ u # ys) l"
    and a: "a \<in> range_pages (re_base (merged_entry xs u ys)) (re_limit (merged_entry xs u ys))"
  shows "a \<in> range_pages (re_base u) (re_limit u)
    \<or> (\<exists>e \<in> set xs \<union> set ys. is_free e \<and> a \<in> range_pages (re_base e) (re_limit e))"
proof -
  obtain m where m: "partition_of b xs m" "re_base u = m" "partition_of (re_limit u) ys l"
    using part by (auto simp: partition_append)
  have x: "xs \<noteq> [] \<Longrightarrow> re_limit (last xs) = re_base u" using partition_last [OF m(1)] m(2) by simp
  have y: "ys \<noteq> [] \<Longrightarrow> re_base (hd ys) = re_limit u" using m(3) by (cases ys) auto
  show ?thesis
  proof (cases "a < re_base u")
    case True
    then have "xs \<noteq> []" "is_free (last xs)" "a \<in> range_pages (re_base (last xs)) (re_limit (last xs))"
      using a x by (auto simp: merged_entry_def range_pages_def split: if_splits)
    then show ?thesis using last_in_set by blast
  next
    case False
    show ?thesis
    proof (cases "a < re_limit u")
      case True
      then show ?thesis using a False by (simp add: range_pages_def)
    next
      case g: False
      then have "ys \<noteq> []" "is_free (hd ys)" "a \<in> range_pages (re_base (hd ys)) (re_limit (hd ys))"
        using a y by (auto simp: merged_entry_def range_pages_def split: if_splits)
      then show ?thesis using hd_in_set by blast
    qed
  qed
qed

lemma geometry_merge:
  assumes "geometry b l (xs @ u # ys)"
  shows "geometry b l (merge_free xs u ys)"
proof -
  have al: "\<forall>e \<in> insert u (set xs \<union> set ys). PAGE_SIZE dvd re_base e \<and> PAGE_SIZE dvd re_limit e"
    using assms by (auto simp: geometry_def)
  have "PAGE_SIZE dvd re_base (merged_entry xs u ys) \<and> PAGE_SIZE dvd re_limit (merged_entry xs u ys)"
    using al last_in_set [of xs] hd_in_set [of ys] by (auto simp: merged_entry_def)
  then show ?thesis
    using assms merge_free_partition [of b xs u ys l] merge_free_coalesced [of xs u ys] merge_free_set(1) al
    unfolding geometry_def by blast
qed

lemma mem_inv_unmap:
  assumes h: "heap_inv rl b l km ps (xs @ u # ys) fs" and r: "root = cr3_frame km"
    and fs': "set fs' \<subseteq> set fs"
    and f: "freed_to km root (entry_frames km root u (entry_count u) \<union> (set fs - set fs')) k"
    and lk: "\<forall>a. lookup k root a = (if vpn a \<in> (\<lambda>i. vpn (page_va (re_base u) i)) ` {..<entry_count u} then 0
           else lookup km root a)"
  shows "mem_inv b l k root (merge_free xs u ys) (set fs')"
proof -
  let ?us = "xs @ u # ys" and ?A = "range_pages (re_base u) (re_limit u)" and ?H = "heap_held km root (xs @ u # ys)"
  have m: "mem_inv b l km root ?us (set fs)" and g: "geometry b l ?us" using h r by (simp_all add: heap_inv_def)
  have pt: "partition_of b ?us l" "l - b \<le> 2 ^ 48" using g by (auto simp: geometry_def)
  note ps = partition_split [OF pt(1)] and e = heap_inv_entry [OF h] and hh = heap_inv_held [OF h r]
  have vA: "vpn a \<in> (\<lambda>i. vpn (page_va (re_base u) i)) ` {..<entry_count u} \<longleftrightarrow> a \<in> ?A" if a: "a \<in> range_pages b l" for a
  proof
    assume "vpn a \<in> (\<lambda>i. vpn (page_va (re_base u) i)) ` {..<entry_count u}"
    then obtain a' where a': "a' \<in> ?A" "vpn a = vpn a'" using e(2) by auto
    then have "a = a'" using a e(3) pt(2) by (intro vpn_inj [of a a' b l]) (auto simp: range_pages_def)
    then show "a \<in> ?A" using a'(1) by simp
  next
    assume "a \<in> ?A"
    then show "vpn a \<in> (\<lambda>i. vpn (page_va (re_base u) i)) ` {..<entry_count u}" unfolding e(2) [symmetric] by auto
  qed
  have lkA: "lookup k root a = (if a \<in> ?A then 0 else lookup km root a)" if "a \<in> range_pages b l" for a
    using lk vA [OF that] by simp
  have oth: "range_pages (re_base v) (re_limit v) \<subseteq> range_pages b l - ?A" if "v \<in> set xs \<union> set ys" for v
    using that ps(1,2,3) ps(4) [of v] ps(5) [of v] by (auto simp: range_pages_def)
  have held: "heap_held k root (merge_free xs u ys) = ?H - ?A"
  proof (intro equalityI subsetI)
    fix a assume "a \<in> heap_held k root (merge_free xs u ys)"
    then obtain v t where v: "v \<in> set (merge_free xs u ys)" "re_type v = Some t" "holds_frames t"
        "a \<in> range_pages (re_base v) (re_limit v)" "is_present (lookup k root a)" by (auto simp: heap_held_def)
    then have "v \<in> set xs \<union> set ys" using merge_free_set(1) [OF v(1)] by (auto simp: merged_entry_def holds_frames_def)
    then show "a \<in> ?H - ?A" using v oth [of v] lkA [of a] by (auto simp: heap_held_def)
  next
    fix a assume a: "a \<in> ?H - ?A"
    then obtain v t where v: "v \<in> set xs \<union> set ys" "re_type v = Some t" "holds_frames t"
        "a \<in> range_pages (re_base v) (re_limit v)" "is_present (lookup km root a)" by (auto simp: heap_held_def)
    then have "v \<in> set (merge_free xs u ys)" using merge_free_set(2) by (auto simp: is_free_def holds_frames_def)
    then show "a \<in> heap_held k root (merge_free xs u ys)" using v oth [of v] lkA [of a] a by (auto simp: heap_held_def)
  qed
  have HR: "?H \<subseteq> range_pages b l"
    using oth e(3) by (auto simp: heap_held_def)
  have pf: "page_frame k root a = page_frame km root a" if "a \<in> ?H - ?A" for a using that lkA HR by auto
  have img: "page_frame k root ` (?H - ?A) = page_frame km root ` (?H - ?A)" by (rule image_cong) (simp_all add: pf)
  have inj: "inj_on (page_frame km root) ?H" and ld: "lendable km root (page_frame km root ` ?H \<union> set fs)"
    and dF: "page_frame km root ` ?H \<inter> set fs = {}" using m by (simp_all add: mem_inv_def)
  have "?H - ?A = ?H - (?H \<inter> ?A)" by auto
  then have dif: "page_frame km root ` (?H - ?A) = page_frame km root ` ?H - page_frame km root ` (?H \<inter> ?A)"
    using inj_on_image_set_diff [OF inj, of ?H "?H \<inter> ?A"] by auto
  have "lendable k root ((page_frame km root ` ?H \<union> set fs) - (page_frame km root ` (?H \<inter> ?A) \<union> (set fs - set fs')))"
    using f unfolding hh(2) by (intro lendable_freed [OF ld]) auto
  moreover have "(page_frame km root ` ?H \<union> set fs) - (page_frame km root ` (?H \<inter> ?A) \<union> (set fs - set fs')) =
      page_frame km root ` (?H - ?A) \<union> set fs'" using dF fs' unfolding dif by blast
  ultimately have "lendable k root (page_frame k root ` (?H - ?A) \<union> set fs')" unfolding img by simp
  moreover have "page_frame k root ` (?H - ?A) \<inter> set fs' = {}" unfolding img using dF fs' by blast
  moreover have "inj_on (page_frame k root) (?H - ?A)"
    using inj_on_cong [of "?H - ?A" "page_frame k root" "page_frame km root"] pf inj by (auto intro: inj_on_diff)
  moreover have "lookup k root a = 0" if v: "v \<in> set (merge_free xs u ys)" "is_free v" "a \<in> range_pages (re_base v) (re_limit v)" for v a
  proof -
    have "a \<in> ?A \<or> (\<exists>w \<in> set xs \<union> set ys. is_free w \<and> a \<in> range_pages (re_base w) (re_limit w))"
      using merge_free_set(1) [OF v(1)] v(2,3) merged_range [OF pt(1), of a] by blast
    then show ?thesis
    proof
      assume "a \<in> ?A"
      then show ?thesis using lkA [of a] e(3) by auto
    next
      assume "\<exists>w \<in> set xs \<union> set ys. is_free w \<and> a \<in> range_pages (re_base w) (re_limit w)"
      then obtain w where w: "w \<in> set xs \<union> set ys" "is_free w" "a \<in> range_pages (re_base w) (re_limit w)" by blast
      then have "lookup km root a = 0" using m by (auto simp: mem_inv_def)
      then show ?thesis using w(3) oth [OF w(1)] lkA [of a] by auto
    qed
  qed
  moreover have "no_huge_on k root (page_path a)" if "a \<in> range_pages b l" for a
    using that m freed_toD(6) [OF f page_path_ok] by (simp add: mem_inv_def)
  ultimately show ?thesis using freed_toD(1) [OF f] unfolding mem_inv_def held by blast
qed

lemma heap_inv_deallocate:
  assumes h: "heap_inv rl b l km ps (xs @ u # ys) fs" and t: "re_type u = Some t" "t \<noteq> FreeRegion"
  shows "\<exists>km' ps' fs'. manager_deallocate_region \<lparr>ri_start = re_base u, ri_limit = re_limit u\<rparr> ps km = Inr (km', ps')
     \<and> heap_inv rl b l km' ps' (merge_free xs u ys) fs' \<and> cr3_frame km' = cr3_frame km
     \<and> user_free (km_phys km) \<union> entry_frames km (cr3_frame km) u (entry_count u) \<subseteq> user_free (km_phys km')
     \<and> (\<forall>a. lookup km' (cr3_frame km) a = (if vpn a \<in> (\<lambda>i. vpn (page_va (re_base u) i)) ` {..<entry_count u} then 0
           else lookup km (cr3_frame km) a))"
proof -
  let ?r = "cr3_frame km"
  have h': "layout_wf rl" "table_rep rl ps (xs @ u # ys)" "partition_of b (xs @ u # ys) l" "l < usize_limit"
      "tree_inv km ?r" "\<not> km_page_lock km" "chain_frames ps fs" "geometry b l (xs @ u # ys)"
    using h by (auto simp: heap_inv_def geometry_def mem_inv_def)
  obtain km' ps' fs' where d: "manager_deallocate_region \<lparr>ri_start = re_base u, ri_limit = re_limit u\<rparr> ps km = Inr (km', ps')"
      "deallocated rl km (merge_free xs u ys) u (entry_count u) fs km' ps' fs'"
    using deallocate_spec [OF h'(1-6) heap_inv_freeable [OF h t] h'(7)] by blast
  have d': "table_rep rl ps' (merge_free xs u ys)" "chain_frames ps' fs'" "set fs' \<subseteq> set fs"
      "freed_to km ?r (entry_frames km ?r u (entry_count u) \<union> (set fs - set fs')) km'"
      "\<forall>a. lookup km' ?r a = (if vpn a \<in> (\<lambda>i. vpn (page_va (re_base u) i)) ` {..<entry_count u} then 0 else lookup km ?r a)"
    using d(2) by (simp_all add: deallocated_def)
  note fd = freed_toD [OF d'(4)]
  have "heap_inv rl b l km' ps' (merge_free xs u ys) fs'"
    using h'(1,6) d'(1,2) fd(4,5) geometry_merge [OF h'(8)] mem_inv_unmap [OF h refl d'(3-5)] by (simp add: heap_inv_def)
  then show ?thesis using d(1) d'(5) fd(2,4) by blast
qed

end
