(* ===== verification/Region_System.thy ===== *)
theory Region_System
  imports Region_Invariant "HOL-Library.Multiset"
begin

text \<open>
  The region manager behind its global lock: what \<^verbatim>\<open>allocate_region\<close>, \<^verbatim>\<open>allocate_kernel_stack\<close>,
  \<^verbatim>\<open>map_physical_memory\<close> and dropping a \<^verbatim>\<open>Region\<close> do to the whole state, and the runs that these
  operations make.
\<close>

section \<open>The invariant of the global state\<close>

definition regions_inv :: "region_layout \<Rightarrow> usize \<Rightarrow> usize \<Rightarrow> kstate \<Rightarrow> region_map_entry list \<Rightarrow> bool" where
  "regions_inv rl b l ks us \<longleftrightarrow>
     (\<exists>ps fs. ks_regions ks = Some ps \<and> heap_inv rl b l (ks_mem ks) ps us fs)"

abbreviation ks_lookup :: "kstate \<Rightarrow> usize \<Rightarrow> raw_pte" where
  "ks_lookup ks \<equiv> lookup (ks_mem ks) (cr3_frame (ks_mem ks))"

text \<open>The state that \<^verbatim>\<open>init\<close> starts from: an aligned range with nothing mapped in it.\<close>

definition heap_boot :: "region_layout \<Rightarrow> usize \<Rightarrow> usize \<Rightarrow> kstate \<Rightarrow> bool" where
  "heap_boot rl base limit ks \<longleftrightarrow> layout_wf rl \<and> PAGE_SIZE dvd base \<and> PAGE_SIZE dvd limit
     \<and> base < limit \<and> limit < usize_limit \<and> limit - base \<le> 2 ^ 48
     \<and> tree_inv (ks_mem ks) (cr3_frame (ks_mem ks)) \<and> \<not> km_page_lock (ks_mem ks)
     \<and> (\<forall>a \<in> range_pages base limit. ks_lookup ks a = 0
          \<and> no_huge_on (ks_mem ks) (cr3_frame (ks_mem ks)) (page_path a))"

definition whole :: "usize \<Rightarrow> usize \<Rightarrow> region_map_entry" where
  "whole base limit = \<lparr>re_base = base, re_limit = limit, re_type = Some FreeRegion\<rparr>"

lemma heap_init_inv:
  assumes "heap_boot rl base limit ks"
  shows "regions_inv rl base limit (heap_init rl base limit ks) [whole base limit]"
proof -
  have wf: "layout_wf rl" and al: "PAGE_SIZE dvd base" "PAGE_SIZE dvd limit"
    and r: "base < limit" "limit < usize_limit" "limit - base \<le> 2 ^ 48"
    and inv: "tree_inv (ks_mem ks) (cr3_frame (ks_mem ks))" and lk: "\<not> km_page_lock (ks_mem ks)"
    and un: "\<forall>a \<in> range_pages base limit. ks_lookup ks a = 0
               \<and> no_huge_on (ks_mem ks) (cr3_frame (ks_mem ks)) (page_path a)"
    using assms by (auto simp: heap_boot_def)
  let ?e = "\<lparr>re_base = base, re_limit = limit, re_type = Some FreeRegion\<rparr>" and ?ps = "manager_new rl base limit"
  obtain m where m: "rl_entries rl = Suc m" using wf by (cases "rl_entries rl") (auto simp: layout_wf_def)
  have "table_rep rl ?ps [?e]" unfolding manager_new_def table_rep_single by (simp add: m)
  moreover have "geometry base limit [?e]" using al r by (simp add: geometry_def)
  moreover have "heap_held (ks_mem ks) (cr3_frame (ks_mem ks)) [?e] = {}" by (auto simp: heap_held_def holds_frames_def)
  then have "mem_inv base limit (ks_mem ks) (cr3_frame (ks_mem ks)) [?e] {}"
    using inv un by (simp add: mem_inv_def lendable_def)
  moreover have "chain_frames ?ps []" by (simp add: chain_frames_def manager_new_def)
  ultimately have "heap_inv rl base limit (ks_mem ks) ?ps [?e] []" using wf lk by (simp add: heap_inv_def)
  then show ?thesis by (auto simp: regions_inv_def heap_init_def mutex_init_def whole_def)
qed

text \<open>Which kinds and sizes of region the mapping operations accept.\<close>

definition mappable :: "region_kind \<Rightarrow> nat \<Rightarrow> bool" where
  "mappable kind n \<longleftrightarrow> 0 < n \<and> n \<le> 2 ^ 36 \<and> (case kind of
       FreeRegion \<Rightarrow> False | Heap \<Rightarrow> True | KernelStack \<Rightarrow> 2 \<le> n
     | PhysicalMapping pmap \<Rightarrow> pmap_address pmap + n * PAGE_SIZE \<le> 2 ^ 52)"

definition backed :: "region_kind \<Rightarrow> (usize \<Rightarrow> raw_pte) \<Rightarrow> usize \<Rightarrow> nat \<Rightarrow> bool" where
  "backed kind = (case kind of
       FreeRegion \<Rightarrow> (\<lambda>_ _ _. True) | Heap \<Rightarrow> heap_backed | KernelStack \<Rightarrow> stack_backed
     | PhysicalMapping pmap \<Rightarrow> physically_backed pmap)"

lemma manager_allocates:
  assumes h: "heap_inv rl b l km ps (xs @ u # ys) fs"
    and x: "\<forall>x \<in> set xs. \<not> entry_fits (n * PAGE_SIZE) x" and u: "entry_fits (n * PAGE_SIZE) u"
    and k: "mappable kind n" and mem: "memory_for (4 * n + 1) km"
  shows "\<exists>km' ps' fs'. manager_allocate_region rl n kind ps km = Inr (km', ps', Inr (region_handle (re_base u) n))
     \<and> allocated rl b l km (xs @ split_entry u (n * PAGE_SIZE) kind @ ys) (re_base u) n (backed kind) km' ps' fs'"
proof (cases kind)
  case FreeRegion
  then show ?thesis using k by (simp add: mappable_def)
next
  case Heap
  then show ?thesis using heap.allocates [OF h x u _ _ _ mem] k by (simp add: mappable_def backed_def)
next
  case KernelStack
  then show ?thesis using stack.allocates [OF h x u _ _ _ mem] k by (simp add: mappable_def backed_def)
next
  case (PhysicalMapping pmap)
  have "memory_for (3 * n + 1) km" using mem by (simp add: memory_for_def)
  then show ?thesis
    using PhysicalMapping physical.allocates [OF h x u, of pmap] k by (simp add: mappable_def backed_def)
qed

lemma locked_allocate_ok:
  assumes inv: "regions_inv rl b l ks (xs @ u # ys)"
    and x: "\<forall>x \<in> set xs. \<not> entry_fits (n * PAGE_SIZE) x" and u: "entry_fits (n * PAGE_SIZE) u"
    and k: "mappable kind n" and mem: "memory_for (4 * n + 1) (ks_mem ks)"
  shows "\<exists>ks'. locked_allocate rl n kind ks = Inr (ks', Inr (region_handle (re_base u) n))
     \<and> regions_inv rl b l ks' (xs @ split_entry u (n * PAGE_SIZE) kind @ ys)
     \<and> backed kind (ks_lookup ks') (re_base u) n
     \<and> (\<forall>a. vpn a \<notin> (\<lambda>i. vpn (page_va (re_base u) i)) ` {..<n} \<longrightarrow> ks_lookup ks' a = ks_lookup ks a)"
proof -
  obtain ps fs where p: "ks_regions ks = Some ps" "heap_inv rl b l (ks_mem ks) ps (xs @ u # ys) fs"
    using inv by (auto simp: regions_inv_def)
  obtain km' ps' fs' where a: "manager_allocate_region rl n kind ps (ks_mem ks) = Inr (km', ps', Inr (region_handle (re_base u) n))"
      "allocated rl b l (ks_mem ks) (xs @ split_entry u (n * PAGE_SIZE) kind @ ys) (re_base u) n (backed kind) km' ps' fs'"
    using manager_allocates [OF p(2) x u k mem] by blast
  let ?ks = "\<lparr>ks_mem = km', ks_regions = Some ps'\<rparr>"
  have "locked_allocate rl n kind ks = Inr (?ks, Inr (region_handle (re_base u) n))"
    using p(1) a(1) by (simp add: locked_allocate_def)
  moreover have "heap_inv rl b l km' ps' (xs @ split_entry u (n * PAGE_SIZE) kind @ ys) fs'"
    "cr3_frame km' = cr3_frame (ks_mem ks)" "backed kind (lookup km' (cr3_frame (ks_mem ks))) (re_base u) n"
    "\<forall>a. vpn a \<notin> (\<lambda>i. vpn (page_va (re_base u) i)) ` {..<n} \<longrightarrow> lookup km' (cr3_frame (ks_mem ks)) a = ks_lookup ks a"
    using a(2) by (simp_all add: allocated_def)
  ultimately show ?thesis by (intro exI [of _ ?ks]) (auto simp: regions_inv_def)
qed

lemma locked_allocate_none:
  assumes inv: "regions_inv rl b l ks us" and no: "\<forall>u \<in> set us. \<not> entry_fits (n * PAGE_SIZE) u"
    and n: "n * PAGE_SIZE < usize_limit"
  shows "locked_allocate rl n kind ks = Inr (ks, Inl NoRegionAddressSpaceAvailable)"
proof -
  obtain ps fs where p: "ks_regions ks = Some ps" "heap_inv rl b l (ks_mem ks) ps us fs"
    using inv by (auto simp: regions_inv_def)
  have "\<forall>u \<in> set us. entry_wf u \<and> \<not> entry_fits (n * PAGE_SIZE) u" using no heap_inv_wf [OF p(2)] by blast
  moreover have "table_rep rl ps us" using p(2) by (simp add: heap_inv_def)
  ultimately have "allocate_first_fit rl ps (n * PAGE_SIZE) (region_closure (n * PAGE_SIZE) kind) (ks_mem ks)
      = Inr (ks_mem ks, ps, Inl NoRegionAddressSpaceAvailable)" by (rule allocate_none)
  then show ?thesis
    using p(1) n by (simp add: locked_allocate_def manager_allocate_region_def umul_def)
qed

lemma region_drop_ok:
  assumes inv: "regions_inv rl b l ks (xs @ u # ys)" and t: "re_type u = Some t" "t \<noteq> FreeRegion"
    and r: "reg_info r = \<lparr>ri_start = re_base u, ri_limit = re_limit u\<rparr>"
  shows "\<exists>ks'. region_drop r ks = Inr ks' \<and> regions_inv rl b l ks' (merge_free xs u ys)
     \<and> user_free (km_phys (ks_mem ks)) \<union> entry_frames (ks_mem ks) (cr3_frame (ks_mem ks)) u (entry_count u)
         \<subseteq> user_free (km_phys (ks_mem ks'))
     \<and> (\<forall>a. ks_lookup ks' a = (if vpn a \<in> (\<lambda>i. vpn (page_va (re_base u) i)) ` {..<entry_count u} then 0
           else ks_lookup ks a))"
proof -
  obtain ps fs where p: "ks_regions ks = Some ps" "heap_inv rl b l (ks_mem ks) ps (xs @ u # ys) fs"
    using inv by (auto simp: regions_inv_def)
  obtain km' ps' fs' where d: "manager_deallocate_region (reg_info r) ps (ks_mem ks) = Inr (km', ps')"
      "heap_inv rl b l km' ps' (merge_free xs u ys) fs'" "cr3_frame km' = cr3_frame (ks_mem ks)"
      "user_free (km_phys (ks_mem ks)) \<union> entry_frames (ks_mem ks) (cr3_frame (ks_mem ks)) u (entry_count u)
         \<subseteq> user_free (km_phys km')"
      "\<forall>a. lookup km' (cr3_frame (ks_mem ks)) a =
         (if vpn a \<in> (\<lambda>i. vpn (page_va (re_base u) i)) ` {..<entry_count u} then 0 else ks_lookup ks a)"
    using heap_inv_deallocate [OF p(2) t] unfolding r by blast
  let ?ks = "\<lparr>ks_mem = km', ks_regions = Some ps'\<rparr>"
  have "region_drop r ks = Inr ?ks" using p(1) d(1) by (simp add: region_drop_def)
  then show ?thesis using d(2-5) by (intro exI [of _ ?ks]) (auto simp: regions_inv_def)
qed


section \<open>The abstract heap\<close>

text \<open>
  What the manager promises, over the list of entries alone: allocation takes the front of the
  first free entry that is large enough, and giving a region back merges it with its free
  neighbours.
\<close>

fun spec_allocate :: "usize \<Rightarrow> region_kind \<Rightarrow> region_map_entry list \<Rightarrow> (usize \<times> region_map_entry list) option" where
  "spec_allocate r kind [] = None"
| "spec_allocate r kind (u # us) =
     (if entry_fits r u then Some (re_base u, split_entry u r kind @ us)
      else map_option (\<lambda>(base, us'). (base, u # us')) (spec_allocate r kind us))"

fun spec_release :: "region_map_entry list \<Rightarrow> region_info \<Rightarrow> region_map_entry list \<Rightarrow> region_map_entry list option" where
  "spec_release xs info [] = None"
| "spec_release xs info (u # us) =
     (if re_base u = ri_start info \<and> re_limit u = ri_limit info \<and> \<not> is_free u then Some (merge_free xs u us)
      else spec_release (xs @ [u]) info us)"

definition info_of :: "region_map_entry \<Rightarrow> region_info" where
  "info_of u = \<lparr>ri_start = re_base u, ri_limit = re_limit u\<rparr>"

definition in_use :: "region_map_entry list \<Rightarrow> region_info list" where
  "in_use us = map info_of (filter (\<lambda>u. \<not> is_free u) us)"

lemma spec_allocate_None: "spec_allocate r kind us = None \<longleftrightarrow> (\<forall>u \<in> set us. \<not> entry_fits r u)"
  by (induction us) auto

lemma spec_allocate_Some:
  "spec_allocate r kind us = Some (base, us') \<Longrightarrow>
   \<exists>xs u ys. us = xs @ u # ys \<and> (\<forall>x \<in> set xs. \<not> entry_fits r x) \<and> entry_fits r u \<and> base = re_base u
     \<and> us' = xs @ split_entry u r kind @ ys"
proof (induction us arbitrary: us')
  case (Cons v us)
  show ?case
  proof (cases "entry_fits r v")
    case True
    then show ?thesis using Cons.prems by (intro exI [of _ "[]"]) auto
  next
    case False
    then obtain us1 where "spec_allocate r kind us = Some (base, us1)" "us' = v # us1" using Cons.prems by auto
    moreover obtain xs u ys where "us = xs @ u # ys" "\<forall>x \<in> set xs. \<not> entry_fits r x" "entry_fits r u" "base = re_base u"
        "us1 = xs @ split_entry u r kind @ ys"
      using Cons.IH [OF calculation(1)] by blast
    ultimately show ?thesis using False by (intro exI [of _ "v # xs"] exI [of _ u] exI [of _ ys]) auto
  qed
qed simp

lemma spec_release_Some:
  "spec_release ws info us = Some us' \<Longrightarrow>
   \<exists>xs u ys. us = xs @ u # ys \<and> info_of u = info \<and> \<not> is_free u \<and> us' = merge_free (ws @ xs) u ys"
proof (induction us arbitrary: ws)
  case (Cons v us)
  show ?case
  proof (cases "info_of v = info \<and> \<not> is_free v")
    case True
    then show ?thesis using Cons.prems by (intro exI [of _ "[]"]) (auto simp: info_of_def)
  next
    case False
    then have "spec_release (ws @ [v]) info us = Some us'" using Cons.prems by (cases info) (auto simp: info_of_def split: if_splits)
    then obtain xs u ys where "us = xs @ u # ys" "info_of u = info" "\<not> is_free u" "us' = merge_free ((ws @ [v]) @ xs) u ys"
      using Cons.IH by blast
    then show ?thesis by (intro exI [of _ "v # xs"] exI [of _ u] exI [of _ ys]) auto
  qed
qed simp

lemma spec_release_in_use: "i \<in> set (in_use us) \<Longrightarrow> \<exists>us'. spec_release ws i us = Some us'"
proof (induction us arbitrary: ws)
  case (Cons u us)
  have "i \<in> set (in_use us) \<or> info_of u = i \<and> \<not> is_free u" using Cons.prems by (auto simp: in_use_def split: if_splits)
  then show ?case using Cons.IH by (auto simp: info_of_def)
qed (simp add: in_use_def)

lemma in_use_split:
  assumes "entry_fits r u" and "kind \<noteq> FreeRegion"
  shows "mset (in_use (xs @ split_entry u r kind @ ys)) =
     add_mset \<lparr>ri_start = re_base u, ri_limit = re_base u + r\<rparr> (mset (in_use (xs @ u # ys)))"
  using assms by (simp add: in_use_def split_entry_def entry_fits_def is_free_def info_of_def)

lemma in_use_merge:
  assumes "\<not> is_free u"
  shows "mset (in_use (merge_free xs u ys)) = mset (in_use (xs @ u # ys)) - {#info_of u#}"
proof -
  let ?f = "filter (\<lambda>u. \<not> is_free u)"
  have "?f (if xs \<noteq> [] \<and> is_free (last xs) then butlast xs else xs) = ?f xs"
    by (cases xs rule: rev_cases) auto
  moreover have "?f (if ys \<noteq> [] \<and> is_free (hd ys) then tl ys else ys) = ?f ys" by (cases ys) auto
  moreover have "is_free \<lparr>re_base = x, re_limit = y, re_type = Some FreeRegion\<rparr>" for x y by (simp add: is_free_def)
  ultimately show ?thesis using assms unfolding in_use_def merge_free_def by (simp del: filter.simps(2) add: filter.simps(2))
qed

lemma in_use_sorted:
  "partition_of b us l \<Longrightarrow> sorted_wrt (\<lambda>i j. ri_limit i \<le> ri_start j) (in_use us)
     \<and> (\<forall>i \<in> set (in_use us). b \<le> ri_start i \<and> ri_start i < ri_limit i \<and> ri_limit i \<le> l)"
proof (induction us arbitrary: b)
  case (Cons u us)
  then have "sorted_wrt (\<lambda>i j. ri_limit i \<le> ri_start j) (in_use us)" and
    i: "\<forall>i \<in> set (in_use us). re_limit u \<le> ri_start i \<and> ri_start i < ri_limit i \<and> ri_limit i \<le> l" and
    l: "re_limit u \<le> l" using partition_le [of "re_limit u" us l] by auto
  then show ?case using Cons.prems by (auto simp: in_use_def info_of_def)
qed (simp add: in_use_def)

text \<open>Regions that the manager hands out never overlap.\<close>

definition apart :: "region_info list \<Rightarrow> bool" where
  "apart is \<longleftrightarrow> distinct is \<and> (\<forall>i \<in> set is. \<forall>j \<in> set is. i \<noteq> j \<longrightarrow> ri_limit i \<le> ri_start j \<or> ri_limit j \<le> ri_start i)"

lemma sorted_apart:
  assumes "sorted_wrt (\<lambda>i j. ri_limit i \<le> ri_start j) is" and "\<forall>i \<in> set is. ri_start i < ri_limit i"
  shows "apart is"
  using assms by (induction "is") (fastforce simp: apart_def)+

lemma apart_perm: "mset is = mset js \<Longrightarrow> apart is \<longleftrightarrow> apart js"
  by (metis apart_def mset_eq_setD mset_eq_imp_distinct_iff)

lemma regions_inv_geometry: "regions_inv rl b l ks us \<Longrightarrow> geometry b l us"
  by (auto simp: regions_inv_def heap_inv_def)

lemma all_free:
  assumes "geometry b l us" and "b < l" and "in_use us = []"
  shows "us = [whole b l]"
proof -
  have p: "partition_of b us l" "coalesced us" using assms(1) by (auto simp: geometry_def)
  have f: "\<forall>u \<in> set us. is_free u" using assms(3) by (auto simp: in_use_def filter_empty_conv)
  obtain u us' where us: "us = u # us'" using p(1) assms(2) by (cases us) auto
  then have "us' = []" using p(2) f by (cases us') (auto simp: coalesced_Cons)
  then show ?thesis using p(1) f us by (cases u) (auto simp: is_free_def whole_def)
qed

section \<open>Giving back what is not allocated\<close>

lemma find_drop_shift: "(\<exists>x. find_drop es j start = Inr (Some x)) \<longleftrightarrow> (\<exists>x. find_drop es k start = Inr (Some x))"
proof (induction es arbitrary: j k)
  case (Cons e es)
  show ?case using Cons.IH [of "Suc j" "Suc k"] by (auto simp: bindR_def guardR_def split: sum.splits)
qed simp

lemma find_drop_append:
  "\<not> (\<exists>x. find_drop (es @ fs) j start = Inr (Some x)) \<Longrightarrow>
   (\<exists>e. find_drop es j start = Inl e) \<or> find_drop es j start = Inr None \<and> \<not> (\<exists>x. find_drop fs j start = Inr (Some x))"
proof (induction es arbitrary: j)
  case (Cons e es)
  show ?case
    using Cons.IH [of "Suc j"] Cons.prems find_drop_shift [of fs "Suc j" start j]
    by (auto simp: bindR_def guardR_def split: sum.splits if_splits)
qed simp

lemma deallocate_not_found:
  "\<not> (\<exists>x. find_drop (concat (map rp_entries ps)) 0 (ri_start info) = Inr (Some x)) \<Longrightarrow>
   \<exists>e. deallocate_recurse_thing ps info km = Inl e"
proof (induction ps)
  case (Cons p ps)
  from Cons.prems have n: "\<not> (\<exists>x. find_drop (rp_entries p @ concat (map rp_entries ps)) 0 (ri_start info) = Inr (Some x))"
    by simp
  show ?case using find_drop_append [OF n] Cons.IH by auto
qed simp

lemma deallocate_inside_free:
  assumes rep: "table_rep rl ps (xs @ u # ys)" and g: "geometry b l (xs @ u # ys)" and f: "is_free u"
    and s: "re_base u \<le> ri_start info" "ri_start info < re_limit u"
  shows "\<exists>e. deallocate_recurse_thing ps info km = Inl e"
proof -
  let ?s = "ri_start info"
  have p: "partition_of b (xs @ u # ys) l" and c: "coalesced (xs @ u # ys)" using g by (auto simp: geometry_def)
  have "passed ?s x" if x: "x \<in> set xs" for x
  proof -
    have "re_limit x \<le> re_base u" "re_base x < re_limit x" "re_type x \<noteq> None"
      using partition_split(4) [OF p x] partition_mem [OF p, of x] partition_typed [OF p] x by (auto simp: typed_def)
    moreover have "\<not> is_free x" if "re_limit x = re_base u"
    proof (cases "x = last xs")
      case True
      then show ?thesis using c f x by (auto simp: coalesced_append)
    next
      case False
      have "x \<in> set (butlast xs)" using x False by (cases xs rule: rev_cases) auto
      moreover have "partition_of b xs (re_base u)" using p partition_append [of b xs "u # ys" l] by auto
      ultimately show ?thesis using partition_passed [of b xs "re_base u" x] that by (simp add: passed_def is_free_def)
    qed
    ultimately show ?thesis using s by (auto simp: passed_def is_free_def)
  qed
  then have px: "\<forall>x \<in> set xs. passed ?s x" by blast
  show ?thesis
  proof (cases "re_base u = ?s")
    case True
    have "stops ?s False u" using f s True by (auto simp: stops_def is_free_def)
    from deallocate_at [OF rep px this, of km] obtain ps1 p ps2 zs2 where
      d: "table_rep rl (p # ps2) (zs2 @ u # ys)" "length zs2 < rl_entries rl"
         "deallocate_recurse_thing ps info km = bindR (drop_entry p ps2 (length zs2) 0 info km) (\<lambda>(km'', ps''). Inr (km'', ps1 @ ps''))"
      by auto
    have "rp_entries p ! length zs2 = u" using table_rep_nth [OF d(1) _ d(2)] by simp
    then show ?thesis using d(3) f by (simp add: drop_entry_def is_free_def)
  next
    case False
    obtain k where k: "concat (map rp_entries ps) = (xs @ u # ys) @ replicate k empty_entry"
      using rep by (auto simp: table_rep_def)
    have "passed ?s u" using f s False by (auto simp: passed_def is_free_def)
    then have "find_drop (concat (map rp_entries ps)) 0 ?s = find_drop (ys @ replicate k empty_entry) (length (xs @ [u])) ?s"
      unfolding k using px find_drop_passed [of "xs @ [u]" ?s "ys @ replicate k empty_entry" 0] by simp
    moreover have "\<not> (\<exists>x. find_drop (ys @ replicate k empty_entry) j ?s = Inr (Some x))" for j
    proof (cases ys)
      case Nil
      then show ?thesis by (cases k) (simp_all add: empty_entry_def)
    next
      case (Cons v vs)
      then have "?s < re_base v" using p s(2) partition_append [of b xs "u # ys" l] by auto
      then show ?thesis using Cons by simp
    qed
    ultimately show ?thesis using deallocate_not_found by simp
  qed
qed


lemma allocate_refines:
  assumes inv: "regions_inv rl b l ks us" and k: "mappable kind n" and mem: "memory_for (4 * n + 1) (ks_mem ks)"
  shows "case spec_allocate (n * PAGE_SIZE) kind us of
       None \<Rightarrow> locked_allocate rl n kind ks = Inr (ks, Inl NoRegionAddressSpaceAvailable)
     | Some (base, us') \<Rightarrow> \<exists>ks'. locked_allocate rl n kind ks = Inr (ks', Inr (region_handle base n))
         \<and> regions_inv rl b l ks' us' \<and> backed kind (ks_lookup ks') base n
         \<and> (\<forall>a. vpn a \<notin> (\<lambda>i. vpn (page_va base i)) ` {..<n} \<longrightarrow> ks_lookup ks' a = ks_lookup ks a)"
proof (cases "spec_allocate (n * PAGE_SIZE) kind us")
  case None
  have n: "n * PAGE_SIZE < usize_limit" using k by (simp add: mappable_def PAGE_SIZE_def usize_limit_def)
  show ?thesis using None locked_allocate_none [OF inv iffD1 [OF spec_allocate_None None] n] by simp
next
  case (Some z)
  obtain base us' where z: "z = (base, us')" by (cases z)
  obtain xs u ys where u: "us = xs @ u # ys" "\<forall>x \<in> set xs. \<not> entry_fits (n * PAGE_SIZE) x"
      "entry_fits (n * PAGE_SIZE) u" "base = re_base u" "us' = xs @ split_entry u (n * PAGE_SIZE) kind @ ys"
    using spec_allocate_Some [OF Some [unfolded z]] by blast
  show ?thesis using locked_allocate_ok [OF inv [unfolded u(1)] u(2,3) k mem] Some z u(4,5) by simp
qed

lemma drop_refines:
  assumes inv: "regions_inv rl b l ks us" and s: "spec_release [] (reg_info r) us = Some us'"
  shows "\<exists>ks'. region_drop r ks = Inr ks' \<and> regions_inv rl b l ks' us'
     \<and> user_free (km_phys (ks_mem ks)) \<subseteq> user_free (km_phys (ks_mem ks'))
     \<and> (\<forall>a. ks_lookup ks' a = (if vpn a \<in> vpn ` range_pages (ri_start (reg_info r)) (ri_limit (reg_info r)) then 0
           else ks_lookup ks a))"
proof -
  obtain xs u ys where u: "us = xs @ u # ys" "info_of u = reg_info r" "\<not> is_free u" "us' = merge_free xs u ys"
    using spec_release_Some [OF s] by auto
  obtain t where t: "re_type u = Some t" "t \<noteq> FreeRegion"
  proof -
    have "partition_of b us l" using regions_inv_geometry [OF inv] by (simp add: geometry_def)
    then have "re_type u \<noteq> None" using partition_typed [of b us l] u(1) by simp
    then show thesis using u(3) that by (auto simp: is_free_def)
  qed
  obtain ps fs where "heap_inv rl b l (ks_mem ks) ps us fs" using inv by (auto simp: regions_inv_def)
  then have "vpn ` page_va (re_base u) ` {..<entry_count u} = vpn ` range_pages (re_base u) (re_limit u)"
    using heap_inv_entry(2) [of rl b l "ks_mem ks" ps xs u ys fs] u(1) by simp
  then have "(\<lambda>i. vpn (page_va (re_base u) i)) ` {..<entry_count u} = vpn ` range_pages (re_base u) (re_limit u)"
    by (simp add: image_image)
  moreover have r: "reg_info r = \<lparr>ri_start = re_base u, ri_limit = re_limit u\<rparr>" using u(2) by (simp add: info_of_def)
  ultimately show ?thesis using region_drop_ok [OF inv [unfolded u(1)] t r] unfolding r u(4) by auto
qed


section \<open>Runs\<close>

text \<open>
  A run of the manager: it is initialised, then regions of any kind are asked for, while the
  frame allocator has clean memory left, and regions that were handed out are dropped, in any
  order. \<open>live\<close> holds the regions handed out and not yet dropped.
\<close>

inductive heap_run :: "region_layout \<Rightarrow> usize \<Rightarrow> usize \<Rightarrow> kstate \<Rightarrow> kstate \<Rightarrow> region_info list \<Rightarrow> bool"
  for rl b l ks0 where
  run_init: "heap_run rl b l ks0 (heap_init rl b l ks0) []"
| run_allocate: "\<lbrakk>heap_run rl b l ks0 ks live; mappable kind n; memory_for (4 * n + 1) (ks_mem ks);
    locked_allocate rl n kind ks = Inr (ks', Inr r)\<rbrakk> \<Longrightarrow> heap_run rl b l ks0 ks' (reg_info r # live)"
| run_refused: "\<lbrakk>heap_run rl b l ks0 ks live; mappable kind n; memory_for (4 * n + 1) (ks_mem ks);
    locked_allocate rl n kind ks = Inr (ks', Inl e)\<rbrakk> \<Longrightarrow> heap_run rl b l ks0 ks' live"
| run_drop: "\<lbrakk>heap_run rl b l ks0 ks live; reg_info r \<in> set live; region_drop r ks = Inr ks'\<rbrakk>
    \<Longrightarrow> heap_run rl b l ks0 ks' (remove1 (reg_info r) live)"

definition live_inv :: "region_layout \<Rightarrow> usize \<Rightarrow> usize \<Rightarrow> kstate \<Rightarrow> kstate \<Rightarrow> region_info list \<Rightarrow> bool" where
  "live_inv rl b l ks0 ks live \<longleftrightarrow> (\<exists>us. regions_inv rl b l ks us \<and> mset (in_use us) = mset live)
     \<and> (\<forall>a. vpn a \<notin> vpn ` range_pages b l \<longrightarrow> ks_lookup ks a = ks_lookup ks0 a)"

lemma region_handle_info: "reg_info (region_handle base n) = \<lparr>ri_start = base, ri_limit = base + n * PAGE_SIZE\<rparr>"
  by (simp add: region_handle_def)

lemma mappable_kind: "mappable kind n \<Longrightarrow> kind \<noteq> FreeRegion"
  by (auto simp: mappable_def)

lemma live_allocate:
  assumes live: "live_inv rl b l ks0 ks live" and k: "mappable kind n" and mem: "memory_for (4 * n + 1) (ks_mem ks)"
  shows "(\<exists>base ks'. locked_allocate rl n kind ks = Inr (ks', Inr (region_handle base n))
            \<and> live_inv rl b l ks0 ks' (reg_info (region_handle base n) # live))
       \<or> locked_allocate rl n kind ks = Inr (ks, Inl NoRegionAddressSpaceAvailable)"
proof -
  obtain us where us: "regions_inv rl b l ks us" "mset (in_use us) = mset live"
    and out: "\<forall>a. vpn a \<notin> vpn ` range_pages b l \<longrightarrow> ks_lookup ks a = ks_lookup ks0 a"
    using live by (auto simp: live_inv_def)
  show ?thesis
  proof (cases "spec_allocate (n * PAGE_SIZE) kind us")
    case None
    then show ?thesis using allocate_refines [OF us(1) k mem] by simp
  next
    case (Some z)
    obtain base us' where z: "z = (base, us')" by (cases z)
    obtain ks' where a: "locked_allocate rl n kind ks = Inr (ks', Inr (region_handle base n))" "regions_inv rl b l ks' us'"
        "\<forall>a. vpn a \<notin> (\<lambda>i. vpn (page_va base i)) ` {..<n} \<longrightarrow> ks_lookup ks' a = ks_lookup ks a"
      using allocate_refines [OF us(1) k mem] Some z by auto
    obtain xs u ys where u: "us = xs @ u # ys" "entry_fits (n * PAGE_SIZE) u" "base = re_base u"
        "us' = xs @ split_entry u (n * PAGE_SIZE) kind @ ys"
      using spec_allocate_Some [OF Some [unfolded z]] by blast
    have m: "mset (in_use us') = mset (reg_info (region_handle base n) # live)"
      unfolding u(4) in_use_split [OF u(2) mappable_kind [OF k]] using us(2) u(1,3) by (simp add: region_handle_info)
    have g: "geometry b l us" using regions_inv_geometry [OF us(1)] .
    have "page_va base ` {..<n} \<subseteq> range_pages b l"
    proof -
      have "b \<le> base" "base + n * PAGE_SIZE \<le> l" "PAGE_SIZE dvd base"
        using g u(1-3) partition_split(1-3) [of b xs u ys l] by (auto simp: geometry_def entry_fits_def)
      then show ?thesis using range_pages_va [of base n] by (auto simp: range_pages_def)
    qed
    then have "\<forall>a. vpn a \<notin> vpn ` range_pages b l \<longrightarrow> ks_lookup ks' a = ks_lookup ks0 a"
      using a(3) out by fastforce
    then show ?thesis using a(1,2) m by (auto simp: live_inv_def)
  qed
qed

lemma live_drop:
  assumes live: "live_inv rl b l ks0 ks live" and r: "reg_info r \<in> set live"
  shows "\<exists>ks'. region_drop r ks = Inr ks' \<and> live_inv rl b l ks0 ks' (remove1 (reg_info r) live)"
proof -
  obtain us where us: "regions_inv rl b l ks us" "mset (in_use us) = mset live"
    and out: "\<forall>a. vpn a \<notin> vpn ` range_pages b l \<longrightarrow> ks_lookup ks a = ks_lookup ks0 a"
    using live by (auto simp: live_inv_def)
  have i: "reg_info r \<in> set (in_use us)" using r us(2) by (metis set_mset_mset)
  obtain us' where s: "spec_release [] (reg_info r) us = Some us'" using spec_release_in_use [OF i] by blast
  obtain ks' where d: "region_drop r ks = Inr ks'" "regions_inv rl b l ks' us'"
      "\<forall>a. ks_lookup ks' a = (if vpn a \<in> vpn ` range_pages (ri_start (reg_info r)) (ri_limit (reg_info r)) then 0
           else ks_lookup ks a)"
    using drop_refines [OF us(1) s] by blast
  obtain xs u ys where u: "us = xs @ u # ys" "info_of u = reg_info r" "\<not> is_free u" "us' = merge_free xs u ys"
    using spec_release_Some [OF s] by auto
  have m: "mset (in_use us') = mset (remove1 (reg_info r) live)"
    unfolding u(4) in_use_merge [OF u(3)] using us(2) u(1,2) by simp
  have "partition_of b us l" using regions_inv_geometry [OF us(1)] by (simp add: geometry_def)
  then have "b \<le> ri_start (reg_info r)" "ri_limit (reg_info r) \<le> l" using in_use_sorted i by blast+
  then have "range_pages (ri_start (reg_info r)) (ri_limit (reg_info r)) \<subseteq> range_pages b l"
    by (auto simp: range_pages_def)
  then have "\<forall>a. vpn a \<notin> vpn ` range_pages b l \<longrightarrow> ks_lookup ks' a = ks_lookup ks0 a" using d(3) out by fastforce
  then show ?thesis using d(1,2) m by (auto simp: live_inv_def)
qed

lemma heap_run_live:
  assumes boot: "heap_boot rl b l ks0" and run: "heap_run rl b l ks0 ks live"
  shows "live_inv rl b l ks0 ks live"
  using run
proof induction
  case run_init
  have "in_use [whole b l] = []" by (simp add: in_use_def whole_def is_free_def)
  moreover have "ks_mem (heap_init rl b l ks0) = ks_mem ks0" by (simp add: heap_init_def)
  ultimately show ?case using heap_init_inv [OF boot] by (auto simp: live_inv_def)
next
  case (run_allocate ks live kind n ks' r)
  then show ?case using live_allocate by fastforce
next
  case (run_refused ks live kind n ks' e)
  then show ?case using live_allocate [of rl b l ks0 ks live kind n] by auto
next
  case (run_drop ks live r ks')
  then show ?case using live_drop [of rl b l ks0 ks live r] by auto
qed


fun drop_all :: "region list \<Rightarrow> kstate \<Rightarrow> kstate res" where
  "drop_all [] ks = Inr ks"
| "drop_all (r # rs) ks = bindR (region_drop r ks) (drop_all rs)"

lemma live_drop_all:
  "live_inv rl b l ks0 ks live \<Longrightarrow> mset (map reg_info rs) = mset live \<Longrightarrow>
   \<exists>ks'. drop_all rs ks = Inr ks' \<and> live_inv rl b l ks0 ks' []"
proof (induction rs arbitrary: ks live)
  case (Cons r rs)
  have r: "reg_info r \<in> set live" using Cons.prems(2) mset_eq_setD [OF Cons.prems(2)] by auto
  obtain ks1 where d: "region_drop r ks = Inr ks1" "live_inv rl b l ks0 ks1 (remove1 (reg_info r) live)"
    using live_drop [OF Cons.prems(1) r] by blast
  have "mset (map reg_info rs) = mset (remove1 (reg_info r) live)"
    using Cons.prems(2) by (metis add_mset_remove_trivial list.simps(9) mset.simps(2) mset_remove1)
  then show ?case using Cons.IH [OF d(2)] d(1) by simp
qed simp

lemma lookup_vpn: "vpn a = vpn a' \<Longrightarrow> lookup km root a = lookup km root a'"
  using same_page_iff [of a a'] by (simp add: lookup_def)

lemma live_none:
  assumes boot: "heap_boot rl b l ks0" and live: "live_inv rl b l ks0 ks []"
  shows "regions_inv rl b l ks [whole b l] \<and> (\<forall>a. ks_lookup ks a = ks_lookup ks0 a)"
proof -
  obtain us where us: "regions_inv rl b l ks us" "in_use us = []" using live by (auto simp: live_inv_def)
  have "b < l" using boot by (simp add: heap_boot_def)
  then have w: "regions_inv rl b l ks [whole b l]" using all_free [OF regions_inv_geometry [OF us(1)] _ us(2)] us(1) by simp
  then have z: "\<forall>a \<in> range_pages b l. ks_lookup ks a = 0"
    by (auto simp: regions_inv_def heap_inv_def mem_inv_def whole_def is_free_def)
  have "ks_lookup ks a = ks_lookup ks0 a" for a
  proof (cases "vpn a \<in> vpn ` range_pages b l")
    case True
    then obtain a' where a: "a' \<in> range_pages b l" "vpn a = vpn a'" by blast
    have "ks_lookup ks0 a' = 0" using boot a(1) by (simp add: heap_boot_def)
    then show ?thesis using z a(1) lookup_vpn [OF a(2)] by simp
  next
    case False
    then show ?thesis using live by (simp add: live_inv_def)
  qed
  then show ?thesis using w by blast
qed

lemma released_not_droppable:
  assumes s: "spec_release [] (reg_info r) us = Some us'" and g: "geometry b l us" and inv: "regions_inv rl b l ks us'"
  shows "\<exists>p. region_drop r ks = Inl p"
proof -
  obtain xs u ys where u: "us = xs @ u # ys" "info_of u = reg_info r" "us' = merge_free xs u ys"
    using spec_release_Some [OF s] by auto
  have part: "partition_of b (xs @ u # ys) l" using g u(1) by (simp add: geometry_def)
  obtain xs' m ys' where m: "us' = xs' @ m # ys'" "is_free m" "re_base m \<le> re_base u" "re_base u < re_limit m"
  proof -
    let ?x = "if xs \<noteq> [] \<and> is_free (last xs) then butlast xs else xs"
      and ?y = "if ys \<noteq> [] \<and> is_free (hd ys) then tl ys else ys"
    have "re_base (last xs) \<le> re_base u" if "xs \<noteq> []"
      using partition_split(4) [OF part, of "last xs"] partition_mem [OF part, of "last xs"] that by fastforce
    moreover have "re_base u < re_limit (hd ys)" if "ys \<noteq> []"
      using partition_split(2) [OF part] partition_split(5) [OF part, of "hd ys"] partition_mem [OF part, of "hd ys"] that
      by fastforce
    moreover have "us' = ?x @ merged_entry xs u ys # ?y" using u(3) by (simp add: merge_free_def merged_entry_def)
    ultimately show thesis
      using that [of ?x "merged_entry xs u ys" ?y] partition_split(2) [OF part]
      by (auto simp: merged_entry_def is_free_def split: if_splits)
  qed
  obtain ps fs where p: "ks_regions ks = Some ps" "heap_inv rl b l (ks_mem ks) ps us' fs"
    using inv by (auto simp: regions_inv_def)
  have "ri_start (reg_info r) = re_base u" using u(2) by (simp add: info_of_def flip: u(2))
  then obtain e where "deallocate_recurse_thing ps (reg_info r) (ks_mem ks) = Inl e"
    using deallocate_inside_free [of rl ps xs' m ys' b l "reg_info r" "ks_mem ks"] p(2) m by (auto simp: heap_inv_def)
  then show ?thesis using p(1) by (simp add: region_drop_def manager_deallocate_region_def)
qed

lemma spec_allocate_range:
  assumes "spec_allocate r kind us = Some (base, us')" and "geometry b l us"
  shows "PAGE_SIZE dvd base" and "base + r \<le> l" and "l < usize_limit"
proof -
  obtain xs u ys where u: "us = xs @ u # ys" "entry_fits r u" "base = re_base u" using spec_allocate_Some [OF assms(1)] by blast
  have "partition_of b (xs @ u # ys) l" using assms(2) u(1) by (simp add: geometry_def)
  from partition_split(2,3) [OF this] show "base + r \<le> l" using u(2,3) by (auto simp: entry_fits_def)
  show "PAGE_SIZE dvd base" "l < usize_limit" using assms(2) u(1,3) by (simp_all add: geometry_def)
qed

section \<open>Physical mappings of any alignment\<close>

definition pages_spanned :: "usize \<Rightarrow> usize \<Rightarrow> nat" where
  "pages_spanned pa nbytes = round_up (pa mod PAGE_SIZE + nbytes) PAGE_SIZE div PAGE_SIZE"

lemma pages_spanned_bytes: "pages_spanned pa nbytes * PAGE_SIZE = round_up (pa mod PAGE_SIZE + nbytes) PAGE_SIZE"
  by (simp add: pages_spanned_def)

lemma pages_spanned_bounds:
  assumes "0 < nbytes" and "pa + nbytes + PAGE_SIZE \<le> 2 ^ 48"
  shows "0 < pages_spanned pa nbytes" and "pages_spanned pa nbytes \<le> 2 ^ 36"
    and "pa - pa mod PAGE_SIZE + pages_spanned pa nbytes * PAGE_SIZE \<le> 2 ^ 52"
    and "pa mod PAGE_SIZE + nbytes \<le> pages_spanned pa nbytes * PAGE_SIZE"
proof -
  show ge: "pa mod PAGE_SIZE + nbytes \<le> pages_spanned pa nbytes * PAGE_SIZE"
    unfolding pages_spanned_bytes by (simp add: round_up_ge)
  then show "0 < pages_spanned pa nbytes" using assms(1) by (cases "pages_spanned pa nbytes") auto
  have lt: "pages_spanned pa nbytes * PAGE_SIZE < pa mod PAGE_SIZE + nbytes + PAGE_SIZE"
    unfolding pages_spanned_bytes by (simp add: round_up_less)
  have m: "pa mod PAGE_SIZE \<le> pa" by simp
  then have "pages_spanned pa nbytes * PAGE_SIZE < 2 ^ 36 * PAGE_SIZE" using lt assms(2) by (simp add: PAGE_SIZE_def)
  then show "pages_spanned pa nbytes \<le> 2 ^ 36" by simp
  show "pa - pa mod PAGE_SIZE + pages_spanned pa nbytes * PAGE_SIZE \<le> 2 ^ 52" using lt m assms(2) by simp
qed

lemma aligned_limit:
  "round_up (pa + nbytes) PAGE_SIZE = pa - pa mod PAGE_SIZE + round_up (pa mod PAGE_SIZE + nbytes) PAGE_SIZE"
proof -
  have "pa + nbytes + PAGE_SIZE - 1 = (pa mod PAGE_SIZE + nbytes + PAGE_SIZE - 1) + pa div PAGE_SIZE * PAGE_SIZE"
    using div_mult_mod_eq [of pa PAGE_SIZE] PAGE_SIZE_pos by linarith
  then have "(pa + nbytes + PAGE_SIZE - 1) div PAGE_SIZE = pa div PAGE_SIZE + (pa mod PAGE_SIZE + nbytes + PAGE_SIZE - 1) div PAGE_SIZE"
    by simp
  then show ?thesis by (simp add: round_up_div minus_mod_eq_div_mult add_mult_distrib)
qed

lemma map_physical_memory_eq:
  assumes "0 < nbytes" and "pa + nbytes + PAGE_SIZE \<le> 2 ^ 48"
  shows "map_physical_memory rl pa nbytes flags ks =
     bindE (locked_allocate rl (pages_spanned pa nbytes)
              (PhysicalMapping \<lparr>pmap_address = pa - pa mod PAGE_SIZE, pmap_flags = flags\<rparr>)) (\<lambda>r.
     liftE (apply_offset r (pa mod PAGE_SIZE) nbytes)) ks"
proof -
  have lim: "pa + nbytes + PAGE_SIZE < usize_limit" using assms(2) by (simp add: usize_limit_def)
  have pow: "is_power_of_two PAGE_SIZE" using is_power_of_two_pow [of 12] by (simp add: PAGE_SIZE_def)
  define s where "s = pa - pa mod PAGE_SIZE"
  define m where "m = pages_spanned pa nbytes * PAGE_SIZE"
  have "pa < usize_limit" "PAGE_SIZE < usize_limit" using lim by linarith+
  then have "align_down pa PAGE_SIZE = Inr s" unfolding s_def by (rule align_down_pow2 [OF pow])
  moreover have "align_up (pa + nbytes) PAGE_SIZE = Inr (s + m)"
    using align_up_round_up [OF pow lim] unfolding aligned_limit [of pa nbytes] pages_spanned_bytes s_def m_def .
  moreover have "uadd pa nbytes = Inr (pa + nbytes)" using lim by simp
  moreover have "usub (s + m) s = Inr m" "m div PAGE_SIZE = pages_spanned pa nbytes" by (simp_all add: m_def)
  moreover have "usub pa s = Inr (pa mod PAGE_SIZE)" by (simp add: usub_def s_def)
  ultimately have "map_physical_memory rl pa nbytes flags ks =
     bindE (locked_allocate rl (pages_spanned pa nbytes) (PhysicalMapping \<lparr>pmap_address = s, pmap_flags = flags\<rparr>)) (\<lambda>r.
     liftE (apply_offset r (pa mod PAGE_SIZE) nbytes)) ks"
    unfolding map_physical_memory_def by (simp add: bindE_def liftE_def)
  then show ?thesis by (simp add: s_def)
qed

lemma physically_backed_at:
  assumes p: "physically_backed \<lparr>pmap_address = pa - pa mod PAGE_SIZE, pmap_flags = flags\<rparr> (lookup km root) base n"
    and al: "PAGE_SIZE dvd base" and pa: "pa < usize_limit" and k: "pa mod PAGE_SIZE + k < n * PAGE_SIZE"
  shows "is_present (lookup km root (base + pa mod PAGE_SIZE + k))
     \<and> pte_frame (lookup km root (base + pa mod PAGE_SIZE + k)) * PAGE_SIZE + (base + pa mod PAGE_SIZE + k) mod PAGE_SIZE = pa + k"
proof -
  let ?i = "(pa mod PAGE_SIZE + k) div PAGE_SIZE" and ?o = "(pa mod PAGE_SIZE + k) mod PAGE_SIZE"
  obtain q where q: "base = PAGE_SIZE * q" using al by blast
  have i: "?i < n" using k by (simp add: less_mult_imp_div_less)
  have e: "base + pa mod PAGE_SIZE + k = page_va base ?i + ?o"
    using div_mult_mod_eq [of "pa mod PAGE_SIZE + k" PAGE_SIZE] by (simp add: page_va_def)
  have "vpn (page_va base ?i + ?o) = vpn (page_va base ?i)"
  proof -
    have "(page_va base ?i + ?o) div PAGE_SIZE = page_va base ?i div PAGE_SIZE"
      using q by (simp add: page_va_def flip: distrib_left)
    then show ?thesis by (simp add: vpn_def PAGE_SIZE_def)
  qed
  then have l: "lookup km root (base + pa mod PAGE_SIZE + k) = lookup km root (page_va base ?i)"
    unfolding e by (rule lookup_vpn)
  have "pa - pa mod PAGE_SIZE < usize_limit" using pa diff_le_self le_less_trans by blast
  then have "containing_address (pa - pa mod PAGE_SIZE) = pa div PAGE_SIZE"
    by (subst containing_address_eq) (simp_all add: minus_mod_eq_div_mult)
  then have f: "is_present (lookup km root (page_va base ?i))" "pte_frame (lookup km root (page_va base ?i)) = pa div PAGE_SIZE + ?i"
    using p i by (simp_all add: physically_backed_def)
  have "(base + pa mod PAGE_SIZE + k) mod PAGE_SIZE = ?o" using q by (simp add: add.assoc)
  moreover have "(pa div PAGE_SIZE + ?i) * PAGE_SIZE + ?o = pa + k"
    using div_mult_mod_eq [of "pa mod PAGE_SIZE + k" PAGE_SIZE] div_mult_mod_eq [of pa PAGE_SIZE]
    unfolding add_mult_distrib by linarith
  ultimately show ?thesis unfolding l f(2) using f(1) by simp
qed

section \<open>Properties\<close>

definition example_layout :: region_layout where
  "example_layout = \<lparr>rl_entries = 85, rl_page_size = 4096\<rparr>"

definition example_boot :: kstate where
  "example_boot = \<lparr>ks_mem = wide_kmem, ks_regions = None\<rparr>"

abbreviation example_base :: usize where
  "example_base \<equiv> 0xffff900000000000"

abbreviation example_limit :: usize where
  "example_limit \<equiv> 0xffff900000010000"

abbreviation example_state :: kstate where
  "example_state \<equiv> heap_init example_layout example_base example_limit example_boot"

lemma example_heap_boot: "heap_boot example_layout example_base example_limit example_boot"
  by (simp add: heap_boot_def example_layout_def example_boot_def layout_wf_def PAGE_SIZE_def usize_limit_def example_ok)

lemmas example_inv = heap_init_inv [OF example_heap_boot]

lemma example_memory: "m \<le> 16 \<Longrightarrow> memory_for m (ks_mem example_state)"
  by (simp add: memory_for_def heap_init_def example_boot_def example_ok wide_phys)

lemma example_allocates:
  "mappable kind n \<Longrightarrow> n \<le> 3 \<Longrightarrow> spec_allocate (n * PAGE_SIZE) kind [whole example_base example_limit] =
     Some (example_base, split_entry (whole example_base example_limit) (n * PAGE_SIZE) kind)"
  by (simp add: whole_def entry_fits_def PAGE_SIZE_def)

lemma example_run:
  assumes "mappable kind n" and "n \<le> 3"
  shows "\<exists>ks' r. locked_allocate example_layout n kind example_state = Inr (ks', Inr r)
     \<and> heap_run example_layout example_base example_limit example_boot ks' [reg_info r]
     \<and> reg_info r = \<lparr>ri_start = example_base, ri_limit = example_base + n * PAGE_SIZE\<rparr>"
proof -
  have m: "memory_for (4 * n + 1) (ks_mem example_state)" using assms(2) by (intro example_memory) simp
  obtain ks' where "locked_allocate example_layout n kind example_state = Inr (ks', Inr (region_handle example_base n))"
    using allocate_refines [OF example_inv assms(1) m] example_allocates [OF assms] by auto
  then show ?thesis using run_allocate [OF run_init assms(1) m] by (auto simp: region_handle_info)
qed

lemma example_live: "\<exists>ks (r :: region). heap_run example_layout example_base example_limit example_boot ks [reg_info r]"
proof -
  have "mappable Heap 3" by (simp add: mappable_def)
  from example_run [OF this order_refl] show ?thesis by blast
qed

text \<open>
  C1. In every run of the region manager the regions handed out are page aligned, lie inside
  the managed range and never overlap, whatever the order of allocations of the three kinds
  and of drops.
\<close>

theorem heap_regions_disjoint:
  assumes "heap_boot rl b l ks0" and "heap_run rl b l ks0 ks live"
  shows "apart live \<and> (\<forall>i \<in> set live. b \<le> ri_start i \<and> ri_start i < ri_limit i \<and> ri_limit i \<le> l
     \<and> PAGE_SIZE dvd ri_start i \<and> PAGE_SIZE dvd ri_limit i)"
proof -
  obtain us where us: "regions_inv rl b l ks us" "mset (in_use us) = mset live"
    using heap_run_live [OF assms] by (auto simp: live_inv_def)
  have g: "geometry b l us" using regions_inv_geometry [OF us(1)] .
  then have s: "sorted_wrt (\<lambda>i j. ri_limit i \<le> ri_start j) (in_use us)"
    "\<forall>i \<in> set (in_use us). b \<le> ri_start i \<and> ri_start i < ri_limit i \<and> ri_limit i \<le> l"
    using in_use_sorted [of b us l] by (auto simp: geometry_def)
  moreover have "\<forall>i \<in> set (in_use us). PAGE_SIZE dvd ri_start i \<and> PAGE_SIZE dvd ri_limit i"
    using g by (auto simp: geometry_def in_use_def info_of_def)
  moreover have "apart live" using sorted_apart [OF s(1)] s(2) apart_perm [OF us(2)] by blast
  ultimately show ?thesis using mset_eq_setD [OF us(2)] by simp
qed

theorem heap_regions_disjoint_witness:
  "\<exists>ks r. heap_run example_layout example_base example_limit example_boot ks [r] \<and> apart [r] \<and> example_base \<le> ri_start r"
proof -
  obtain ks r where "heap_run example_layout example_base example_limit example_boot ks [r]"
    using example_live by blast
  with heap_regions_disjoint [OF example_heap_boot this] show ?thesis by auto
qed

text \<open>
  C2. No leak: in every run, dropping all the live regions one after the other succeeds in
  whatever order they are dropped, and afterwards the manager holds the whole range as a single
  free entry again and every page table entry is what it was before the run.
\<close>

theorem heap_run_drains:
  assumes "heap_boot rl b l ks0" and "heap_run rl b l ks0 ks live" and "mset (map reg_info rs) = mset live"
  shows "\<exists>ks'. drop_all rs ks = Inr ks' \<and> regions_inv rl b l ks' [whole b l]
     \<and> (\<forall>a. ks_lookup ks' a = ks_lookup ks0 a)"
proof -
  obtain ks' where "drop_all rs ks = Inr ks'" "live_inv rl b l ks0 ks' []"
    using live_drop_all [OF heap_run_live [OF assms(1,2)] assms(3)] by blast
  then show ?thesis using live_none [OF assms(1)] by blast
qed

theorem heap_run_drains_witness:
  "\<exists>ks r ks'. heap_run example_layout example_base example_limit example_boot ks [reg_info r]
     \<and> drop_all [r] ks = Inr ks' \<and> ks_lookup ks' example_base = 0"
proof -
  obtain ks and r :: region where r: "heap_run example_layout example_base example_limit example_boot ks [reg_info r]"
    using example_live by blast
  have m: "mset (map reg_info [r]) = mset [reg_info r]" by simp
  obtain ks' where d: "drop_all [r] ks = Inr ks'" "\<forall>a. ks_lookup ks' a = ks_lookup example_boot a"
    using heap_run_drains [OF example_heap_boot r m] by blast
  have "ks_lookup ks' example_base = 0" unfolding d(2) [rule_format] by (simp add: example_boot_def example_ok)
  with r d(1) show ?thesis by blast
qed

text \<open>
  C3. Asking for \<open>n\<close> pages of heap takes the front of the first free entry that is large enough,
  backs every page of it with present memory under the heap flags and leaves all other pages
  alone; when no entry is large enough the error is returned and nothing changes.
\<close>

theorem allocate_region_refines:
  assumes "regions_inv rl b l ks us" and "0 < n" "n \<le> 2 ^ 36" and "memory_for (4 * n + 1) (ks_mem ks)"
  shows "case spec_allocate (n * PAGE_SIZE) Heap us of
       None \<Rightarrow> allocate_region rl n ks = Inr (ks, Inl NoRegionAddressSpaceAvailable)
     | Some (base, us') \<Rightarrow> \<exists>ks'. allocate_region rl n ks = Inr (ks', Inr (region_handle base n))
         \<and> regions_inv rl b l ks' us' \<and> heap_backed (ks_lookup ks') base n
         \<and> (\<forall>a. vpn a \<notin> (\<lambda>i. vpn (page_va base i)) ` {..<n} \<longrightarrow> ks_lookup ks' a = ks_lookup ks a)"
proof -
  have "mappable Heap n" using assms(2,3) by (simp add: mappable_def)
  from allocate_refines [OF assms(1) this assms(4)] show ?thesis
    by (simp add: allocate_region_def backed_def split: option.splits prod.splits)
qed

theorem allocate_region_refines_witness:
  "\<exists>ks'. allocate_region example_layout 3 example_state = Inr (ks', Inr (region_handle example_base 3))
     \<and> is_present (ks_lookup ks' (page_va example_base 2))"
  using allocate_region_refines [OF example_inv _ _ example_memory, of 3] example_allocates [of Heap 3]
  by (auto simp: mappable_def heap_backed_def)



text \<open>
  C5. Dropping a region twice panics: the second drop never frees anything.
\<close>

theorem double_drop_panics:
  assumes "heap_boot rl b l ks0" and "heap_run rl b l ks0 ks live" and "reg_info r \<in> set live"
    and "region_drop r ks = Inr ks'"
  shows "\<exists>p. region_drop r ks' = Inl p"
proof -
  obtain us where us: "regions_inv rl b l ks us" "mset (in_use us) = mset live"
    using heap_run_live [OF assms(1,2)] by (auto simp: live_inv_def)
  then have "reg_info r \<in> set (in_use us)" using assms(3) by (metis set_mset_mset)
  then obtain us' where s: "spec_release [] (reg_info r) us = Some us'" using spec_release_in_use by blast
  then have "regions_inv rl b l ks' us'" using drop_refines [OF us(1) s] assms(4) by auto
  then show ?thesis using released_not_droppable [OF s regions_inv_geometry [OF us(1)]] by blast
qed

theorem double_drop_panics_witness:
  "\<exists>ks r ks' p. heap_run example_layout example_base example_limit example_boot ks [reg_info r]
     \<and> region_drop r ks = Inr ks' \<and> region_drop r ks' = Inl p"
proof -
  obtain ks and r :: region where r: "heap_run example_layout example_base example_limit example_boot ks [reg_info r]"
    using example_live by blast
  obtain ks' where "region_drop r ks = Inr ks'" using live_drop [OF heap_run_live [OF example_heap_boot r], of r] by auto
  with double_drop_panics [OF example_heap_boot r, of r ks'] r show ?thesis by (metis list.set_intros(1))
qed


text \<open>
  C6. A kernel stack of \<open>n\<close> pages comes with its top at the end of the region, the page at the
  bottom is the guard page, and every page between them is present.
\<close>

theorem allocate_kernel_stack_guarded:
  assumes "regions_inv rl b l ks us" and "2 \<le> n" "n \<le> 2 ^ 36" and "memory_for (4 * n + 1) (ks_mem ks)"
    and "spec_allocate (n * PAGE_SIZE) KernelStack us = Some (base, us')"
  shows "\<exists>ks' s. allocate_kernel_stack rl n ks = Inr (ks', Inr s) \<and> regions_inv rl b l ks' us'
     \<and> stack_top s = Inr (base + n * PAGE_SIZE) \<and> \<not> is_present (ks_lookup ks' base)
     \<and> (\<forall>i. 0 < i \<and> i < n \<longrightarrow> is_present (ks_lookup ks' (page_va base i)))"
proof -
  have k: "mappable KernelStack n" using assms(2,3) by (simp add: mappable_def)
  obtain ks' where a: "locked_allocate rl n KernelStack ks = Inr (ks', Inr (region_handle base n))"
      "regions_inv rl b l ks' us'" "stack_backed (ks_lookup ks') base n"
    using allocate_refines [OF assms(1) k assms(4)] assms(5) by (auto simp: backed_def)
  have "base + n * PAGE_SIZE < usize_limit" using spec_allocate_range [OF assms(5) regions_inv_geometry [OF assms(1)]] by simp
  then have "stack_top (kernel_stack_new (region_handle base n)) = Inr (base + n * PAGE_SIZE)"
    by (simp add: stack_top_def kernel_stack_new_def region_handle_def region_limit_def region_start_def)
  moreover have "\<not> is_present (2 :: u64)" by (simp add: is_present_bit)
  ultimately show ?thesis
    using a by (auto simp: allocate_kernel_stack_def stack_backed_def bindE_def okE_def intro!: exI [of _ ks'])
qed

theorem allocate_kernel_stack_guarded_witness:
  "\<exists>ks' s. allocate_kernel_stack example_layout 3 example_state = Inr (ks', Inr s)
     \<and> stack_top s = Inr (example_base + 3 * PAGE_SIZE) \<and> \<not> is_present (ks_lookup ks' example_base)"
proof -
  have "mappable KernelStack 3" by (simp add: mappable_def)
  from allocate_kernel_stack_guarded [OF example_inv _ _ example_memory example_allocates [OF this]]
  show ?thesis by auto
qed

text \<open>
  C7. Mapping the physical bytes from \<open>pa\<close> on returns a region that starts at the byte for \<open>pa\<close>:
  the virtual address \<open>k\<close> bytes into it lies in a present page whose frame and page offset give
  the physical address \<open>pa + k\<close>, for addresses with any alignment.
\<close>

theorem map_physical_memory_translates:
  assumes "regions_inv rl b l ks us" and "0 < nbytes" "pa + nbytes + PAGE_SIZE \<le> 2 ^ 48"
    and "memory_for (4 * pages_spanned pa nbytes + 1) (ks_mem ks)"
    and "spec_allocate (pages_spanned pa nbytes * PAGE_SIZE)
           (PhysicalMapping \<lparr>pmap_address = pa - pa mod PAGE_SIZE, pmap_flags = flags\<rparr>) us = Some (base, us')"
  shows "\<exists>ks' r start. map_physical_memory rl pa nbytes flags ks = Inr (ks', Inr r) \<and> regions_inv rl b l ks' us'
     \<and> region_start r = Inr start \<and> reg_length r = nbytes
     \<and> (\<forall>k < nbytes. is_present (ks_lookup ks' (start + k))
          \<and> pte_frame (ks_lookup ks' (start + k)) * PAGE_SIZE + (start + k) mod PAGE_SIZE = pa + k)"
proof -
  let ?n = "pages_spanned pa nbytes" and ?pmap = "\<lparr>pmap_address = pa - pa mod PAGE_SIZE, pmap_flags = flags\<rparr>"
  note n = pages_spanned_bounds [OF assms(2,3)]
  have k: "mappable (PhysicalMapping ?pmap) ?n" using n by (simp add: mappable_def)
  obtain ks' where a: "locked_allocate rl ?n (PhysicalMapping ?pmap) ks = Inr (ks', Inr (region_handle base ?n))"
      "regions_inv rl b l ks' us'" "physically_backed ?pmap (ks_lookup ks') base ?n"
    using allocate_refines [OF assms(1) k assms(4)] assms(5) by (auto simp: backed_def)
  have pa: "pa < usize_limit" using assms(3) by (simp add: usize_limit_def)
  note rng = spec_allocate_range [OF assms(5) regions_inv_geometry [OF assms(1)]]
  let ?r = "\<lparr>reg_info = reg_info (region_handle base ?n), reg_offset = pa mod PAGE_SIZE, reg_length = nbytes\<rparr>"
  have "map_physical_memory rl pa nbytes flags ks = Inr (ks', Inr ?r)"
    using map_physical_memory_eq [OF assms(2,3)] a(1) n rng
    by (simp add: bindE_def liftE_def apply_offset_def region_handle_def)
  moreover have "region_start ?r = Inr (base + pa mod PAGE_SIZE)"
    using rng n(4) assms(2) by (simp add: region_start_def region_handle_def)
  moreover have "is_present (ks_lookup ks' (base + pa mod PAGE_SIZE + k))
      \<and> pte_frame (ks_lookup ks' (base + pa mod PAGE_SIZE + k)) * PAGE_SIZE + (base + pa mod PAGE_SIZE + k) mod PAGE_SIZE = pa + k"
    if "k < nbytes" for k
    using physically_backed_at [OF a(3) rng(1) pa, of k] n(4) that by simp
  ultimately show ?thesis using a(2) by auto
qed

theorem map_physical_memory_translates_witness:
  "\<exists>ks' r start. map_physical_memory example_layout 0xfec00010 0x1000 0 example_state = Inr (ks', Inr r)
     \<and> region_start r = Inr start \<and> pte_frame (ks_lookup ks' start) * PAGE_SIZE + start mod PAGE_SIZE = 0xfec00010"
proof -
  let ?kind = "PhysicalMapping \<lparr>pmap_address = 0xfec00010 - 0xfec00010 mod PAGE_SIZE, pmap_flags = 0\<rparr>"
  have p: "pages_spanned 0xfec00010 0x1000 = 2" by (simp add: pages_spanned_def round_up_def PAGE_SIZE_def)
  have m: "memory_for (4 * pages_spanned 0xfec00010 0x1000 + 1) (ks_mem example_state)"
    unfolding p by (rule example_memory) simp
  have k: "mappable ?kind (pages_spanned 0xfec00010 0x1000)" "pages_spanned 0xfec00010 0x1000 \<le> 3"
    unfolding p by (simp_all add: mappable_def PAGE_SIZE_def)
  have b: "(0 :: nat) < 0x1000" "0xfec00010 + 0x1000 + PAGE_SIZE \<le> 2 ^ 48" by (simp_all add: PAGE_SIZE_def)
  from map_physical_memory_translates [OF example_inv b m example_allocates [OF k]]
  show ?thesis using b(1) by (metis add_0_right)
qed

end
