(* ===== verification/Task_Directory.thy ===== *)
theory Task_Directory
  imports Region_System "HOL-Library.Finite_Map"
begin

text \<open>
  The task directory of \<^verbatim>\<open>src/src/scheduler/task.rs\<close>: the map from process ids to tasks, the
  generation of ids, and the ready lists with the search for the next task of a CPU. The
  directory sits behind a spin lock, so each of its operations is one atomic function.

  A \<^verbatim>\<open>TaskReference\<close> is an \<^verbatim>\<open>Arc<Task>\<close>. Nothing removes a task from the process map, so the
  reference is modelled by the id under which the map holds the task; following a reference that
  is not in the map cannot happen in Rust and is a panic in the model, which the invariant of the
  scheduler excludes.
\<close>

section \<open>Tasks\<close>

type_synonym pid = usize

datatype task_state = New | Ready | Running

datatype task_priority = Idle | Normal

definition priority_index :: "task_priority \<Rightarrow> nat" where
  "priority_index p = (case p of Idle \<Rightarrow> 0 | Normal \<Rightarrow> 1)"

instantiation task_priority :: linorder
begin

definition less_eq_task_priority :: "task_priority \<Rightarrow> task_priority \<Rightarrow> bool" where
  "p \<le> q \<longleftrightarrow> priority_index p \<le> priority_index q"

definition less_task_priority :: "task_priority \<Rightarrow> task_priority \<Rightarrow> bool" where
  "p < q \<longleftrightarrow> priority_index p < priority_index q"

instance
  by standard (auto simp: less_eq_task_priority_def less_task_priority_def priority_index_def split: task_priority.splits)

end

definition PRIORITIES_COUNT :: nat where
  "PRIORITIES_COUNT = 2"

definition MIN_SYSTEM_PID :: pid where
  "MIN_SYSTEM_PID = 0xfff8000000000000"

definition MAX_PID :: pid where
  "MAX_PID = 0x0007ffffffffffff"

definition FIRST_SYSTEM_PID :: pid where
  "FIRST_SYSTEM_PID = 0xffffffffffffffff"

definition NO_TERMINATE :: u64 where
  "NO_TERMINATE = 1"

record arch_context =
  ctx_cr3 :: usize
  ctx_rflags :: usize
  ctx_rbx :: usize
  ctx_r12 :: usize
  ctx_r13 :: usize
  ctx_r14 :: usize
  ctx_r15 :: usize
  ctx_rsp :: usize
  ctx_rbp :: usize

definition arch_context_new :: arch_context where
  "arch_context_new = \<lparr>ctx_cr3 = 0, ctx_rflags = 0, ctx_rbx = 0, ctx_r12 = 0, ctx_r13 = 0, ctx_r14 = 0,
     ctx_r15 = 0, ctx_rsp = 0, ctx_rbp = 0\<rparr>"

record task_init =
  ti_flags :: u64
  ti_kernel_stack :: kernel_stack
  ti_cpu_id :: "usize option"
  ti_priority :: task_priority

record task_data =
  td_pid :: pid
  td_state :: task_state
  td_init :: task_init

record task =
  t_pid :: pid
  t_inner :: task_data
  t_arch_context :: arch_context

record task_control =
  tc_task :: pid
  tc_context :: arch_context

datatype scheduler_error = MemoryError memory_error | OutOfPids

section \<open>The directory\<close>

record task_directory =
  process_map :: "(pid, task) fmap"
  ready_lists :: "task_control list list"
  next_pid :: pid
  next_system_pid :: pid

type_synonym 'a dirop = "(task_directory, scheduler_error, 'a) op"

definition directory_new :: task_directory where
  "directory_new = \<lparr>process_map = fmempty, ready_lists = [[], []], next_pid = 0, next_system_pid = FIRST_SYSTEM_PID\<rparr>"

text \<open>The two loops of \<^verbatim>\<open>generate_pid\<close> that look for an id that is not taken.\<close>

function skip_down :: "(pid, task) fmap \<Rightarrow> pid \<Rightarrow> pid res" where
  "skip_down m p = (if p |\<in>| fmdom m then bindR (usub p 1) (skip_down m) else Inr p)"
  by pat_completeness auto

lemma card_shrinks:
  assumes "p \<in> A" and "B \<subseteq> A - {p}" and "finite A"
  shows "card B < card (A :: 'a set)"
  using assms by (intro psubset_card_mono) auto

lemma below_shrinks: "p |\<in>| fmdom m \<Longrightarrow> usub p 1 = Inr q \<Longrightarrow>
    card (fset (fmdom m) \<inter> {..q}) < card (fset (fmdom m) \<inter> {..p})"
  by (rule card_shrinks [of p]) (auto simp: usub_eq_Inr)

termination skip_down
  by (relation "measure (\<lambda>(m, p). card (fset (fmdom m) \<inter> {..p}))") (auto simp: below_shrinks)

function skip_up :: "(pid, task) fmap \<Rightarrow> pid \<Rightarrow> pid res" where
  "skip_up m p = (if p |\<in>| fmdom m then bindR (uadd p 1) (skip_up m) else Inr p)"
  by pat_completeness auto

lemma above_shrinks: "p |\<in>| fmdom m \<Longrightarrow> uadd p 1 = Inr q \<Longrightarrow>
    card (fset (fmdom m) \<inter> {q..}) < card (fset (fmdom m) \<inter> {p..})"
  by (rule card_shrinks [of p]) (auto simp: uadd_eq_Inr)

termination skip_up
  by (relation "measure (\<lambda>(m, p). card (fset (fmdom m) \<inter> {p..}))") (auto simp: above_shrinks)

declare skip_down.simps [simp del] skip_up.simps [simp del]

definition generate_pid :: "bool \<Rightarrow> pid dirop" where
  "generate_pid system_task d =
     (if system_task then
        bindR (skip_down (process_map d)
                 (if next_system_pid d \<le> MIN_SYSTEM_PID then FIRST_SYSTEM_PID else next_system_pid d)) (\<lambda>p.
        if p \<le> MIN_SYSTEM_PID then Inr (d\<lparr>next_system_pid := p\<rparr>, Inl OutOfPids)
        else bindR (usub p 1) (\<lambda>n. Inr (d\<lparr>next_system_pid := n\<rparr>, Inr p)))
      else
        bindR (skip_up (process_map d) (if MAX_PID \<le> next_pid d then 0 else next_pid d)) (\<lambda>p.
        if MAX_PID \<le> p then Inr (d\<lparr>next_pid := p\<rparr>, Inl OutOfPids)
        else bindR (uadd p 1) (\<lambda>n. Inr (d\<lparr>next_pid := n\<rparr>, Inr p))))"

definition task_new :: "pid \<Rightarrow> task_init \<Rightarrow> task" where
  "task_new p init =
     \<lparr>t_pid = p, t_inner = \<lparr>td_pid = p, td_state = New, td_init = init\<rparr>, t_arch_context = arch_context_new\<rparr>"

definition create_task :: "bool \<Rightarrow> task_init \<Rightarrow> pid dirop" where
  "create_task system_task init =
     bindE (generate_pid system_task) (\<lambda>p d.
     Inr (d\<lparr>process_map := fmupd p (task_new p init) (process_map d)\<rparr>, Inr p))"

definition task_deref :: "task_directory \<Rightarrow> pid \<Rightarrow> task res" where
  "task_deref d p = unwrapR UnwrapNone (fmlookup (process_map d) p)"

definition add_to_ready_list :: "task_control \<Rightarrow> task_directory \<Rightarrow> task_directory res" where
  "add_to_ready_list tc d =
     bindR (task_deref d (tc_task tc)) (\<lambda>t.
     bindR (guardR (td_state (t_inner t) = Ready) (Assertion ''task_inner.state == TaskState::Ready'')) (\<lambda>_.
     let i = priority_index (ti_priority (td_init (t_inner t))) in
     if i < length (ready_lists d)
     then Inr (d\<lparr>ready_lists := (ready_lists d)[i := ready_lists d ! i @ [tc]]\<rparr>)
     else Inl IndexOutOfBounds))"

text \<open>The cursor loop over one ready list, and the loop over the lists from the highest down.\<close>

fun take_affine :: "task_directory \<Rightarrow> usize \<Rightarrow> task_control list \<Rightarrow> (task_control \<times> task_control list) option res" where
  "take_affine d this_cpu [] = Inr None"
| "take_affine d this_cpu (tc # tcs) =
     bindR (task_deref d (tc_task tc)) (\<lambda>t.
     let affinity_cpu = (case ti_cpu_id (td_init (t_inner t)) of None \<Rightarrow> this_cpu | Some c \<Rightarrow> c) in
     if this_cpu = affinity_cpu then Inr (Some (tc, tcs))
     else bindR (take_affine d this_cpu tcs) (\<lambda>r. Inr (map_option (\<lambda>(x, rest). (x, tc # rest)) r)))"

fun search_levels :: "usize \<Rightarrow> nat list \<Rightarrow> task_directory \<Rightarrow> (task_directory \<times> task_control option) res" where
  "search_levels this_cpu [] d = Inr (d, None)"
| "search_levels this_cpu (i # levels) d =
     (if i < length (ready_lists d)
      then bindR (take_affine d this_cpu (ready_lists d ! i)) (\<lambda>r. case r of
             Some (tc, rest) \<Rightarrow> Inr (d\<lparr>ready_lists := (ready_lists d)[i := rest]\<rparr>, Some tc)
           | None \<Rightarrow> search_levels this_cpu levels d)
      else Inl IndexOutOfBounds)"

definition find_next_task ::
  "usize \<Rightarrow> task_priority option \<Rightarrow> task_directory \<Rightarrow> (task_directory \<times> task_control option) res" where
  "find_next_task this_cpu current_priority d =
     (let min_priority_index = (case current_priority of None \<Rightarrow> 0 | Some pri \<Rightarrow> priority_index pri) in
      search_levels this_cpu (rev [min_priority_index ..< PRIORITIES_COUNT]) d)"


section \<open>Process ids\<close>

lemma skip_down_spec:
  "q \<le> p \<Longrightarrow> q |\<notin>| fmdom m \<Longrightarrow>
   \<exists>r. skip_down m p = Inr r \<and> q \<le> r \<and> r \<le> p \<and> r |\<notin>| fmdom m \<and> (\<forall>x. r < x \<and> x \<le> p \<longrightarrow> x |\<in>| fmdom m)"
proof (induction m p rule: skip_down.induct)
  case (1 m p)
  show ?case
  proof (cases "p |\<in>| fmdom m")
    case True
    then have "q \<le> p - 1" "0 < p" using 1 by (cases "p = q"; auto)+
    then obtain r where "skip_down m (p - 1) = Inr r" "q \<le> r" "r \<le> p - 1" "r |\<notin>| fmdom m"
        "\<forall>x. r < x \<and> x \<le> p - 1 \<longrightarrow> x |\<in>| fmdom m"
      using 1 True by (auto simp: usub_def)
    moreover have "x |\<in>| fmdom m" if "r < x" "x \<le> p" for x using calculation(5) that True by (cases "x = p") auto
    ultimately show ?thesis using True \<open>0 < p\<close> by (simp add: skip_down.simps [of m p] usub_def)
  next
    case False
    then show ?thesis using 1(2) by (auto simp: skip_down.simps [of m p])
  qed
qed

lemma skip_up_spec:
  "p \<le> q \<Longrightarrow> q < usize_limit \<Longrightarrow> q |\<notin>| fmdom m \<Longrightarrow>
   \<exists>r. skip_up m p = Inr r \<and> p \<le> r \<and> r \<le> q \<and> r |\<notin>| fmdom m \<and> (\<forall>x. p \<le> x \<and> x < r \<longrightarrow> x |\<in>| fmdom m)"
proof (induction m p rule: skip_up.induct)
  case (1 m p)
  show ?case
  proof (cases "p |\<in>| fmdom m")
    case True
    then have "Suc p \<le> q" using 1 by (cases "p = q") auto
    then obtain r where "skip_up m (Suc p) = Inr r" "Suc p \<le> r" "r \<le> q" "r |\<notin>| fmdom m"
        "\<forall>x. Suc p \<le> x \<and> x < r \<longrightarrow> x |\<in>| fmdom m"
      using 1 True by (auto simp: uadd_def)
    moreover have "x |\<in>| fmdom m" if "p \<le> x" "x < r" for x using calculation(5) that True by (cases "x = p") auto
    ultimately show ?thesis using True \<open>Suc p \<le> q\<close> 1(3) by (simp add: skip_up.simps [of m p])
  next
    case False
    then show ?thesis using 1(2) by (auto simp: skip_up.simps [of m p])
  qed
qed

text \<open>System ids and ordinary ids come from disjoint ranges, and the counters stay in them.\<close>

definition pid_ok :: "bool \<Rightarrow> pid \<Rightarrow> bool" where
  "pid_ok system_task p \<longleftrightarrow> (if system_task then MIN_SYSTEM_PID < p \<and> p \<le> FIRST_SYSTEM_PID else p < MAX_PID)"

definition pids_inv :: "task_directory \<Rightarrow> bool" where
  "pids_inv d \<longleftrightarrow> (\<forall>p. p |\<in>| fmdom (process_map d) \<longrightarrow> pid_ok True p \<or> pid_ok False p)
     \<and> next_pid d \<le> MAX_PID \<and> MIN_SYSTEM_PID \<le> next_system_pid d \<and> next_system_pid d \<le> FIRST_SYSTEM_PID"

text \<open>The ids that a search starting at the counter looks at.\<close>

definition candidates :: "bool \<Rightarrow> task_directory \<Rightarrow> pid set" where
  "candidates system_task d =
     (if system_task
      then {MIN_SYSTEM_PID<..(if next_system_pid d \<le> MIN_SYSTEM_PID then FIRST_SYSTEM_PID else next_system_pid d)}
      else {(if MAX_PID \<le> next_pid d then 0 else next_pid d)..<MAX_PID})"

lemmas pid_consts = MIN_SYSTEM_PID_def MAX_PID_def FIRST_SYSTEM_PID_def usize_limit_def

lemma generate_pid_spec:
  assumes "pids_inv d"
  shows "(\<exists>d' p. generate_pid sys d = Inr (d', Inr p) \<and> p |\<notin>| fmdom (process_map d) \<and> pid_ok sys p \<and> pids_inv d'
            \<and> process_map d' = process_map d \<and> ready_lists d' = ready_lists d)
       \<or> (\<exists>d'. generate_pid sys d = Inr (d', Inl OutOfPids) \<and> candidates sys d \<subseteq> fset (fmdom (process_map d))
            \<and> pids_inv d' \<and> process_map d' = process_map d \<and> ready_lists d' = ready_lists d)"
proof (cases sys)
  case True
  define s where "s = (if next_system_pid d \<le> MIN_SYSTEM_PID then FIRST_SYSTEM_PID else next_system_pid d)"
  have s: "MIN_SYSTEM_PID \<le> s" "s \<le> FIRST_SYSTEM_PID" and n: "MIN_SYSTEM_PID |\<notin>| fmdom (process_map d)"
    using assms by (auto simp: pids_inv_def pid_ok_def s_def pid_consts)
  obtain r where r: "skip_down (process_map d) s = Inr r" "MIN_SYSTEM_PID \<le> r" "r \<le> s" "r |\<notin>| fmdom (process_map d)"
      "\<forall>x. r < x \<and> x \<le> s \<longrightarrow> x |\<in>| fmdom (process_map d)"
    using skip_down_spec [OF s(1) n] by blast
  have "usub r 1 = Inr (r - 1)" using r(2) by (auto simp: usub_def MIN_SYSTEM_PID_def)
  then show ?thesis
    using True r s assms unfolding generate_pid_def s_def [symmetric]
    by (auto simp: pids_inv_def pid_ok_def candidates_def simp flip: s_def)
next
  case False
  define s where "s = (if MAX_PID \<le> next_pid d then 0 else next_pid d)"
  have s: "s \<le> MAX_PID" and n: "MAX_PID |\<notin>| fmdom (process_map d)"
    using assms by (auto simp: pids_inv_def pid_ok_def s_def pid_consts)
  obtain r where r: "skip_up (process_map d) s = Inr r" "s \<le> r" "r \<le> MAX_PID" "r |\<notin>| fmdom (process_map d)"
      "\<forall>x. s \<le> x \<and> x < r \<longrightarrow> x |\<in>| fmdom (process_map d)"
    using skip_up_spec [OF s _ n] by (auto simp: pid_consts)
  have "uadd r 1 = Inr (r + 1)" using r(3) by (auto simp: uadd_def pid_consts)
  then show ?thesis
    using False r s assms unfolding generate_pid_def s_def [symmetric]
    by (auto simp: pids_inv_def pid_ok_def candidates_def simp flip: s_def)
qed

lemma pids_inv_new: "pids_inv d \<Longrightarrow> pid_ok sys p \<Longrightarrow> pids_inv (d\<lparr>process_map := fmupd p t (process_map d)\<rparr>)"
  by (cases sys) (auto simp: pids_inv_def)

section \<open>The ready lists\<close>

definition task_refs_ok :: "task_directory \<Rightarrow> bool" where
  "task_refs_ok d \<longleftrightarrow> length (ready_lists d) = PRIORITIES_COUNT
     \<and> (\<forall>tcs \<in> set (ready_lists d). \<forall>tc \<in> set tcs. tc_task tc |\<in>| fmdom (process_map d))"

definition affine :: "task_directory \<Rightarrow> usize \<Rightarrow> task_control \<Rightarrow> bool" where
  "affine d this_cpu tc \<longleftrightarrow> (case fmlookup (process_map d) (tc_task tc) of
       None \<Rightarrow> False
     | Some t \<Rightarrow> (case ti_cpu_id (td_init (t_inner t)) of None \<Rightarrow> True | Some c \<Rightarrow> c = this_cpu))"

lemma take_affine_spec:
  "\<forall>tc \<in> set tcs. tc_task tc |\<in>| fmdom (process_map d) \<Longrightarrow>
     (take_affine d this_cpu tcs = Inr None \<and> (\<forall>tc \<in> set tcs. \<not> affine d this_cpu tc))
   \<or> (\<exists>xs tc ys. take_affine d this_cpu tcs = Inr (Some (tc, xs @ ys)) \<and> tcs = xs @ tc # ys
        \<and> affine d this_cpu tc \<and> (\<forall>x \<in> set xs. \<not> affine d this_cpu x))"
proof (induction tcs)
  case (Cons tc tcs)
  then obtain t where t: "fmlookup (process_map d) (tc_task tc) = Some t" by (auto simp: fmlookup_dom_iff)
  then have dr: "task_deref d (tc_task tc) = Inr t" by (simp add: task_deref_def)
  show ?case
  proof (cases "affine d this_cpu tc")
    case True
    then have "take_affine d this_cpu (tc # tcs) = Inr (Some (tc, [] @ tcs))"
      using t dr by (auto simp: affine_def split: option.splits)
    then show ?thesis using True by (intro disjI2 exI [of _ "[]"]) auto
  next
    case False
    then have e: "take_affine d this_cpu (tc # tcs) =
        bindR (take_affine d this_cpu tcs) (\<lambda>r. Inr (map_option (\<lambda>(x, rest). (x, tc # rest)) r))"
      using t dr by (auto simp: affine_def split: option.splits)
    from Cons consider "take_affine d this_cpu tcs = Inr None" "\<forall>tc \<in> set tcs. \<not> affine d this_cpu tc"
      | xs x ys where "take_affine d this_cpu tcs = Inr (Some (x, xs @ ys))" "tcs = xs @ x # ys"
          "affine d this_cpu x" "\<forall>x \<in> set xs. \<not> affine d this_cpu x" by auto
    then show ?thesis
    proof cases
      case 1
      then show ?thesis using e False by simp
    next
      case 2
      then show ?thesis using e False by (intro disjI2 exI [of _ "tc # xs"] exI [of _ x] exI [of _ ys]) auto
    qed
  qed
qed simp

definition picked :: "usize \<Rightarrow> nat list \<Rightarrow> task_directory \<Rightarrow> task_directory \<Rightarrow> nat \<Rightarrow> task_control \<Rightarrow> bool" where
  "picked this_cpu skipped d d' i tc \<longleftrightarrow> i < length (ready_lists d) \<and> affine d this_cpu tc
     \<and> (\<forall>j \<in> set skipped. \<forall>x \<in> set (ready_lists d ! j). \<not> affine d this_cpu x)
     \<and> (\<exists>xs ys. ready_lists d ! i = xs @ tc # ys \<and> (\<forall>x \<in> set xs. \<not> affine d this_cpu x)
          \<and> d' = d\<lparr>ready_lists := (ready_lists d)[i := xs @ ys]\<rparr>)"

lemma search_levels_spec:
  assumes "task_refs_ok d" and "\<forall>i \<in> set levels. i < PRIORITIES_COUNT"
  shows "(search_levels this_cpu levels d = Inr (d, None)
            \<and> (\<forall>i \<in> set levels. \<forall>x \<in> set (ready_lists d ! i). \<not> affine d this_cpu x))
       \<or> (\<exists>ls i ms d' tc. search_levels this_cpu levels d = Inr (d', Some tc) \<and> levels = ls @ i # ms
            \<and> picked this_cpu ls d d' i tc)"
  using assms(2)
proof (induction levels)
  case (Cons i levels)
  have i: "i < length (ready_lists d)" using assms(1) Cons.prems by (simp add: task_refs_ok_def)
  have "\<forall>tc \<in> set (ready_lists d ! i). tc_task tc |\<in>| fmdom (process_map d)"
    using assms(1) nth_mem [OF i] by (auto simp: task_refs_ok_def)
  from take_affine_spec [OF this, of this_cpu] show ?case
  proof (elim disjE exE conjE)
    assume n: "take_affine d this_cpu (ready_lists d ! i) = Inr None" "\<forall>tc \<in> set (ready_lists d ! i). \<not> affine d this_cpu tc"
    have e: "search_levels this_cpu (i # levels) d = search_levels this_cpu levels d" using i n(1) by simp
    from Cons consider "search_levels this_cpu levels d = Inr (d, None)"
        "\<forall>i \<in> set levels. \<forall>x \<in> set (ready_lists d ! i). \<not> affine d this_cpu x"
      | ls k ms d' tc where "search_levels this_cpu levels d = Inr (d', Some tc)" "levels = ls @ k # ms"
          "picked this_cpu ls d d' k tc" by auto
    then show ?thesis
    proof cases
      case 1
      then show ?thesis using e n(2) by simp
    next
      case 2
      have "picked this_cpu (i # ls) d d' k tc" using 2(3) n(2) by (auto simp: picked_def)
      then show ?thesis using e 2(1,2) by (metis append_Cons)
    qed
  next
    fix xs tc ys
    assume "take_affine d this_cpu (ready_lists d ! i) = Inr (Some (tc, xs @ ys))" "ready_lists d ! i = xs @ tc # ys"
      "affine d this_cpu tc" "\<forall>x \<in> set xs. \<not> affine d this_cpu x"
    then show ?thesis
      using i by (intro disjI2 exI [of _ "[]"] exI [of _ i] exI [of _ levels] exI conjI) (auto simp: picked_def)
  qed
qed simp


text \<open>The levels that a CPU running at a priority looks at, highest first.\<close>

definition levels_from :: "task_priority option \<Rightarrow> nat list" where
  "levels_from cur = rev [(case cur of None \<Rightarrow> 0 | Some pri \<Rightarrow> priority_index pri) ..< PRIORITIES_COUNT]"

lemma find_next_spec:
  assumes "task_refs_ok d"
  shows "(find_next_task this_cpu cur d = Inr (d, None)
            \<and> (\<forall>i \<in> set (levels_from cur). \<forall>x \<in> set (ready_lists d ! i). \<not> affine d this_cpu x))
       \<or> (\<exists>ls i ms d' tc. find_next_task this_cpu cur d = Inr (d', Some tc) \<and> levels_from cur = ls @ i # ms
            \<and> picked this_cpu ls d d' i tc)"
  using search_levels_spec [OF assms, of "levels_from cur" this_cpu]
  unfolding find_next_task_def levels_from_def Let_def by (cases cur) auto

definition waiting :: "task_directory \<Rightarrow> task_control multiset" where
  "waiting d = mset (concat (ready_lists d))"

lemma mset_concat_update:
  "i < length xss \<Longrightarrow> mset (concat (xss[i := ys])) + mset (xss ! i) = mset (concat xss) + mset ys"
proof (induction xss arbitrary: i)
  case (Cons xs xss)
  show ?case
  proof (cases i)
    case (Suc k)
    then have "mset (concat (xss[k := ys])) + mset (xss ! k) = mset (concat xss) + mset ys" using Cons by simp
    then show ?thesis using Suc by (simp add: add.assoc)
  qed simp
qed simp

lemma waiting_push:
  assumes "i < length (ready_lists d)"
  shows "waiting (d\<lparr>ready_lists := (ready_lists d)[i := ready_lists d ! i @ [tc]]\<rparr>) = add_mset tc (waiting d)"
  using mset_concat_update [OF assms, of "ready_lists d ! i @ [tc]"] by (simp add: waiting_def)

lemma picked_waiting:
  assumes "picked this_cpu ls d d' i tc"
  shows "waiting d = add_mset tc (waiting d')" and "process_map d' = process_map d"
    and "length (ready_lists d') = length (ready_lists d)"
proof -
  obtain xs ys where p: "i < length (ready_lists d)" "ready_lists d ! i = xs @ tc # ys"
      "d' = d\<lparr>ready_lists := (ready_lists d)[i := xs @ ys]\<rparr>"
    using assms by (auto simp: picked_def)
  have "mset (concat ((ready_lists d)[i := xs @ ys])) + mset (xs @ tc # ys) = mset (concat (ready_lists d)) + mset (xs @ ys)"
    using mset_concat_update [OF p(1), of "xs @ ys"] p(2) by simp
  then show "waiting d = add_mset tc (waiting d')" by (simp add: waiting_def p(3))
  show "process_map d' = process_map d" "length (ready_lists d') = length (ready_lists d)" by (simp_all add: p(3))
qed

lemma task_refs_waiting:
  "task_refs_ok d \<longleftrightarrow> length (ready_lists d) = PRIORITIES_COUNT
     \<and> (\<forall>tc \<in># waiting d. tc_task tc |\<in>| fmdom (process_map d))"
  by (auto simp: task_refs_ok_def waiting_def)

text \<open>
  What the scheduler relies on: a pool of tasks that are waiting, to which a ready task can
  always be added and from which a search takes at most one.
\<close>

locale task_pool =
  fixes pool :: "'d \<Rightarrow> 'a multiset"
    and ok :: "'d \<Rightarrow> bool"
    and ready :: "'d \<Rightarrow> 'a \<Rightarrow> bool"
    and add_to :: "'a \<Rightarrow> 'd \<Rightarrow> 'd res"
    and next_of :: "'c \<Rightarrow> 'd \<Rightarrow> ('d \<times> 'a option) res"
  assumes add_law: "ok d \<Longrightarrow> ready d x \<Longrightarrow> \<exists>d'. add_to x d = Inr d' \<and> ok d' \<and> pool d' = add_mset x (pool d)"
    and next_law: "ok d \<Longrightarrow> \<exists>d' r. next_of c d = Inr (d', r) \<and> ok d'
          \<and> pool d = pool d' + (case r of None \<Rightarrow> {#} | Some x \<Rightarrow> {#x#})"
    and next_keeps_ready: "ok d \<Longrightarrow> next_of c d = Inr (d', r) \<Longrightarrow> ready d' = ready d"
begin

text \<open>Taking the next task and putting another one back exchanges the two.\<close>

lemma exchange:
  assumes "ok d" and "next_of c d = Inr (d1, Some x)" and "ready d y"
  shows "\<exists>d2. add_to y d1 = Inr d2 \<and> ok d2 \<and> pool d2 + {#x#} = pool d + {#y#}"
proof -
  have 1: "ok d1" "pool d = pool d1 + {#x#}" using next_law [OF assms(1), of c] assms(2) by auto
  have "ready d1 y" using next_keeps_ready [OF assms(1,2)] assms(3) by simp
  from add_law [OF 1(1) this] show ?thesis using 1(2) by auto
qed

lemma drain:
  assumes "ok d"
  shows "\<exists>d' r. next_of c d = Inr (d', r) \<and> ok d' \<and> size (pool d') \<le> size (pool d)
     \<and> (r \<noteq> None \<longrightarrow> size (pool d') < size (pool d))"
  using next_law [OF assms, of c] by (force split: option.splits)

end

definition queueable :: "task_directory \<Rightarrow> task_control \<Rightarrow> bool" where
  "queueable d tc \<longleftrightarrow> (\<exists>t. fmlookup (process_map d) (tc_task tc) = Some t \<and> td_state (t_inner t) = Ready)"

lemma priority_bound [simp]: "priority_index p < PRIORITIES_COUNT"
  by (simp add: priority_index_def PRIORITIES_COUNT_def split: task_priority.splits)

lemma add_to_ready_spec:
  assumes "task_refs_ok d" and "fmlookup (process_map d) (tc_task tc) = Some t" and "td_state (t_inner t) = Ready"
  shows "add_to_ready_list tc d =
     Inr (d\<lparr>ready_lists := (ready_lists d)[priority_index (ti_priority (td_init (t_inner t))) :=
            ready_lists d ! priority_index (ti_priority (td_init (t_inner t))) @ [tc]]\<rparr>)"
  using assms by (simp add: add_to_ready_list_def task_deref_def task_refs_ok_def Let_def)

lemma find_next_waiting:
  assumes d: "task_refs_ok d"
  shows "\<exists>d' r. find_next_task cpu cur d = Inr (d', r) \<and> task_refs_ok d' \<and> process_map d' = process_map d
      \<and> waiting d = waiting d' + (case r of None \<Rightarrow> {#} | Some x \<Rightarrow> {#x#})"
  using find_next_spec [OF d, of cpu cur]
proof (elim disjE exE conjE)
  assume "find_next_task cpu cur d = Inr (d, None)"
  then show ?thesis using d by simp
next
  fix ls i d' tc
  assume f: "find_next_task cpu cur d = Inr (d', Some tc)" and "picked cpu ls d d' i tc"
  from picked_waiting [OF this(2)] have "waiting d = waiting d' + {#tc#}" "process_map d' = process_map d"
    "length (ready_lists d') = length (ready_lists d)" by simp_all
  then show ?thesis using d f by (auto simp: task_refs_waiting)
qed

interpretation ready_pool: task_pool waiting task_refs_ok queueable add_to_ready_list "\<lambda>(c, cur). find_next_task c cur"
proof unfold_locales
  fix d x assume d: "task_refs_ok d" and "queueable d x"
  then obtain t where t: "fmlookup (process_map d) (tc_task x) = Some t" "td_state (t_inner t) = Ready"
    by (auto simp: queueable_def)
  let ?i = "priority_index (ti_priority (td_init (t_inner t)))"
  have i: "?i < length (ready_lists d)" using d by (simp add: task_refs_ok_def)
  have "tc_task x |\<in>| fmdom (process_map d)" using t(1) by (auto simp: fmlookup_dom_iff)
  then show "\<exists>d'. add_to_ready_list x d = Inr d' \<and> task_refs_ok d' \<and> waiting d' = add_mset x (waiting d)"
    using add_to_ready_spec [OF d t] d waiting_push [OF i, of x] by (auto simp: task_refs_waiting)
next
  fix d and c :: "usize \<times> task_priority option" assume d: "task_refs_ok d"
  obtain cpu cur where c: "c = (cpu, cur)" by (cases c)
  show "\<exists>d' r. (case c of (c, cur) \<Rightarrow> find_next_task c cur) d = Inr (d', r) \<and> task_refs_ok d'
      \<and> waiting d = waiting d' + (case r of None \<Rightarrow> {#} | Some x \<Rightarrow> {#x#})"
    using find_next_waiting [OF d, of cpu cur] unfolding c by auto
next
  fix d d' r and c :: "usize \<times> task_priority option"
  assume d: "task_refs_ok d" and n: "(case c of (c, cur) \<Rightarrow> find_next_task c cur) d = Inr (d', r)"
  obtain cpu cur where c: "c = (cpu, cur)" by (cases c)
  have "process_map d' = process_map d" using find_next_waiting [OF d, of cpu cur] n c by auto
  then show "queueable d' = queueable d" by (auto simp: queueable_def fun_eq_iff)
qed


section \<open>Properties\<close>

definition min_level :: "task_priority option \<Rightarrow> nat" where
  "min_level cur = (case cur of None \<Rightarrow> 0 | Some pri \<Rightarrow> priority_index pri)"

lemma levels_from_split:
  assumes "levels_from cur = ls @ i # ms"
  shows "min_level cur \<le> i \<and> i < PRIORITIES_COUNT \<and> (\<forall>j. i < j \<and> j < PRIORITIES_COUNT \<longrightarrow> j \<in> set ls)"
proof -
  have e: "rev [min_level cur ..< PRIORITIES_COUNT] = ls @ i # ms" using assms by (simp add: levels_from_def min_level_def)
  then have s: "[min_level cur ..< PRIORITIES_COUNT] = rev ms @ i # rev ls" by (simp add: rev_swap)
  then have i: "i \<in> set [min_level cur ..< PRIORITIES_COUNT]" by simp
  moreover have "j \<in> set ls" if "i < j" "j < PRIORITIES_COUNT" for j
  proof -
    have "sorted_wrt (<) (rev ms @ i # rev ls)" unfolding s [symmetric] by (rule sorted_wrt_upt)
    then have "\<forall>x \<in> set ms. x < i" by (simp add: sorted_wrt_append)
    moreover have "j \<in> set (rev ms @ i # rev ls)" unfolding s [symmetric] using that i by simp
    ultimately show ?thesis using that(1) by auto
  qed
  ultimately show ?thesis by simp
qed

text \<open>
  C12. A CPU looking for work at some priority gets the first task it may run from the highest
  ready list that has one, no list below its own priority is searched, and only the list of
  the chosen task changes; it gets nothing exactly when no searched list has such a task.
\<close>

theorem find_next_task_picks:
  assumes "task_refs_ok d"
  shows "(\<exists>d' tc i xs ys. find_next_task this_cpu cur d = Inr (d', Some tc)
            \<and> min_level cur \<le> i \<and> i < PRIORITIES_COUNT \<and> ready_lists d ! i = xs @ tc # ys \<and> affine d this_cpu tc
            \<and> (\<forall>x \<in> set xs. \<not> affine d this_cpu x)
            \<and> (\<forall>j. i < j \<and> j < PRIORITIES_COUNT \<longrightarrow> (\<forall>x \<in> set (ready_lists d ! j). \<not> affine d this_cpu x))
            \<and> d' = d\<lparr>ready_lists := (ready_lists d)[i := xs @ ys]\<rparr>)
       \<or> (find_next_task this_cpu cur d = Inr (d, None)
            \<and> (\<forall>j. min_level cur \<le> j \<and> j < PRIORITIES_COUNT \<longrightarrow> (\<forall>x \<in> set (ready_lists d ! j). \<not> affine d this_cpu x)))"
  using find_next_spec [OF assms, of this_cpu cur]
proof (elim disjE exE conjE)
  assume "find_next_task this_cpu cur d = Inr (d, None)"
    "\<forall>i \<in> set (levels_from cur). \<forall>x \<in> set (ready_lists d ! i). \<not> affine d this_cpu x"
  then show ?thesis by (intro disjI2) (auto simp: levels_from_def min_level_def)
next
  fix ls i ms d' tc
  assume f: "find_next_task this_cpu cur d = Inr (d', Some tc)" "levels_from cur = ls @ i # ms" "picked this_cpu ls d d' i tc"
  then obtain xs ys where "ready_lists d ! i = xs @ tc # ys" "\<forall>x \<in> set xs. \<not> affine d this_cpu x"
      "d' = d\<lparr>ready_lists := (ready_lists d)[i := xs @ ys]\<rparr>" "affine d this_cpu tc"
      "\<forall>j \<in> set ls. \<forall>x \<in> set (ready_lists d ! j). \<not> affine d this_cpu x"
    by (auto simp: picked_def)
  then show ?thesis using f(1) levels_from_split [OF f(2)] by blast
qed

definition example_stack :: kernel_stack where
  "example_stack = kernel_stack_new (region_handle 0xffff900000000000 32)"

definition example_task :: "usize option \<Rightarrow> task_priority \<Rightarrow> pid \<Rightarrow> task_state \<Rightarrow> task" where
  "example_task cpu pri p st =
     (let t = task_new p \<lparr>ti_flags = 0, ti_kernel_stack = example_stack, ti_cpu_id = cpu, ti_priority = pri\<rparr>
      in t\<lparr>t_inner := (t_inner t)\<lparr>td_state := st\<rparr>\<rparr>)"

definition example_directory :: task_directory where
  "example_directory =
     \<lparr>process_map = fmupd 7 (example_task (Some 1) Normal 7 Ready) (fmupd 8 (example_task None Normal 8 Ready) fmempty),
      ready_lists = [[], [\<lparr>tc_task = 7, tc_context = arch_context_new\<rparr>, \<lparr>tc_task = 8, tc_context = arch_context_new\<rparr>]],
      next_pid = 9, next_system_pid = FIRST_SYSTEM_PID\<rparr>"

theorem find_next_task_picks_witness:
  "\<exists>d' tc. find_next_task 0 (Some Normal) example_directory = Inr (d', Some tc) \<and> tc_task tc = 8
     \<and> affine example_directory 0 tc"
proof -
  have ok: "task_refs_ok example_directory"
    by (simp add: task_refs_ok_def example_directory_def PRIORITIES_COUNT_def)
  have u: "[Suc 0..<2] = [Suc 0]" by (simp add: upt_rec)
  have "find_next_task 0 (Some Normal) example_directory = Inr (d', Some tc) \<Longrightarrow> tc_task tc = 8" for d' tc
    by (auto simp: find_next_task_def example_directory_def priority_index_def PRIORITIES_COUNT_def task_deref_def
        example_task_def task_new_def u)
  moreover have "find_next_task 0 (Some Normal) example_directory \<noteq> Inr (example_directory, None)"
    by (simp add: find_next_task_def example_directory_def priority_index_def PRIORITIES_COUNT_def task_deref_def
        example_task_def task_new_def u)
  ultimately show ?thesis using find_next_task_picks [OF ok, of 0 "Some Normal"] by blast
qed

text \<open>
  C13. Generating a process id always ends without a panic. It yields an id that no task has,
  in the range for its kind, or reports \<^verbatim>\<open>OutOfPids\<close> when all ids from the counter to the end of
  the range are taken; either way only the counter changes.
\<close>

theorem generate_pid_fresh:
  assumes "pids_inv d"
  shows "(\<exists>d' p. generate_pid system_task d = Inr (d', Inr p) \<and> p |\<notin>| fmdom (process_map d) \<and> pid_ok system_task p
            \<and> pids_inv d' \<and> process_map d' = process_map d \<and> ready_lists d' = ready_lists d)
       \<or> (\<exists>d'. generate_pid system_task d = Inr (d', Inl OutOfPids)
            \<and> candidates system_task d \<subseteq> fset (fmdom (process_map d))
            \<and> pids_inv d' \<and> process_map d' = process_map d \<and> ready_lists d' = ready_lists d)"
  by (rule generate_pid_spec [OF assms])

theorem generate_pid_fresh_witness:
  "\<exists>d' p. generate_pid True directory_new = Inr (d', Inr p) \<and> MIN_SYSTEM_PID < p"
proof -
  have ok: "pids_inv directory_new" by (simp add: pids_inv_def directory_new_def pid_consts)
  have "\<not> candidates True directory_new \<subseteq> fset (fmdom (process_map directory_new))"
    by (simp add: candidates_def directory_new_def pid_consts)
  with generate_pid_fresh [OF ok, of True] show ?thesis by (auto simp: pid_ok_def)
qed

text \<open>
  The search for an id does not wrap around: with the counter at the last id and that id
  taken, \<^verbatim>\<open>OutOfPids\<close> is reported although every other id is free.
\<close>

theorem generate_pid_gives_up:
  "\<exists>d d'. pids_inv d \<and> fmdom (process_map d) = {|MAX_PID - 1|} \<and> generate_pid False d = Inr (d', Inl OutOfPids)"
proof -
  let ?d = "\<lparr>process_map = fmupd (MAX_PID - 1) (example_task None Normal 0 New) fmempty, ready_lists = [[], []],
     next_pid = MAX_PID - 1, next_system_pid = FIRST_SYSTEM_PID\<rparr>"
  have ok: "pids_inv ?d" by (simp add: pids_inv_def pid_ok_def pid_consts)
  have "skip_up (process_map ?d) (MAX_PID - 1) = Inr MAX_PID"
    by (simp add: skip_up.simps [of _ 2251799813685246] skip_up.simps [of _ 2251799813685247] pid_consts uadd_def)
  then have "generate_pid False ?d = Inr (?d\<lparr>next_pid := MAX_PID\<rparr>, Inl OutOfPids)"
    by (simp add: generate_pid_def MAX_PID_def)
  moreover have "fmdom (process_map ?d) = {|MAX_PID - 1|}" by simp
  ultimately show ?thesis using ok by blast
qed

end
