(* ===== verification/Scheduler.thy ===== *)
theory Scheduler
  imports Task_Directory
begin

text \<open>
  The scheduler: saved contexts and the context switch (\<^verbatim>\<open>src/src/scheduler/arch_context.rs\<close>), the
  life of a task (\<^verbatim>\<open>src/src/scheduler/task.rs\<close>), the per-CPU current task and rescheduling
  (\<^verbatim>\<open>src/src/scheduler/reschedule.rs\<close>), and \<^verbatim>\<open>init\<close> and \<^verbatim>\<open>spawn\<close> (\<^verbatim>\<open>src/src/scheduler/mod.rs\<close>).

  A CPU is named by its \<^verbatim>\<open>cpu_id\<close>; the thread-local \<^verbatim>\<open>CURRENT_TASK\<close> and the registers are functions
  of it. The stacks live in a memory of 64-bit cells that all CPUs share. The addresses of code
  are fixed by the linker and are parameters.
\<close>

section \<open>Saved contexts\<close>

type_synonym vmem = "usize \<Rightarrow> usize"

record code_layout =
  cl_launch_trampoline :: usize
  cl_do_task_trampoline_launch :: usize
  cl_switch_return :: usize
  cl_complete_return :: usize

record cpu_regs = arch_context +
  reg_rip :: usize
  reg_rdi :: usize

definition set_page_table :: "usize \<Rightarrow> arch_context \<Rightarrow> arch_context" where
  "set_page_table cr3 ctx = ctx\<lparr>ctx_cr3 := cr3\<rparr>"

definition set_stack :: "usize \<Rightarrow> arch_context \<Rightarrow> arch_context" where
  "set_stack rsp ctx = ctx\<lparr>ctx_rsp := rsp\<rparr>"

definition push_stack :: "usize \<Rightarrow> arch_context \<Rightarrow> vmem \<Rightarrow> (arch_context \<times> vmem) res" where
  "push_stack value ctx mem =
     bindR (usub (ctx_rsp ctx) 8) (\<lambda>rsp. Inr (ctx\<lparr>ctx_rsp := rsp\<rparr>, mem(rsp := value)))"

definition pop_stack :: "arch_context \<Rightarrow> vmem \<Rightarrow> (arch_context \<times> usize) res" where
  "pop_stack ctx mem = bindR (uadd (ctx_rsp ctx) 8) (\<lambda>rsp. Inr (ctx\<lparr>ctx_rsp := rsp\<rparr>, mem (ctx_rsp ctx)))"

text \<open>\<open>trampoline\<close> is the pointer that boxing the closure yields.\<close>

definition push_system_task_startup ::
  "code_layout \<Rightarrow> usize \<Rightarrow> arch_context \<Rightarrow> vmem \<Rightarrow> (arch_context \<times> vmem) res" where
  "push_system_task_startup cl trampoline ctx mem =
     bindR (push_stack trampoline ctx mem) (\<lambda>(ctx1, mem1).
     push_stack (cl_launch_trampoline cl) ctx1 mem1)"

text \<open>The stack operations of the processor, which wrap around.\<close>

definition hw_push :: "usize \<Rightarrow> cpu_regs \<Rightarrow> vmem \<Rightarrow> cpu_regs \<times> vmem" where
  "hw_push value r mem =
     (let rsp = (ctx_rsp r + (usize_limit - 8)) mod usize_limit in (r\<lparr>ctx_rsp := rsp\<rparr>, mem(rsp := value)))"

definition hw_pop :: "cpu_regs \<Rightarrow> vmem \<Rightarrow> cpu_regs \<times> usize" where
  "hw_pop r mem = (r\<lparr>ctx_rsp := (ctx_rsp r + 8) mod usize_limit\<rparr>, mem (ctx_rsp r))"

text \<open>
  \<^verbatim>\<open>do_switch\<close> up to and including its \<^verbatim>\<open>call complete_task_switch\<close>: the registers go to the
  outgoing context, those of the incoming context are loaded.
\<close>

definition do_switch ::
  "code_layout \<Rightarrow> arch_context \<Rightarrow> cpu_regs \<Rightarrow> vmem \<Rightarrow> arch_context \<times> cpu_regs \<times> vmem" where
  "do_switch cl next r mem =
     (let rax = ctx_cr3 r;
          saved = arch_context_new\<lparr>ctx_cr3 := rax\<rparr>;
          r = (if ctx_cr3 next = rax then r else r\<lparr>ctx_cr3 := ctx_cr3 next\<rparr>);
          (r, mem) = hw_push (ctx_rflags r) r mem;
          (r, rax) = hw_pop r mem;
          saved = saved\<lparr>ctx_rflags := rax\<rparr>;
          (r, mem) = hw_push (ctx_rflags next) r mem;
          (r, flags) = hw_pop r mem;
          r = r\<lparr>ctx_rflags := flags\<rparr>;
          saved = saved\<lparr>ctx_rbx := ctx_rbx r, ctx_r12 := ctx_r12 r, ctx_r13 := ctx_r13 r, ctx_r14 := ctx_r14 r,
                       ctx_r15 := ctx_r15 r, ctx_rsp := ctx_rsp r, ctx_rbp := ctx_rbp r\<rparr>;
          r = r\<lparr>ctx_rbx := ctx_rbx next, ctx_r12 := ctx_r12 next, ctx_r13 := ctx_r13 next, ctx_r14 := ctx_r14 next,
                ctx_r15 := ctx_r15 next, ctx_rsp := ctx_rsp next, ctx_rbp := ctx_rbp next\<rparr>;
          (r, mem) = hw_push (cl_complete_return cl) r mem
      in (saved, r, mem))"

text \<open>
  What runs on a CPU after \<^verbatim>\<open>complete_task_switch\<close>: it returns into \<^verbatim>\<open>do_switch\<close>, whose \<^verbatim>\<open>ret\<close>
  continues wherever the incoming stack says. That is the trampoline of a new task, which takes
  the closure off the stack and jumps to its launcher, or the call of \<^verbatim>\<open>do_switch\<close> in a task that
  was switched out before, where \<^verbatim>\<open>reschedule\<close> goes on with \<^verbatim>\<open>todo!()\<close>.
\<close>

definition resume :: "code_layout \<Rightarrow> cpu_regs \<Rightarrow> vmem \<Rightarrow> cpu_regs res" where
  "resume cl r mem =
     (let (r, _) = hw_pop r mem;
          (r, rip) = hw_pop r mem;
          r = r\<lparr>reg_rip := rip\<rparr>
      in if rip = cl_launch_trampoline cl
         then let (r, rdi) = hw_pop r mem in Inr (r\<lparr>reg_rdi := rdi, reg_rip := cl_do_task_trampoline_launch cl\<rparr>)
         else if rip = cl_switch_return cl then Inl NotYetImplemented
         else Inr r)"

section \<open>Tasks and the current task\<close>

record current_task =
  ct_current :: "task_control option"
  ct_old :: "task_control option"

record sched =
  sch_directory :: task_directory
  sch_current :: "usize \<Rightarrow> current_task"
  sch_regs :: "usize \<Rightarrow> cpu_regs"
  sch_mem :: vmem
  sch_kernel :: kstate

type_synonym 'a schedop = "(sched, scheduler_error, 'a) op"

definition current_task_new :: current_task where
  "current_task_new = \<lparr>ct_current = None, ct_old = None\<rparr>"

definition with_directory :: "(task_directory \<Rightarrow> (task_directory \<times> 'a) res) \<Rightarrow> sched \<Rightarrow> (sched \<times> 'a) res" where
  "with_directory f s = bindR (f (sch_directory s)) (\<lambda>(d, x). Inr (s\<lparr>sch_directory := d\<rparr>, x))"

definition on_directory :: "(task_directory \<Rightarrow> task_directory res) \<Rightarrow> sched \<Rightarrow> sched res" where
  "on_directory f s = bindR (f (sch_directory s)) (\<lambda>d. Inr (s\<lparr>sch_directory := d\<rparr>))"

text \<open>A state change under the lock of one task, which must be in the expected state.\<close>

definition change_state :: "task_state \<Rightarrow> task_state \<Rightarrow> pid \<Rightarrow> task_directory \<Rightarrow> task_directory res" where
  "change_state from to p d =
     bindR (task_deref d p) (\<lambda>t.
     bindR (guardR (td_state (t_inner t) = from) (Assertion ''unexpected task state'')) (\<lambda>_.
     Inr (d\<lparr>process_map := fmupd p (t\<lparr>t_inner := (t_inner t)\<lparr>td_state := to\<rparr>\<rparr>) (process_map d)\<rparr>)))"

definition set_running :: "pid \<Rightarrow> task_directory \<Rightarrow> task_directory res" where
  "set_running = change_state Ready Running"

definition task_priority_of :: "pid \<Rightarrow> task_directory \<Rightarrow> task_priority res" where
  "task_priority_of p d = bindR (task_deref d p) (\<lambda>t. Inr (ti_priority (td_init (t_inner t))))"

definition task_stack_top :: "pid \<Rightarrow> task_directory \<Rightarrow> usize res" where
  "task_stack_top p d = bindR (task_deref d p) (\<lambda>t. stack_top (ti_kernel_stack (td_init (t_inner t))))"

definition make_ready :: "task_control \<Rightarrow> sched \<Rightarrow> sched res" where
  "make_ready tc s =
     bindR (on_directory (change_state Running Ready (tc_task tc)) s) (\<lambda>s1.
     on_directory (add_to_ready_list tc) s1)"

definition switch_running_task :: "usize \<Rightarrow> task_control \<Rightarrow> sched \<Rightarrow> sched \<times> task_control option" where
  "switch_running_task c new_task s =
     (s\<lparr>sch_current := (sch_current s)(c := (sch_current s c)\<lparr>ct_current := Some new_task\<rparr>)\<rparr>, ct_current (sch_current s c))"

definition set_initial_task :: "usize \<Rightarrow> task_control \<Rightarrow> sched \<Rightarrow> sched res" where
  "set_initial_task c tc s =
     (let (s1, previous) = switch_running_task c tc s in
      bindR (guardR (previous = None) (Assertion ''CURRENT_TASK.switch_running_task(task_control).is_none()'')) (\<lambda>_.
      Inr s1))"

definition current_task_ref :: "usize \<Rightarrow> sched \<Rightarrow> pid res" where
  "current_task_ref c s = bindR (unwrapR UnwrapNone (ct_current (sch_current s c))) (\<lambda>tc. Inr (tc_task tc))"

definition make_current :: "usize \<Rightarrow> pid \<Rightarrow> sched \<Rightarrow> sched res" where
  "make_current c p s =
     bindR (on_directory (change_state New Running p) s) (\<lambda>s1.
     set_initial_task c \<lparr>tc_task = p, tc_context = arch_context_new\<rparr> s1)"

definition prepare_task_switch :: "usize \<Rightarrow> task_control \<Rightarrow> sched \<Rightarrow> (sched \<times> task_control) res" where
  "prepare_task_switch c next s =
     bindR (guardR (ct_old (sch_current s c) = None) (Assertion ''Task switch already in progress'')) (\<lambda>_.
     let old = ct_current (sch_current s c);
         s1 = s\<lparr>sch_current := (sch_current s)(c := \<lparr>ct_current = Some next, ct_old = old\<rparr>)\<rparr> in
     bindR (on_directory (set_running (tc_task next)) s1) (\<lambda>s2.
     bindR (unwrapR UnwrapNone old) (\<lambda>old_control. Inr (s2, old_control))))"

definition complete_task_switch :: "usize \<Rightarrow> sched \<Rightarrow> sched res" where
  "complete_task_switch c s =
     (case ct_old (sch_current s c) of
        None \<Rightarrow> Inl (Assertion ''Task switch is not in progress'')
      | Some old_task \<Rightarrow>
          make_ready old_task (s\<lparr>sch_current := (sch_current s)(c := (sch_current s c)\<lparr>ct_old := None\<rparr>)\<rparr>))"

section \<open>Rescheduling\<close>

text \<open>
  \<^verbatim>\<open>old_ctxt.switch_to(new_ctxt)\<close>: the call of \<^verbatim>\<open>do_switch\<close> pushes its return address first; the
  outgoing registers are saved in the control block that waits in the \<^verbatim>\<open>old\<close> slot.
\<close>

definition switch_to :: "code_layout \<Rightarrow> usize \<Rightarrow> task_control \<Rightarrow> task_control \<Rightarrow> sched \<Rightarrow> sched" where
  "switch_to cl c old next s =
     (let (r, mem) = hw_push (cl_switch_return cl) (sch_regs s c) (sch_mem s);
          (saved, r, mem) = do_switch cl (tc_context next) r mem
      in s\<lparr>sch_current := (sch_current s)(c := (sch_current s c)\<lparr>ct_old := Some (old\<lparr>tc_context := saved\<rparr>)\<rparr>),
           sch_regs := (sch_regs s)(c := r), sch_mem := mem\<rparr>)"

text \<open>The part of \<^verbatim>\<open>reschedule\<close> that runs on the outgoing stack, and whether it switched.\<close>

definition begin_switch :: "code_layout \<Rightarrow> usize \<Rightarrow> sched \<Rightarrow> (sched \<times> bool) res" where
  "begin_switch cl c s =
     bindR (current_task_ref c s) (\<lambda>p.
     bindR (task_priority_of p (sch_directory s)) (\<lambda>pri.
     bindR (with_directory (find_next_task c (Some pri)) s) (\<lambda>(s1, r). case r of
        None \<Rightarrow> Inr (s1, False)
      | Some next \<Rightarrow>
          bindR (prepare_task_switch c next s1) (\<lambda>(s2, old).
          Inr (switch_to cl c old next s2, True)))))"

text \<open>The part that runs on the incoming stack.\<close>

definition finish_switch :: "code_layout \<Rightarrow> usize \<Rightarrow> sched \<Rightarrow> sched res" where
  "finish_switch cl c s =
     bindR (complete_task_switch c s) (\<lambda>s1.
     bindR (resume cl (sch_regs s1 c) (sch_mem s1)) (\<lambda>r.
     Inr (s1\<lparr>sch_regs := (sch_regs s1)(c := r)\<rparr>)))"

definition reschedule :: "code_layout \<Rightarrow> usize \<Rightarrow> sched \<Rightarrow> sched res" where
  "reschedule cl c s =
     bindR (begin_switch cl c s) (\<lambda>(s1, switched). if switched then finish_switch cl c s1 else Inr s1)"

section \<open>Creating tasks\<close>

text \<open>
  Creating a task moves the initial data, and the kernel stack in it, into the directory; when no
  process id is left they are dropped instead, which frees the stack.
\<close>

definition directory_create_task :: "bool \<Rightarrow> task_init \<Rightarrow> pid schedop" where
  "directory_create_task system_task init s =
     bindR (create_task system_task init (sch_directory s)) (\<lambda>(d, r).
     case r of
        Inr p \<Rightarrow> Inr (s\<lparr>sch_directory := d\<rparr>, Inr p)
      | Inl e \<Rightarrow>
          bindR (region_drop (stack_region (ti_kernel_stack init)) (sch_kernel s)) (\<lambda>ks.
          Inr (s\<lparr>sch_directory := d, sch_kernel := ks\<rparr>, Inl e)))"

definition new_idle :: "usize \<Rightarrow> kernel_stack \<Rightarrow> pid schedop" where
  "new_idle cpu_id stack =
     directory_create_task True
       \<lparr>ti_flags = NO_TERMINATE, ti_kernel_stack = stack, ti_cpu_id = Some cpu_id, ti_priority = Idle\<rparr>"

definition DEFAULT_KERNEL_STACK_PAGES :: nat where
  "DEFAULT_KERNEL_STACK_PAGES = 32"

text \<open>\<^verbatim>\<open>paging::allocate_kernel_stack\<close> on the scheduler state, with the error conversion of \<^verbatim>\<open>?\<close>.\<close>

definition allocate_task_stack :: "region_layout \<Rightarrow> kernel_stack schedop" where
  "allocate_task_stack rl s =
     bindR (allocate_kernel_stack rl DEFAULT_KERNEL_STACK_PAGES (sch_kernel s)) (\<lambda>(ks, r).
     Inr (s\<lparr>sch_kernel := ks\<rparr>, map_sum MemoryError (\<lambda>stack. stack) r))"

definition task_spawn :: "region_layout \<Rightarrow> pid schedop" where
  "task_spawn rl =
     bindE (allocate_task_stack rl) (\<lambda>stack.
     directory_create_task False
       \<lparr>ti_flags = 0, ti_kernel_stack = stack, ti_cpu_id = None, ti_priority = Normal\<rparr>)"

definition queue_new_task :: "pid \<Rightarrow> arch_context \<Rightarrow> sched \<Rightarrow> sched res" where
  "queue_new_task p ctx s =
     bindR (on_directory (change_state New Ready p) s) (\<lambda>s1.
     on_directory (add_to_ready_list \<lparr>tc_task = p, tc_context = ctx\<rparr>) s1)"

definition make_runnable :: "code_layout \<Rightarrow> usize \<Rightarrow> pid \<Rightarrow> arch_context \<Rightarrow> sched \<Rightarrow> sched res" where
  "make_runnable cl c p ctx s = bindR (queue_new_task p ctx s) (reschedule cl c)"

definition scheduler_init :: "usize \<Rightarrow> kernel_stack \<Rightarrow> pid schedop" where
  "scheduler_init cpu_id idle_thread_stack =
     bindE (new_idle cpu_id idle_thread_stack) (\<lambda>p s.
     bindR (make_current cpu_id p s) (\<lambda>s1. Inr (s1, Inr p)))"

definition startup_context :: "code_layout \<Rightarrow> usize \<Rightarrow> usize \<Rightarrow> usize \<Rightarrow> vmem \<Rightarrow> (arch_context \<times> vmem) res" where
  "startup_context cl trampoline top_addr cr3 mem =
     push_system_task_startup cl trampoline (set_page_table cr3 (set_stack top_addr arch_context_new)) mem"

definition spawn_context :: "code_layout \<Rightarrow> usize \<Rightarrow> usize \<Rightarrow> pid \<Rightarrow> sched \<Rightarrow> (sched \<times> arch_context) res" where
  "spawn_context cl c trampoline p s =
     bindR (task_stack_top p (sch_directory s)) (\<lambda>top_addr.
     bindR (startup_context cl trampoline top_addr (ctx_cr3 (sch_regs s c)) (sch_mem s)) (\<lambda>(ctx, mem).
     Inr (s\<lparr>sch_mem := mem\<rparr>, ctx)))"

definition spawn :: "code_layout \<Rightarrow> region_layout \<Rightarrow> usize \<Rightarrow> usize \<Rightarrow> pid schedop" where
  "spawn cl rl c trampoline =
     bindE (task_spawn rl) (\<lambda>p s.
     bindR (spawn_context cl c trampoline p s) (\<lambda>(s1, ctx).
     bindR (make_runnable cl c p ctx s1) (\<lambda>s2. Inr (s2, Inr p))))"

end
