(* ===== verification/Scheduler_Invariant.thy ===== *)
theory Scheduler_Invariant
  imports Scheduler
begin

text \<open>
  The invariant of the scheduler, that every operation keeps it whatever the interleaving of the
  CPUs, and that none of the assertions in the task life cycle can fail.
\<close>

section \<open>Where tasks are\<close>

text \<open>A CPU owns the task it runs and, during a switch, the one it is leaving.\<close>

datatype slot = CurrentOf usize | OldOf usize

fun in_slot :: "(usize \<Rightarrow> current_task) \<Rightarrow> slot \<Rightarrow> pid option" where
  "in_slot cur (CurrentOf c) = map_option tc_task (ct_current (cur c))"
| "in_slot cur (OldOf c) = map_option tc_task (ct_old (cur c))"

definition state_of :: "task_directory \<Rightarrow> pid \<Rightarrow> task_state option" where
  "state_of d p = map_option (\<lambda>t. td_state (t_inner t)) (fmlookup (process_map d) p)"

definition init_of :: "task_directory \<Rightarrow> pid \<Rightarrow> task_init option" where
  "init_of d p = map_option (\<lambda>t. td_init (t_inner t)) (fmlookup (process_map d) p)"

definition waiting_pids :: "task_directory \<Rightarrow> pid multiset" where
  "waiting_pids d = image_mset tc_task (waiting d)"

text \<open>
  Placement: a task is ready exactly when it waits in a ready list, and then once; it is running
  exactly when it is in a slot of a CPU, and then in one.
\<close>

definition placed :: "(pid \<Rightarrow> task_state option) \<Rightarrow> pid multiset \<Rightarrow> (slot \<Rightarrow> pid option) \<Rightarrow> bool" where
  "placed st w sl \<longleftrightarrow>
     (\<forall>p. count w p = (if st p = Some Ready then 1 else 0))
     \<and> (\<forall>x p. sl x = Some p \<longrightarrow> st p = Some Running)
     \<and> (\<forall>p. st p = Some Running \<longrightarrow> (\<exists>x. sl x = Some p))
     \<and> (\<forall>x y p. sl x = Some p \<and> sl y = Some p \<longrightarrow> x = y)"

definition runs_on :: "task_init option \<Rightarrow> usize \<Rightarrow> bool" where
  "runs_on i c \<longleftrightarrow> (case i of None \<Rightarrow> False | Some t \<Rightarrow> ti_cpu_id t = None \<or> ti_cpu_id t = Some c)"

fun slot_cpu :: "slot \<Rightarrow> usize" where
  "slot_cpu (CurrentOf c) = c"
| "slot_cpu (OldOf c) = c"

text \<open>Every list holds the tasks of its priority.\<close>

definition levels_ok :: "(pid \<Rightarrow> task_init option) \<Rightarrow> task_control list list \<Rightarrow> bool" where
  "levels_ok ini rls \<longleftrightarrow> (\<forall>i < length rls. \<forall>tc \<in> set (rls ! i).
     \<exists>t. ini (tc_task tc) = Some t \<and> priority_index (ti_priority t) = i)"

definition dir_inv :: "task_directory \<Rightarrow> bool" where
  "dir_inv d \<longleftrightarrow> pids_inv d \<and> task_refs_ok d \<and> levels_ok (init_of d) (ready_lists d)"

definition slots_inv :: "(pid \<Rightarrow> task_init option) \<Rightarrow> (usize \<Rightarrow> current_task) \<Rightarrow> bool" where
  "slots_inv ini cur \<longleftrightarrow> (\<forall>x p. in_slot cur x = Some p \<longrightarrow> runs_on (ini p) (slot_cpu x))
     \<and> (\<forall>c. ct_old (cur c) \<noteq> None \<longrightarrow> ct_current (cur c) \<noteq> None)"

definition sched_inv :: "sched \<Rightarrow> bool" where
  "sched_inv s \<longleftrightarrow> dir_inv (sch_directory s)
     \<and> placed (state_of (sch_directory s)) (waiting_pids (sch_directory s)) (in_slot (sch_current s))
     \<and> slots_inv (init_of (sch_directory s)) (sch_current s)"

lemma placedD:
  assumes "placed st w sl"
  shows "count w p = (if st p = Some Ready then 1 else 0)" and "sl x = Some p \<Longrightarrow> st p = Some Running"
    and "st p = Some Running \<Longrightarrow> \<exists>x. sl x = Some p" and "sl x = Some p \<Longrightarrow> sl y = Some p \<Longrightarrow> x = y"
  using assms by (auto simp: placed_def)

lemma placed_new:
  assumes "placed st w sl" and "st p = None"
  shows "placed (st(p := Some New)) w sl"
  unfolding placed_def using placedD [OF assms(1)] assms(2) by (auto split: if_splits)

lemma placed_queue:
  assumes "placed st w sl" and "st p = Some New"
  shows "placed (st(p := Some Ready)) (add_mset p w) sl"
  unfolding placed_def using placedD [OF assms(1)] assms(2) by (auto split: if_splits)

lemma placed_start:
  assumes "placed st w sl" and "st p = Some New" and "sl x = None"
  shows "placed (st(p := Some Running)) w (sl(x := Some p))"
  unfolding placed_def
proof (intro conjI allI impI)
  fix q show "count w q = (if (st(p := Some Running)) q = Some Ready then 1 else 0)"
    using placedD(1) [OF assms(1), of q] assms(2) by auto
next
  fix y q assume "(sl(x := Some p)) y = Some q"
  then show "(st(p := Some Running)) q = Some Running" using placedD(2) [OF assms(1)] by (auto split: if_splits)
next
  fix q assume "(st(p := Some Running)) q = Some Running"
  then show "\<exists>y. (sl(x := Some p)) y = Some q"
    using placedD(3) [OF assms(1), of q] assms(3) by (cases "q = p") (auto, metis option.discI)
next
  fix y z q assume "(sl(x := Some p)) y = Some q \<and> (sl(x := Some p)) z = Some q"
  then show "y = z" using placedD(2) [OF assms(1), of y p] placedD(2) [OF assms(1), of z p] placedD(4) [OF assms(1), of y q z] assms(2)
    by (auto split: if_splits)
qed

lemma placed_switch:
  assumes "placed st w sl" and "st q = Some Ready" and "sl cur = Some p" and "sl old = None" and "cur \<noteq> old"
  shows "placed (st(q := Some Running)) (w - {#q#}) (sl(old := Some p, cur := Some q))"
  unfolding placed_def
proof (intro conjI allI impI)
  fix r show "count (w - {#q#}) r = (if (st(q := Some Running)) r = Some Ready then 1 else 0)"
    using placedD(1) [OF assms(1), of r] assms(2) by auto
next
  fix y r assume "(sl(old := Some p, cur := Some q)) y = Some r"
  then show "(st(q := Some Running)) r = Some Running"
    using placedD(2) [OF assms(1)] assms(3) by (auto split: if_splits)
next
  fix r assume r: "(st(q := Some Running)) r = Some Running"
  show "\<exists>y. (sl(old := Some p, cur := Some q)) y = Some r"
  proof (cases "r = q \<or> r = p")
    case True
    then show ?thesis using assms(5) by (metis fun_upd_apply)
  next
    case False
    then obtain x where "sl x = Some r" using r placedD(3) [OF assms(1), of r] by auto
    then show ?thesis using False assms(3,4) by (intro exI [of _ x]) auto
  qed
next
  fix y z r assume yz: "(sl(old := Some p, cur := Some q)) y = Some r \<and> (sl(old := Some p, cur := Some q)) z = Some r"
  have "q \<noteq> p" using placedD(2) [OF assms(1,3)] assms(2) by auto
  moreover have "sl x \<noteq> Some q" for x using placedD(2) [OF assms(1), of x q] assms(2) by auto
  moreover have "sl x = Some p \<Longrightarrow> x = cur" for x using placedD(4) [OF assms(1) _ assms(3)] by auto
  ultimately show "y = z" using yz placedD(4) [OF assms(1), of y r z] by (auto split: if_splits)
qed

lemma placed_finish:
  assumes "placed st w sl" and "sl old = Some p"
  shows "placed (st(p := Some Ready)) (add_mset p w) (sl(old := None))"
  unfolding placed_def
proof (intro conjI allI impI)
  fix r show "count (add_mset p w) r = (if (st(p := Some Ready)) r = Some Ready then 1 else 0)"
    using placedD(1) [OF assms(1), of r] placedD(2) [OF assms] by auto
next
  fix y r assume y: "(sl(old := None)) y = Some r"
  then have "r \<noteq> p" using placedD(4) [OF assms(1) _ assms(2), of y] by (auto split: if_splits)
  then show "(st(p := Some Ready)) r = Some Running" using y placedD(2) [OF assms(1), of y r] by (auto split: if_splits)
next
  fix r assume "(st(p := Some Ready)) r = Some Running"
  then obtain x where "sl x = Some r" "r \<noteq> p" using placedD(3) [OF assms(1), of r] by (auto split: if_splits)
  then show "\<exists>y. (sl(old := None)) y = Some r" using assms(2) by (intro exI [of _ x]) auto
next
  fix y z r assume "(sl(old := None)) y = Some r \<and> (sl(old := None)) z = Some r"
  then show "y = z" using placedD(4) [OF assms(1), of y r z] by (auto split: if_splits)
qed


section \<open>The directory operations keep the invariant\<close>

lemma known_iff: "state_of d p \<noteq> None \<longleftrightarrow> p |\<in>| fmdom (process_map d)" "init_of d p \<noteq> None \<longleftrightarrow> p |\<in>| fmdom (process_map d)"
  by (auto simp: state_of_def init_of_def fmlookup_dom_iff)

lemma change_state_ok:
  assumes "state_of d p = Some from"
  shows "\<exists>d'. change_state from to p d = Inr d' \<and> state_of d' = (state_of d)(p := Some to) \<and> init_of d' = init_of d
     \<and> waiting d' = waiting d \<and> (dir_inv d \<longrightarrow> dir_inv d')"
proof -
  obtain t where t: "fmlookup (process_map d) p = Some t" "td_state (t_inner t) = from"
    using assms by (auto simp: state_of_def)
  let ?d = "d\<lparr>process_map := fmupd p (t\<lparr>t_inner := (t_inner t)\<lparr>td_state := to\<rparr>\<rparr>) (process_map d)\<rparr>"
  have dom: "fmdom (process_map ?d) = fmdom (process_map d)" using t(1) by (auto simp: fmlookup_dom_iff fset_eq_iff)
  have "init_of ?d = init_of d" using t(1) by (auto simp: init_of_def fun_eq_iff)
  moreover have "state_of ?d = (state_of d)(p := Some to)" by (auto simp: state_of_def fun_eq_iff)
  moreover have "change_state from to p d = Inr ?d" using t by (simp add: change_state_def task_deref_def)
  moreover have "dir_inv ?d" if "dir_inv d"
    using that dom calculation(1) by (simp add: dir_inv_def pids_inv_def task_refs_ok_def)
  ultimately show ?thesis by (intro exI [of _ ?d]) (simp add: waiting_def)
qed

lemma change_state_eq: "change_state from to p d = Inr d' \<Longrightarrow> state_of d p = Some from"
  by (auto simp: change_state_def task_deref_def state_of_def res_simps)

lemma queue_ok:
  assumes d: "dir_inv d" and st: "state_of d (tc_task tc) = Some Ready"
  shows "\<exists>d'. add_to_ready_list tc d = Inr d' \<and> dir_inv d' \<and> state_of d' = state_of d \<and> init_of d' = init_of d
     \<and> waiting_pids d' = add_mset (tc_task tc) (waiting_pids d)"
proof -
  have refs: "task_refs_ok d" using d by (simp add: dir_inv_def)
  obtain t where t: "fmlookup (process_map d) (tc_task tc) = Some t" "td_state (t_inner t) = Ready"
    using st by (auto simp: state_of_def)
  let ?i = "priority_index (ti_priority (td_init (t_inner t)))"
  let ?d = "d\<lparr>ready_lists := (ready_lists d)[?i := ready_lists d ! ?i @ [tc]]\<rparr>"
  have i: "?i < length (ready_lists d)" using refs by (simp add: task_refs_ok_def)
  have a: "add_to_ready_list tc d = Inr ?d" by (rule add_to_ready_spec [OF refs t])
  have "queueable d tc" using t by (simp add: queueable_def)
  then have "task_refs_ok ?d" "waiting ?d = add_mset tc (waiting d)" using ready_pool.add_law [OF refs, of tc] a by auto
  moreover have same: "state_of ?d = state_of d" "init_of ?d = init_of d" by (simp_all add: state_of_def init_of_def fun_eq_iff)
  moreover have "levels_ok (init_of d) (ready_lists ?d)"
    using d i t(1) by (auto simp: dir_inv_def levels_ok_def nth_list_update init_of_def)
  ultimately show ?thesis using a d by (intro exI [of _ ?d]) (simp add: dir_inv_def pids_inv_def waiting_pids_def)
qed

lemma affine_runs_on: "affine d c tc \<longleftrightarrow> runs_on (init_of d (tc_task tc)) c"
  by (auto simp: affine_def runs_on_def init_of_def split: option.splits)

lemma next_ok:
  assumes d: "dir_inv d"
  shows "\<exists>d' r. find_next_task c cur d = Inr (d', r) \<and> dir_inv d' \<and> state_of d' = state_of d \<and> init_of d' = init_of d
     \<and> (case r of None \<Rightarrow> d' = d
        | Some tc \<Rightarrow> waiting_pids d = add_mset (tc_task tc) (waiting_pids d') \<and> runs_on (init_of d (tc_task tc)) c)"
proof -
  have refs: "task_refs_ok d" using d by (simp add: dir_inv_def)
  from find_next_spec [OF refs, of c cur] show ?thesis
  proof (elim disjE exE conjE)
    assume "find_next_task c cur d = Inr (d, None)"
    then show ?thesis using d by simp
  next
    fix ls i ms d' tc
    assume f: "find_next_task c cur d = Inr (d', Some tc)" and p: "picked c ls d d' i tc"
    obtain xs ys where x: "i < length (ready_lists d)" "ready_lists d ! i = xs @ tc # ys" "affine d c tc"
        "d' = d\<lparr>ready_lists := (ready_lists d)[i := xs @ ys]\<rparr>"
      using p by (auto simp: picked_def)
    have "task_refs_ok d'" using find_next_waiting [OF refs, of c cur] f by auto
    moreover have same: "state_of d' = state_of d" "init_of d' = init_of d"
      by (simp_all add: x(4) state_of_def init_of_def fun_eq_iff)
    moreover have "levels_ok (init_of d) (ready_lists d')"
      using d x(1,2) by (auto simp: dir_inv_def levels_ok_def nth_list_update x(4))
    moreover have "pids_inv d'" using d by (simp add: dir_inv_def pids_inv_def x(4))
    ultimately show ?thesis
      using f picked_waiting(1) [OF p] x(3) affine_runs_on [of d c tc] by (auto simp: dir_inv_def waiting_pids_def)
  qed
qed

lemma create_ok:
  assumes d: "dir_inv d"
  shows "(\<exists>d' p. create_task sys init d = Inr (d', Inr p) \<and> dir_inv d' \<and> state_of d p = None
            \<and> state_of d' = (state_of d)(p := Some New) \<and> init_of d' = (init_of d)(p := Some init) \<and> waiting d' = waiting d)
       \<or> (\<exists>d'. create_task sys init d = Inr (d', Inl OutOfPids) \<and> dir_inv d' \<and> state_of d' = state_of d
            \<and> init_of d' = init_of d \<and> waiting d' = waiting d)"
proof -
  have i: "pids_inv d" "task_refs_ok d" "levels_ok (init_of d) (ready_lists d)" using d by (simp_all add: dir_inv_def)
  from generate_pid_spec [OF i(1), of sys] show ?thesis
  proof (elim disjE exE conjE)
    fix d1 p
    assume g: "generate_pid sys d = Inr (d1, Inr p)" "p |\<notin>| fmdom (process_map d)" "pid_ok sys p" "pids_inv d1"
      and eq: "process_map d1 = process_map d" "ready_lists d1 = ready_lists d"
    let ?d = "d1\<lparr>process_map := fmupd p (task_new p init) (process_map d1)\<rparr>"
    have ini: "init_of ?d = (init_of d)(p := Some init)" by (auto simp: init_of_def eq task_new_def fun_eq_iff)
    have "tc_task tc \<noteq> p" if "k < length (ready_lists d)" "tc \<in> set (ready_lists d ! k)" for k tc
      using i(2) g(2) that nth_mem [OF that(1)] by (auto simp: task_refs_ok_def)
    then have "levels_ok (init_of ?d) (ready_lists ?d)" using i(3) unfolding ini by (auto simp: levels_ok_def eq)
    moreover have "task_refs_ok ?d" using i(2) by (auto simp: task_refs_ok_def eq)
    moreover have "pids_inv ?d" by (rule pids_inv_new [OF g(4,3)])
    moreover have "state_of ?d = (state_of d)(p := Some New)" by (auto simp: state_of_def eq task_new_def fun_eq_iff)
    moreover have "state_of d p = None" using g(2) known_iff(1) by blast
    moreover have "create_task sys init d = Inr (?d, Inr p)" using g(1) by (simp add: create_task_def bindE_def)
    ultimately show ?thesis using ini by (intro disjI1 exI [of _ ?d] exI [of _ p]) (simp add: dir_inv_def waiting_def eq)
  next
    fix d1
    assume g: "generate_pid sys d = Inr (d1, Inl OutOfPids)" "pids_inv d1"
      and eq: "process_map d1 = process_map d" "ready_lists d1 = ready_lists d"
    have "state_of d1 = state_of d" "init_of d1 = init_of d" by (simp_all add: state_of_def init_of_def eq fun_eq_iff)
    then show ?thesis using g i
      by (intro disjI2 exI [of _ d1]) (simp add: dir_inv_def task_refs_ok_def waiting_def eq create_task_def bindE_def)
  qed
qed


section \<open>The task operations keep the invariant\<close>

lemma in_slot_upd:
  "in_slot (cur(c := \<lparr>ct_current = a, ct_old = b\<rparr>)) =
     (in_slot cur)(OldOf c := map_option tc_task b, CurrentOf c := map_option tc_task a)"
proof
  fix x show "in_slot (cur(c := \<lparr>ct_current = a, ct_old = b\<rparr>)) x =
     ((in_slot cur)(OldOf c := map_option tc_task b, CurrentOf c := map_option tc_task a)) x"
    by (cases x) auto
qed

lemma current_eta: "(k :: current_task)\<lparr>ct_old := b\<rparr> = \<lparr>ct_current = ct_current k, ct_old = b\<rparr>"
  "(k :: current_task)\<lparr>ct_current := a\<rparr> = \<lparr>ct_current = a, ct_old = ct_old k\<rparr>"
  by (cases k; simp)+

lemma sched_inv_cong:
  "sch_directory s = sch_directory s' \<Longrightarrow> in_slot (sch_current s) = in_slot (sch_current s') \<Longrightarrow>
   \<forall>c. (ct_old (sch_current s c) \<noteq> None) = (ct_old (sch_current s' c) \<noteq> None) \<Longrightarrow>
   \<forall>c. (ct_current (sch_current s c) \<noteq> None) = (ct_current (sch_current s' c) \<noteq> None) \<Longrightarrow>
   sched_inv s = sched_inv s'"
  by (simp add: sched_inv_def slots_inv_def)

lemma slots_inv_upd:
  assumes "slots_inv ini cur" and "\<And>tc. a = Some tc \<Longrightarrow> runs_on (ini (tc_task tc)) c"
    and "\<And>tc. b = Some tc \<Longrightarrow> runs_on (ini (tc_task tc)) c" and "b \<noteq> None \<Longrightarrow> a \<noteq> None"
  shows "slots_inv ini (cur(c := \<lparr>ct_current = a, ct_old = b\<rparr>))"
proof -
  have "runs_on (ini p) (slot_cpu x)" if "in_slot (cur(c := \<lparr>ct_current = a, ct_old = b\<rparr>)) x = Some p" for x p
    using that assms(1-3) unfolding in_slot_upd slots_inv_def by (auto split: if_splits)
  moreover have "\<forall>k. ct_old ((cur(c := \<lparr>ct_current = a, ct_old = b\<rparr>)) k) \<noteq> None \<longrightarrow>
      ct_current ((cur(c := \<lparr>ct_current = a, ct_old = b\<rparr>)) k) \<noteq> None"
    using assms(1,4) by (auto simp: slots_inv_def)
  ultimately show ?thesis by (simp add: slots_inv_def)
qed

lemma slots_inv_current:
  assumes "slots_inv ini cur" and "ct_current (cur c) = Some k"
  shows "runs_on (ini (tc_task k)) c"
proof -
  have "in_slot cur (CurrentOf c) = Some (tc_task k)" using assms(2) by simp
  then show ?thesis using assms(1) unfolding slots_inv_def by (metis slot_cpu.simps(1))
qed

lemma prepare_ok:
  assumes dir: "dir_inv d" and pl: "placed (state_of d) (add_mset (tc_task next) (waiting_pids d)) (in_slot (sch_current s))"
    and sl: "slots_inv (init_of d) (sch_current s)" and nx: "runs_on (init_of d (tc_task next)) c"
    and cur: "ct_current (sch_current s c) = Some tc" and old: "ct_old (sch_current s c) = None" and d: "sch_directory s = d"
  shows "\<exists>s'. prepare_task_switch c next s = Inr (s', tc) \<and> sched_inv s' \<and> sch_regs s' = sch_regs s \<and> sch_mem s' = sch_mem s
     \<and> sch_kernel s' = sch_kernel s \<and> sch_current s' = (sch_current s)(c := \<lparr>ct_current = Some next, ct_old = Some tc\<rparr>)"
proof -
  have "count (add_mset (tc_task next) (waiting_pids d)) (tc_task next) \<noteq> 0" by simp
  then have r: "state_of d (tc_task next) = Some Ready"
    using placedD(1) [OF pl, of "tc_task next"] by (auto split: if_splits)
  obtain d' where d': "set_running (tc_task next) d = Inr d'" "state_of d' = (state_of d)(tc_task next := Some Running)"
      "init_of d' = init_of d" "waiting d' = waiting d" "dir_inv d'"
    using change_state_ok [OF r, of Running] dir by (auto simp: set_running_def)
  let ?cur = "(sch_current s)(c := \<lparr>ct_current = Some next, ct_old = Some tc\<rparr>)"
  have "runs_on (init_of d (tc_task tc)) c" by (rule slots_inv_current [OF sl cur])
  then have sl': "slots_inv (init_of d') ?cur" unfolding d'(3) using sl nx by (intro slots_inv_upd) auto
  have "placed (state_of d') (waiting_pids d') (in_slot ?cur)"
    using placed_switch [OF pl r, of "CurrentOf c" "tc_task tc" "OldOf c"] cur old
    unfolding in_slot_upd d'(2) waiting_pids_def d'(4) by simp
  then have "sched_inv (s\<lparr>sch_current := ?cur, sch_directory := d'\<rparr>)" using d'(5) sl' by (simp add: sched_inv_def)
  moreover have "prepare_task_switch c next s = Inr (s\<lparr>sch_current := ?cur, sch_directory := d'\<rparr>, tc)"
    using old cur d d'(1) by (simp add: prepare_task_switch_def on_directory_def)
  ultimately show ?thesis by (intro exI [of _ "s\<lparr>sch_current := ?cur, sch_directory := d'\<rparr>"]) simp
qed

lemma switch_to_inv:
  assumes "sched_inv s" and "ct_old (sch_current s c) = Some old"
  shows "sched_inv (switch_to cl c old next s)"
proof -
  obtain r m where rm: "hw_push (cl_switch_return cl) (sch_regs s c) (sch_mem s) = (r, m)" by fastforce
  obtain sv r' m' where sw: "do_switch cl (tc_context next) r m = (sv, r', m')" by (metis prod_cases3)
  have cur: "sch_current (switch_to cl c old next s) =
      (sch_current s)(c := \<lparr>ct_current = ct_current (sch_current s c), ct_old = Some (old\<lparr>tc_context := sv\<rparr>)\<rparr>)"
    using rm sw by (simp add: switch_to_def current_eta)
  have dir: "sch_directory (switch_to cl c old next s) = sch_directory s" using rm sw by (simp add: switch_to_def)
  have "in_slot (sch_current (switch_to cl c old next s)) = in_slot (sch_current s)"
    unfolding cur in_slot_upd using assms(2) by (auto simp: fun_eq_iff)
  then show ?thesis using assms dir by (subst sched_inv_cong [of _ s]) (auto simp: cur)
qed

lemma begin_ok:
  assumes inv: "sched_inv s" and cur: "ct_current (sch_current s c) = Some tc" and old: "ct_old (sch_current s c) = None"
  shows "\<exists>s' b. begin_switch cl c s = Inr (s', b) \<and> sched_inv s' \<and> (b \<longrightarrow> ct_old (sch_current s' c) \<noteq> None)
     \<and> (\<not> b \<longrightarrow> s' = s)"
proof -
  let ?d = "sch_directory s"
  have i: "dir_inv ?d" "placed (state_of ?d) (waiting_pids ?d) (in_slot (sch_current s))" "slots_inv (init_of ?d) (sch_current s)"
    using inv by (simp_all add: sched_inv_def)
  have "in_slot (sch_current s) (CurrentOf c) = Some (tc_task tc)" using cur by simp
  then have "state_of ?d (tc_task tc) = Some Running" using placedD(2) [OF i(2)] by blast
  then obtain t where t: "fmlookup (process_map ?d) (tc_task tc) = Some t" by (auto simp: state_of_def)
  let ?pri = "ti_priority (td_init (t_inner t))"
  obtain d' r where n: "find_next_task c (Some ?pri) ?d = Inr (d', r)" "dir_inv d'" "state_of d' = state_of ?d"
      "init_of d' = init_of ?d" "case r of None \<Rightarrow> d' = ?d
        | Some x \<Rightarrow> waiting_pids ?d = add_mset (tc_task x) (waiting_pids d') \<and> runs_on (init_of ?d (tc_task x)) c"
    using next_ok [OF i(1), of c "Some ?pri"] by blast
  have b: "begin_switch cl c s = (case r of None \<Rightarrow> Inr (s\<lparr>sch_directory := d'\<rparr>, False)
      | Some x \<Rightarrow> bindR (prepare_task_switch c x (s\<lparr>sch_directory := d'\<rparr>)) (\<lambda>(s2, old). Inr (switch_to cl c old x s2, True)))"
    using cur t n(1) by (simp add: begin_switch_def current_task_ref_def task_priority_of_def task_deref_def with_directory_def)
  show ?thesis
  proof (cases r)
    case None
    then show ?thesis using b n(5) inv by (intro exI [of _ s] exI [of _ False]) simp
  next
    case (Some x)
    have "\<exists>s'. prepare_task_switch c x (s\<lparr>sch_directory := d'\<rparr>) = Inr (s', tc) \<and> sched_inv s'
        \<and> sch_regs s' = sch_regs (s\<lparr>sch_directory := d'\<rparr>) \<and> sch_mem s' = sch_mem (s\<lparr>sch_directory := d'\<rparr>)
        \<and> sch_kernel s' = sch_kernel (s\<lparr>sch_directory := d'\<rparr>)
        \<and> sch_current s' = (sch_current (s\<lparr>sch_directory := d'\<rparr>))(c := \<lparr>ct_current = Some x, ct_old = Some tc\<rparr>)"
      using n(2-5) i Some cur old by (intro prepare_ok [of d']) simp_all
    then obtain s' where s': "prepare_task_switch c x (s\<lparr>sch_directory := d'\<rparr>) = Inr (s', tc)" "sched_inv s'"
        "ct_old (sch_current s' c) = Some tc" by auto
    have "ct_old (sch_current (switch_to cl c tc x s') c) \<noteq> None" by (simp add: switch_to_def split: prod.splits)
    then show ?thesis using b Some s' switch_to_inv [OF s'(2,3)]
      by (intro exI [of _ "switch_to cl c tc x s'"] exI [of _ True]) simp
  qed
qed

lemma complete_ok:
  assumes inv: "sched_inv s" and old: "ct_old (sch_current s c) = Some tc"
  shows "\<exists>s'. complete_task_switch c s = Inr s' \<and> sched_inv s' \<and> sch_regs s' = sch_regs s \<and> sch_mem s' = sch_mem s
     \<and> sch_current s' = (sch_current s)(c := (sch_current s c)\<lparr>ct_old := None\<rparr>)"
proof -
  let ?d = "sch_directory s" and ?cur = "(sch_current s)(c := \<lparr>ct_current = ct_current (sch_current s c), ct_old = None\<rparr>)"
  have i: "dir_inv ?d" "placed (state_of ?d) (waiting_pids ?d) (in_slot (sch_current s))" "slots_inv (init_of ?d) (sch_current s)"
    using inv by (simp_all add: sched_inv_def)
  have o: "in_slot (sch_current s) (OldOf c) = Some (tc_task tc)" using old by simp
  then have r: "state_of ?d (tc_task tc) = Some Running" using placedD(2) [OF i(2)] by blast
  obtain d1 where d1: "change_state Running Ready (tc_task tc) ?d = Inr d1" "state_of d1 = (state_of ?d)(tc_task tc := Some Ready)"
      "init_of d1 = init_of ?d" "waiting d1 = waiting ?d" "dir_inv d1"
    using change_state_ok [OF r, of Ready] i(1) by auto
  have "state_of d1 (tc_task tc) = Some Ready" using d1(2) by simp
  then obtain d2 where d2: "add_to_ready_list tc d1 = Inr d2" "dir_inv d2" "state_of d2 = state_of d1" "init_of d2 = init_of d1"
      "waiting_pids d2 = add_mset (tc_task tc) (waiting_pids d1)"
    using queue_ok [OF d1(5)] by blast
  have sl: "in_slot ?cur = (in_slot (sch_current s))(OldOf c := None)" unfolding in_slot_upd by (auto simp: fun_eq_iff)
  have w: "waiting_pids d2 = add_mset (tc_task tc) (waiting_pids ?d)" using d2(5) d1(4) by (simp add: waiting_pids_def)
  have "placed (state_of d2) (waiting_pids d2) (in_slot ?cur)"
    unfolding sl w d2(3) d1(2) by (rule placed_finish [OF i(2) o])
  moreover have "slots_inv (init_of d2) ?cur" unfolding d2(4) d1(3) using i(3)
  proof (intro slots_inv_upd)
    fix k assume "ct_current (sch_current s c) = Some k"
    then show "runs_on (init_of ?d (tc_task k)) c" by (rule slots_inv_current [OF i(3)])
  qed auto
  ultimately have "sched_inv (s\<lparr>sch_current := ?cur, sch_directory := d2\<rparr>)" using d2(2) by (simp add: sched_inv_def)
  moreover have "complete_task_switch c s = Inr (s\<lparr>sch_current := ?cur, sch_directory := d2\<rparr>)"
    using old d1(1) d2(1) by (simp add: complete_task_switch_def make_ready_def on_directory_def current_eta)
  ultimately show ?thesis
    by (intro exI [of _ "s\<lparr>sch_current := ?cur, sch_directory := d2\<rparr>"]) (simp add: current_eta)
qed


lemma directory_create_ok:
  assumes inv: "sched_inv s" and r: "directory_create_task sys init s = Inr (s', r)"
  shows "sched_inv s' \<and> sch_current s' = sch_current s \<and> sch_regs s' = sch_regs s \<and> sch_mem s' = sch_mem s
     \<and> (case r of
          Inr p \<Rightarrow> state_of (sch_directory s') p = Some New \<and> init_of (sch_directory s') p = Some init
            \<and> sch_kernel s' = sch_kernel s
        | Inl e \<Rightarrow> e = OutOfPids)"
proof -
  let ?d = "sch_directory s"
  have i: "dir_inv ?d" "placed (state_of ?d) (waiting_pids ?d) (in_slot (sch_current s))" "slots_inv (init_of ?d) (sch_current s)"
    using inv by (simp_all add: sched_inv_def)
  from create_ok [OF i(1), of sys init] show ?thesis
  proof (elim disjE exE conjE)
    fix d' p assume c: "create_task sys init ?d = Inr (d', Inr p)" "dir_inv d'" "state_of ?d p = None"
      "state_of d' = (state_of ?d)(p := Some New)" "init_of d' = (init_of ?d)(p := Some init)" "waiting d' = waiting ?d"
    have "in_slot (sch_current s) x \<noteq> Some p" for x using placedD(2) [OF i(2), of x p] c(3) by auto
    then have "slots_inv (init_of d') (sch_current s)" using i(3) by (auto simp: slots_inv_def c(5))
    moreover have "placed (state_of d') (waiting_pids d') (in_slot (sch_current s))"
      unfolding c(4) waiting_pids_def c(6) using placed_new [OF i(2) c(3)] by (simp add: waiting_pids_def)
    ultimately show ?thesis using r c by (auto simp: directory_create_task_def sched_inv_def)
  next
    fix d' assume c: "create_task sys init ?d = Inr (d', Inl OutOfPids)" "dir_inv d'" "state_of d' = state_of ?d"
      "init_of d' = init_of ?d" "waiting d' = waiting ?d"
    then show ?thesis using r i
      by (auto simp: directory_create_task_def sched_inv_def waiting_pids_def bindR_eq_Inr)
  qed
qed

lemma make_current_ok:
  assumes inv: "sched_inv s" and p: "state_of (sch_directory s) p = Some New" and cur: "ct_current (sch_current s c) = None"
    and on: "runs_on (init_of (sch_directory s) p) c"
  shows "\<exists>s'. make_current c p s = Inr s' \<and> sched_inv s'
     \<and> ct_current (sch_current s' c) = Some \<lparr>tc_task = p, tc_context = arch_context_new\<rparr>"
proof -
  let ?d = "sch_directory s" and ?tc = "\<lparr>tc_task = p, tc_context = arch_context_new\<rparr>"
  let ?cur = "(sch_current s)(c := \<lparr>ct_current = Some ?tc, ct_old = ct_old (sch_current s c)\<rparr>)"
  have i: "dir_inv ?d" "placed (state_of ?d) (waiting_pids ?d) (in_slot (sch_current s))" "slots_inv (init_of ?d) (sch_current s)"
    using inv by (simp_all add: sched_inv_def)
  have old: "ct_old (sch_current s c) = None" using i(3) cur by (auto simp: slots_inv_def)
  obtain d' where d': "change_state New Running p ?d = Inr d'" "state_of d' = (state_of ?d)(p := Some Running)"
      "init_of d' = init_of ?d" "waiting d' = waiting ?d" "dir_inv d'"
    using change_state_ok [OF p, of Running] i(1) by auto
  have sl: "in_slot ?cur = (in_slot (sch_current s))(CurrentOf c := Some p)"
    unfolding in_slot_upd using old by (auto simp: fun_eq_iff)
  have "placed (state_of d') (waiting_pids d') (in_slot ?cur)"
    unfolding sl d'(2) waiting_pids_def d'(4) using placed_start [OF i(2) p, of "CurrentOf c"] cur
    by (simp add: waiting_pids_def)
  moreover have "slots_inv (init_of d') ?cur" unfolding d'(3) using i(3) on old by (intro slots_inv_upd) auto
  ultimately have "sched_inv (s\<lparr>sch_directory := d', sch_current := ?cur\<rparr>)" using d'(5) by (simp add: sched_inv_def)
  moreover have "make_current c p s = Inr (s\<lparr>sch_directory := d', sch_current := ?cur\<rparr>)"
    using d'(1) cur by (simp add: make_current_def on_directory_def set_initial_task_def switch_running_task_def current_eta)
  ultimately show ?thesis by (intro exI [of _ "s\<lparr>sch_directory := d', sch_current := ?cur\<rparr>"]) simp
qed

lemma make_current_busy: "ct_current (sch_current s c) \<noteq> None \<Longrightarrow> \<exists>e. make_current c p s = Inl e"
  by (cases "on_directory (change_state New Running p) s")
    (auto simp: make_current_def set_initial_task_def switch_running_task_def on_directory_def bindR_eq_Inr)

lemma queue_new_ok:
  assumes inv: "sched_inv s" and p: "state_of (sch_directory s) p = Some New"
  shows "\<exists>s'. queue_new_task p ctx s = Inr s' \<and> sched_inv s' \<and> sch_current s' = sch_current s \<and> sch_regs s' = sch_regs s
     \<and> sch_mem s' = sch_mem s"
proof -
  let ?d = "sch_directory s" and ?tc = "\<lparr>tc_task = p, tc_context = ctx\<rparr>"
  have i: "dir_inv ?d" "placed (state_of ?d) (waiting_pids ?d) (in_slot (sch_current s))" "slots_inv (init_of ?d) (sch_current s)"
    using inv by (simp_all add: sched_inv_def)
  obtain d1 where d1: "change_state New Ready p ?d = Inr d1" "state_of d1 = (state_of ?d)(p := Some Ready)"
      "init_of d1 = init_of ?d" "waiting d1 = waiting ?d" "dir_inv d1"
    using change_state_ok [OF p, of Ready] i(1) by auto
  have "state_of d1 (tc_task ?tc) = Some Ready" using d1(2) by simp
  then obtain d2 where d2: "add_to_ready_list ?tc d1 = Inr d2" "dir_inv d2" "state_of d2 = state_of d1" "init_of d2 = init_of d1"
      "waiting_pids d2 = add_mset p (waiting_pids d1)"
    using queue_ok [OF d1(5), of ?tc] by auto
  have w: "waiting_pids d2 = add_mset p (waiting_pids ?d)" using d2(5) d1(4) by (simp add: waiting_pids_def)
  have "placed (state_of d2) (waiting_pids d2) (in_slot (sch_current s))"
    unfolding w d2(3) d1(2) by (rule placed_queue [OF i(2) p])
  then have "sched_inv (s\<lparr>sch_directory := d2\<rparr>)" using d2(2,4) d1(3) i(3) by (simp add: sched_inv_def)
  moreover have "queue_new_task p ctx s = Inr (s\<lparr>sch_directory := d2\<rparr>)"
    using d1(1) d2(1) by (simp add: queue_new_task_def on_directory_def)
  ultimately show ?thesis by simp
qed

lemma sched_inv_other [simp]:
  "sched_inv (s\<lparr>sch_regs := r\<rparr>) = sched_inv s" "sched_inv (s\<lparr>sch_mem := m\<rparr>) = sched_inv s"
  "sched_inv (s\<lparr>sch_kernel := k\<rparr>) = sched_inv s"
  by (simp_all add: sched_inv_def)

section \<open>Steps and runs\<close>

text \<open>
  The steps in which the CPUs touch what they share, at the granularity of the locks. A switch is
  two steps, because it holds no lock while it changes stacks; other CPUs run in between. A task
  may be queued by whoever created it as long as it is new. \<open>step_other\<close> is everything else that
  code does to registers, memory and the memory manager.
\<close>

inductive sched_step :: "code_layout \<Rightarrow> region_layout \<Rightarrow> sched \<Rightarrow> sched \<Rightarrow> bool" for cl rl where
  step_init: "scheduler_init c stack s = Inr (s', r) \<Longrightarrow> sched_step cl rl s s'"
| step_create: "task_spawn rl s = Inr (s', r) \<Longrightarrow> sched_step cl rl s s'"
| step_queue: "\<lbrakk>spawn_context cl c trampoline p s = Inr (s1, ctx); queue_new_task p ctx s1 = Inr s'\<rbrakk>
    \<Longrightarrow> sched_step cl rl s s'"
| step_begin: "\<lbrakk>ct_old (sch_current s c) = None; begin_switch cl c s = Inr (s', b)\<rbrakk> \<Longrightarrow> sched_step cl rl s s'"
| step_finish: "finish_switch cl c s = Inr s' \<Longrightarrow> sched_step cl rl s s'"
| step_other: "sched_step cl rl s (s\<lparr>sch_regs := r, sch_mem := m, sch_kernel := k\<rparr>)"

definition sched_boot :: "(usize \<Rightarrow> cpu_regs) \<Rightarrow> vmem \<Rightarrow> kstate \<Rightarrow> sched" where
  "sched_boot r m k = \<lparr>sch_directory = directory_new, sch_current = (\<lambda>c. current_task_new),
     sch_regs = r, sch_mem = m, sch_kernel = k\<rparr>"

inductive sched_run :: "code_layout \<Rightarrow> region_layout \<Rightarrow> sched \<Rightarrow> bool" for cl rl where
  run_boot: "sched_run cl rl (sched_boot r m k)"
| run_step: "\<lbrakk>sched_run cl rl s; sched_step cl rl s s'\<rbrakk> \<Longrightarrow> sched_run cl rl s'"

lemma boot_inv: "sched_inv (sched_boot r m k)"
proof -
  have "in_slot (\<lambda>c. current_task_new) x = None" for x by (cases x) (simp_all add: current_task_new_def)
  then show ?thesis
    by (auto simp: sched_inv_def sched_boot_def dir_inv_def directory_new_def pids_inv_def pid_consts task_refs_ok_def
        PRIORITIES_COUNT_def levels_ok_def placed_def state_of_def waiting_pids_def waiting_def slots_inv_def
        current_task_new_def less_Suc_eq)
qed

lemma init_step_inv:
  assumes inv: "sched_inv s" and r: "scheduler_init c stack s = Inr (s', r)"
  shows "sched_inv s'"
proof -
  obtain s1 x where n: "new_idle c stack s = Inr (s1, x)" using r by (auto simp: scheduler_init_def bindE_def bindR_eq_Inr)
  note d = directory_create_ok [OF inv n [unfolded new_idle_def]]
  show ?thesis
  proof (cases x)
    case (Inl e)
    then show ?thesis using n r d by (simp add: scheduler_init_def bindE_def)
  next
    case (Inr p)
    then obtain s2 where m: "make_current c p s1 = Inr s2" "s' = s2"
      using n r by (auto simp: scheduler_init_def bindE_def bindR_eq_Inr)
    then have "ct_current (sch_current s1 c) = None" using make_current_busy [of s1 c p] by fastforce
    then show ?thesis using m make_current_ok [of s1 p c] d Inr by (auto simp: runs_on_def)
  qed
qed

lemma create_step_inv:
  assumes inv: "sched_inv s" and r: "task_spawn rl s = Inr (s', r)"
  shows "sched_inv s'"
proof -
  obtain k x where a: "allocate_task_stack rl s = Inr (s\<lparr>sch_kernel := k\<rparr>, x)"
    using r by (auto simp: task_spawn_def bindE_def bindR_eq_Inr allocate_task_stack_def)
  have i: "sched_inv (s\<lparr>sch_kernel := k\<rparr>)" using inv by simp
  show ?thesis
  proof (cases x)
    case (Inl e)
    then show ?thesis using a r i by (simp add: task_spawn_def bindE_def)
  next
    case (Inr stack)
    then show ?thesis using a r directory_create_ok [OF i] by (auto simp: task_spawn_def bindE_def)
  qed
qed

lemma queue_step_inv:
  assumes inv: "sched_inv s" and c: "spawn_context cl c trampoline p s = Inr (s1, ctx)" and q: "queue_new_task p ctx s1 = Inr s'"
  shows "sched_inv s'"
proof -
  obtain m where s1: "s1 = s\<lparr>sch_mem := m\<rparr>" using c by (auto simp: spawn_context_def bindR_eq_Inr)
  have "state_of (sch_directory s1) p = Some New"
    using q change_state_eq by (auto simp: queue_new_task_def on_directory_def bindR_eq_Inr)
  then show ?thesis using queue_new_ok [of s1 p ctx] q inv s1 by auto
qed

lemma begin_step_inv:
  assumes inv: "sched_inv s" and o: "ct_old (sch_current s c) = None" and b: "begin_switch cl c s = Inr (s', b)"
  shows "sched_inv s'"
proof -
  obtain tc where "ct_current (sch_current s c) = Some tc"
    using b by (auto simp: begin_switch_def current_task_ref_def bindR_eq_Inr)
  then show ?thesis using begin_ok [OF inv _ o, of tc cl] b by auto
qed

lemma finish_step_inv:
  assumes inv: "sched_inv s" and f: "finish_switch cl c s = Inr s'"
  shows "sched_inv s'"
proof -
  obtain s1 where c: "complete_task_switch c s = Inr s1" using f by (auto simp: finish_switch_def bindR_eq_Inr)
  then obtain tc where "ct_old (sch_current s c) = Some tc" by (auto simp: complete_task_switch_def split: option.splits)
  then have "sched_inv s1" using complete_ok [OF inv, of c tc] c by auto
  then show ?thesis using f c by (auto simp: finish_switch_def bindR_eq_Inr)
qed

lemma sched_step_inv: "sched_step cl rl s s' \<Longrightarrow> sched_inv s \<Longrightarrow> sched_inv s'"
  by (induction rule: sched_step.induct)
    (auto intro: init_step_inv create_step_inv queue_step_inv begin_step_inv finish_step_inv)

lemma sched_run_inv: "sched_run cl rl s \<Longrightarrow> sched_inv s"
  by (induction rule: sched_run.induct) (auto intro: boot_inv sched_step_inv)


section \<open>Properties\<close>

definition example_code :: code_layout where
  "example_code = \<lparr>cl_launch_trampoline = 0x1000, cl_do_task_trampoline_launch = 0x2000, cl_switch_return = 0x3000,
     cl_complete_return = 0x4000\<rparr>"

definition example_regs :: cpu_regs where
  "example_regs = arch_context.extend (arch_context_new\<lparr>ctx_rsp := 0x9000, ctx_rbx := 7\<rparr>) \<lparr>reg_rip = 0, reg_rdi = 0\<rparr>"

definition example_sched :: sched where
  "example_sched = sched_boot (\<lambda>c. example_regs) (\<lambda>a. 0) example_boot"

lemma example_init:
  "\<exists>s p tc. scheduler_init 0 example_stack example_sched = Inr (s, Inr p) \<and> sched_run cl rl s
     \<and> ct_current (sch_current s 0) = Some tc \<and> tc_task tc = p \<and> ct_old (sch_current s 0) = None"
proof -
  let ?init = "\<lparr>ti_flags = NO_TERMINATE, ti_kernel_stack = example_stack, ti_cpu_id = Some 0, ti_priority = Idle\<rparr>"
  have inv: "sched_inv example_sched" by (simp add: example_sched_def boot_inv)
  have g: "generate_pid True directory_new = Inr (directory_new\<lparr>next_system_pid := 0xfffffffffffffffe\<rparr>, Inr FIRST_SYSTEM_PID)"
    by (simp add: generate_pid_def directory_new_def skip_down.simps [of fmempty] pid_consts usub_def)
  then obtain s1 where s1: "directory_create_task True ?init example_sched = Inr (s1, Inr FIRST_SYSTEM_PID)"
    by (simp add: directory_create_task_def create_task_def bindE_def example_sched_def sched_boot_def)
  note d = directory_create_ok [OF inv s1]
  have "ct_current (sch_current s1 0) = None" "ct_old (sch_current s1 0) = None"
    using d by (simp_all add: example_sched_def sched_boot_def current_task_new_def)
  then obtain s where s: "make_current 0 FIRST_SYSTEM_PID s1 = Inr s" "sched_inv s"
      "ct_current (sch_current s 0) = Some \<lparr>tc_task = FIRST_SYSTEM_PID, tc_context = arch_context_new\<rparr>"
    using make_current_ok [of s1 FIRST_SYSTEM_PID 0] d by (auto simp: runs_on_def)
  have "ct_old (sch_current s 0) = None"
    using s(1) \<open>ct_old (sch_current s1 0) = None\<close>
    by (auto simp: make_current_def on_directory_def set_initial_task_def switch_running_task_def bindR_eq_Inr)
  moreover have i: "scheduler_init 0 example_stack example_sched = Inr (s, Inr FIRST_SYSTEM_PID)"
    using s1 s(1) by (simp add: scheduler_init_def new_idle_def bindE_def)
  moreover have "sched_run cl rl s"
    using run_step [OF run_boot step_init [OF i [unfolded example_sched_def]]] .
  ultimately show ?thesis using s(3) by auto
qed





section \<open>Context switches\<close>

text \<open>The address of the cell just below a stack pointer.\<close>

definition below :: "usize \<Rightarrow> usize" where
  "below a = (a + (usize_limit - 8)) mod usize_limit"

lemma below_lt [simp]: "below a < usize_limit"
  by (simp add: below_def usize_limit_def)

lemma above_below: "a < usize_limit \<Longrightarrow> (below a + 8) mod usize_limit = a"
  by (simp add: below_def mod_add_left_eq usize_limit_def)

lemma hw_push_eq: "hw_push v r m = (r\<lparr>ctx_rsp := below (ctx_rsp r)\<rparr>, m(below (ctx_rsp r) := v))"
  by (simp add: hw_push_def below_def Let_def)

definition load_context :: "arch_context \<Rightarrow> cpu_regs \<Rightarrow> cpu_regs" where
  "load_context ctx r = r\<lparr>ctx_cr3 := ctx_cr3 ctx, ctx_rflags := ctx_rflags ctx, ctx_rbx := ctx_rbx ctx, ctx_r12 := ctx_r12 ctx,
     ctx_r13 := ctx_r13 ctx, ctx_r14 := ctx_r14 ctx, ctx_r15 := ctx_r15 ctx, ctx_rsp := ctx_rsp ctx, ctx_rbp := ctx_rbp ctx\<rparr>"

lemma do_switch_eq:
  assumes "ctx_rsp r < usize_limit"
  shows "do_switch cl next r m =
     (arch_context.truncate r, (load_context next r)\<lparr>ctx_rsp := below (ctx_rsp next)\<rparr>,
      m(below (ctx_rsp r) := ctx_rflags next, below (ctx_rsp next) := cl_complete_return cl))"
  using assms
  by (cases r; cases "next")
    (simp add: do_switch_def hw_push_eq hw_pop_def above_below load_context_def arch_context.defs arch_context_new_def)

lemma resume_eq:
  assumes "ctx_rsp r = below sp" and "sp < usize_limit"
  shows "resume cl r m =
     (let r1 = r\<lparr>ctx_rsp := (sp + 8) mod usize_limit\<rparr> in
      if m sp = cl_launch_trampoline cl
      then Inr (r1\<lparr>ctx_rsp := ((sp + 8) mod usize_limit + 8) mod usize_limit, reg_rdi := m ((sp + 8) mod usize_limit),
                   reg_rip := cl_do_task_trampoline_launch cl\<rparr>)
      else if m sp = cl_switch_return cl then Inl NotYetImplemented
      else Inr (r1\<lparr>reg_rip := m sp\<rparr>))"
  using assms by (simp add: resume_def hw_pop_def above_below Let_def)

text \<open>
  C10. Switching to the context that \<^verbatim>\<open>spawn\<close> prepared enters the task: whatever the CPU did
  before, it ends up in the trampoline launcher with the closure as its argument, an empty stack
  below the top of the task's own stack, and the page table it was spawned with.
\<close>

theorem spawned_task_starts:
  assumes "16 \<le> top_addr" and "top_addr < usize_limit" and "ctx_rsp r < usize_limit"
    and "below (ctx_rsp r) \<notin> {top_addr - 8, top_addr - 16}"
  shows "\<exists>ctx mem1 saved r1 mem2 r2. startup_context cl trampoline top_addr cr3 mem = Inr (ctx, mem1)
     \<and> do_switch cl ctx r mem1 = (saved, r1, mem2) \<and> resume cl r1 mem2 = Inr r2
     \<and> reg_rip r2 = cl_do_task_trampoline_launch cl \<and> reg_rdi r2 = trampoline \<and> ctx_rsp r2 = top_addr \<and> ctx_cr3 r2 = cr3"
proof -
  let ?mem1 = "mem(top_addr - 8 := trampoline, top_addr - 16 := cl_launch_trampoline cl)"
  let ?ctx = "arch_context_new\<lparr>ctx_cr3 := cr3, ctx_rsp := top_addr - 16\<rparr>"
  let ?mem2 = "?mem1(below (ctx_rsp r) := 0, below (top_addr - 16) := cl_complete_return cl)"
  let ?r1 = "(load_context ?ctx r)\<lparr>ctx_rsp := below (top_addr - 16)\<rparr>"
  have "startup_context cl trampoline top_addr cr3 mem = Inr (?ctx, ?mem1)"
    using assms(1) by (simp add: startup_context_def push_system_task_startup_def push_stack_def set_page_table_def
        set_stack_def arch_context_new_def)
  moreover have "do_switch cl ?ctx r ?mem1 = (arch_context.truncate r, ?r1, ?mem2)"
    using do_switch_eq [OF assms(3), of cl ?ctx ?mem1] by (simp add: arch_context_new_def)
  moreover have b: "below (top_addr - 16) \<noteq> top_addr - 16" "below (top_addr - 16) \<noteq> top_addr - 8"
    using assms(1,2) by (auto simp: below_def usize_limit_def mod_if)
  have "?mem2 (top_addr - 16) = cl_launch_trampoline cl" "?mem2 (top_addr - 8) = trampoline"
    using b assms(1,4) by auto
  moreover have "(top_addr - 16 + 8) mod usize_limit = top_addr - 8" "(top_addr - 8 + 8) mod usize_limit = top_addr"
    using assms(1,2) by auto
  moreover have "top_addr - 16 < usize_limit" using assms(2) by linarith
  ultimately show ?thesis
    using resume_eq [of ?r1 "top_addr - 16" cl ?mem2] by (auto simp: Let_def load_context_def arch_context_new_def)
qed

theorem spawned_task_starts_witness:
  "\<exists>ctx mem1 saved r1 mem2 r2. startup_context example_code 0x77 0x5000 0x1000 (\<lambda>a. 0) = Inr (ctx, mem1)
     \<and> do_switch example_code ctx example_regs mem1 = (saved, r1, mem2) \<and> resume example_code r1 mem2 = Inr r2
     \<and> reg_rdi r2 = 0x77"
proof -
  have "ctx_rsp example_regs = 0x9000" by (simp add: example_regs_def arch_context.defs arch_context_new_def)
  with spawned_task_starts [of "0x5000" example_regs example_code "0x77" "0x1000" "\<lambda>a. 0"]
  show ?thesis by (auto simp: below_def usize_limit_def)
qed

text \<open>
  C11. A context switch away and back restores every register it saves, with the stack pointer
  where it was; but the task then continues in \<^verbatim>\<open>reschedule\<close> after its call of \<^verbatim>\<open>switch_to\<close>, where the
  code says \<^verbatim>\<open>todo!()\<close>: a task that was switched out panics as soon as it is chosen again.
\<close>

theorem switched_out_task_panics:
  assumes "hw_push (cl_switch_return cl) r mem = (r0, mem0)" and "do_switch cl next r0 mem0 = (saved, r1, mem1)"
    and "ctx_rsp r < usize_limit" and "cl_switch_return cl \<noteq> cl_launch_trampoline cl"
    and "ctx_rsp s < usize_limit" and "later (ctx_rsp saved) = cl_switch_return cl"
    and "ctx_rsp saved \<notin> {below (ctx_rsp s), below (ctx_rsp saved)}"
    and "do_switch cl saved s later = (out, s1, mem2)"
  shows "ctx_cr3 s1 = ctx_cr3 r \<and> ctx_rflags s1 = ctx_rflags r \<and> ctx_rbx s1 = ctx_rbx r \<and> ctx_r12 s1 = ctx_r12 r
     \<and> ctx_r13 s1 = ctx_r13 r \<and> ctx_r14 s1 = ctx_r14 r \<and> ctx_r15 s1 = ctx_r15 r \<and> ctx_rbp s1 = ctx_rbp r
     \<and> ctx_rsp s1 = below (below (ctx_rsp r)) \<and> resume cl s1 mem2 = Inl NotYetImplemented"
proof -
  have r0: "r0 = r\<lparr>ctx_rsp := below (ctx_rsp r)\<rparr>" using assms(1) by (simp add: hw_push_eq)
  then have sv: "saved = arch_context.truncate r0" using assms(2) do_switch_eq [of r0 cl "next" mem0] by simp
  have f: "ctx_rsp saved = below (ctx_rsp r)" unfolding sv r0 by (simp add: arch_context.defs)
  have s1: "s1 = (load_context saved s)\<lparr>ctx_rsp := below (ctx_rsp saved)\<rparr>"
    and m2: "mem2 = later(below (ctx_rsp s) := ctx_rflags saved, below (ctx_rsp saved) := cl_complete_return cl)"
    using assms(8) do_switch_eq [OF assms(5), of cl saved later] by simp_all
  have "mem2 (ctx_rsp saved) = cl_switch_return cl" using m2 assms(6,7) by simp
  then have "resume cl s1 mem2 = Inl NotYetImplemented"
    using resume_eq [of s1 "ctx_rsp saved" cl mem2] assms(4) by (simp add: s1 f)
  then show ?thesis unfolding s1 by (simp add: load_context_def sv r0 arch_context.defs)
qed

theorem switched_out_task_panics_witness:
  "\<exists>r0 mem0 saved r1 mem1 out s1 mem2. hw_push (cl_switch_return example_code) example_regs (\<lambda>a. 0) = (r0, mem0)
     \<and> do_switch example_code arch_context_new r0 mem0 = (saved, r1, mem1)
     \<and> do_switch example_code saved (example_regs\<lparr>ctx_rsp := 0x5000\<rparr>) mem1 = (out, s1, mem2)
     \<and> ctx_rbx s1 = 7 \<and> resume example_code s1 mem2 = Inl NotYetImplemented"
proof -
  obtain r0 mem0 where p: "hw_push (cl_switch_return example_code) example_regs (\<lambda>a. 0) = (r0, mem0)" by fastforce
  obtain saved r1 mem1 where d: "do_switch example_code arch_context_new r0 mem0 = (saved, r1, mem1)" by (metis prod_cases3)
  obtain out s1 mem2 where b: "do_switch example_code saved (example_regs\<lparr>ctx_rsp := 0x5000\<rparr>) mem1 = (out, s1, mem2)"
    by (metis prod_cases3)
  have e: "ctx_rsp example_regs = 0x9000" "ctx_rbx example_regs = 7"
    by (simp_all add: example_regs_def arch_context.defs arch_context_new_def)
  then have "r0 = example_regs\<lparr>ctx_rsp := 0x8ff8\<rparr>" "mem0 = (\<lambda>a. 0)(0x8ff8 := 0x3000)"
    using p by (simp_all add: hw_push_def usize_limit_def example_code_def)
  then have "ctx_rsp saved = 0x8ff8" "mem1 0x8ff8 = 0x3000"
    using d do_switch_eq [of r0 example_code arch_context_new mem0]
    by (auto simp: arch_context.defs usize_limit_def below_def arch_context_new_def)
  with switched_out_task_panics [OF p d _ _ _ _ _ b] e show ?thesis
    using p d b by (auto simp: example_code_def usize_limit_def below_def)
qed

end
