(* ===== verification/Io_Apic.thy ===== *)
theory Io_Apic
  imports Region_System
begin

text \<open>
  The I/O APIC driver of \<^verbatim>\<open>src/src/devices/io_apic.rs\<close>: register access, redirection entries, and
  the routing of the legacy interrupts during \<^verbatim>\<open>init\<close>.

  The device is reached through a select and a window register. What it does is given by its data
  sheet: the window accesses the register that was selected last, and a write leaves the read-only
  bits of the register alone. What the ACPI tables and \<^verbatim>\<open>cpuid\<close> say and what running the firmware
  method \<^verbatim>\<open>_PIC\<close> answers are arguments.
\<close>

section \<open>The device\<close>

record ioapic_device =
  dev_select :: u32
  dev_regs :: "u8 \<Rightarrow> u32"

text \<open>
  The bits that software can write: all of the high half of a redirection entry that carries the
  destination, and of the low half all but the delivery status, the remote IRR and the reserved bits.
\<close>

definition writable_bits :: "u8 \<Rightarrow> u32" where
  "writable_bits reg =
     (if reg = 0 then 0x0F000000
      else if reg < 0x10 then 0
      else if even (unat reg) then 0x0001AFFF else 0xFF000000)"

definition dev_write_select :: "u32 \<Rightarrow> ioapic_device \<Rightarrow> ioapic_device" where
  "dev_write_select v d = d\<lparr>dev_select := v\<rparr>"

definition dev_read_window :: "ioapic_device \<Rightarrow> u32" where
  "dev_read_window d = dev_regs d (ucast (dev_select d))"

definition dev_write_window :: "u32 \<Rightarrow> ioapic_device \<Rightarrow> ioapic_device" where
  "dev_write_window v d =
     (let reg = ucast (dev_select d); w = writable_bits reg in
      d\<lparr>dev_regs := (dev_regs d)(reg := (v AND w) OR (dev_regs d reg AND NOT w))\<rparr>)"

section \<open>Registers\<close>

record io_apic_registers =
  ir_mapping :: region
  ir_device :: ioapic_device

type_synonym 'a regop = "io_apic_registers \<Rightarrow> (io_apic_registers \<times> 'a) res"

definition ioregsel :: "io_apic_registers \<Rightarrow> usize res" where
  "ioregsel r = as_ptr_offset (ir_mapping r) 0"

definition iowin :: "io_apic_registers \<Rightarrow> usize res" where
  "iowin r = as_ptr_offset (ir_mapping r) 0x10"

definition write_ioregsel :: "u32 \<Rightarrow> unit regop" where
  "write_ioregsel v r = bindR (ioregsel r) (\<lambda>_. Inr (r\<lparr>ir_device := dev_write_select v (ir_device r)\<rparr>, ()))"

definition read_iowin :: "u32 regop" where
  "read_iowin r = bindR (iowin r) (\<lambda>_. Inr (r, dev_read_window (ir_device r)))"

definition write_iowin :: "u32 \<Rightarrow> unit regop" where
  "write_iowin v r = bindR (iowin r) (\<lambda>_. Inr (r\<lparr>ir_device := dev_write_window v (ir_device r)\<rparr>, ()))"

definition read_reg :: "u8 \<Rightarrow> u32 regop" where
  "read_reg reg r = bindR (write_ioregsel (ucast reg) r) (\<lambda>(r1, _). read_iowin r1)"

definition write_reg :: "u8 \<Rightarrow> u32 \<Rightarrow> unit regop" where
  "write_reg reg v r = bindR (write_ioregsel (ucast reg) r) (\<lambda>(r1, _). write_iowin v r1)"

definition read_ioapicid :: "u32 regop" where
  "read_ioapicid = read_reg 0x00"

definition read_ioapicver :: "u32 regop" where
  "read_ioapicver = read_reg 0x01"

definition read_ioredtbl :: "u8 \<Rightarrow> u64 regop" where
  "read_ioredtbl idx r =
     bindR (guardR (idx < 24) (Assertion ''idx < 24'')) (\<lambda>_.
     bindR (read_reg (0x10 + idx * 2) r) (\<lambda>(r1, lo).
     bindR (read_reg (0x10 + idx * 2 + 1) r1) (\<lambda>(r2, hi).
     Inr (r2, ucast lo OR push_bit 32 (ucast hi)))))"

definition write_ioredtbl :: "u8 \<Rightarrow> u64 \<Rightarrow> unit regop" where
  "write_ioredtbl idx v r =
     bindR (guardR (idx < 24) (Assertion ''idx < 24'')) (\<lambda>_.
     bindR (write_reg (0x10 + idx * 2) (ucast v) r) (\<lambda>(r1, _).
     write_reg (0x10 + idx * 2 + 1) (ucast (drop_bit 32 v)) r1))"

definition max_redirection_table_entries :: "u8 regop" where
  "max_redirection_table_entries r =
     bindR (read_ioapicver r) (\<lambda>(r1, ver). Inr (r1, ucast (drop_bit 16 (ver AND 0x00FF0000))))"

definition ioapic_id :: "u8 regop" where
  "ioapic_id r = bindR (read_ioapicid r) (\<lambda>(r1, id_reg). Inr (r1, ucast (drop_bit 24 (id_reg AND 0x0F000000))))"

section \<open>Redirection entries\<close>

datatype polarity = PolaritySameAsBus | PolarityActiveHigh | PolarityActiveLow

datatype trigger_mode = TriggerSameAsBus | TriggerEdge | TriggerLevel

record override =
  isa_source :: nat
  global_system_interrupt :: nat
  ov_polarity :: polarity
  ov_trigger_mode :: trigger_mode

datatype apic_trigger_mode = Edge | Level

datatype apic_polarity = ActiveHigh | ActiveLow

datatype destination_mode = Physical | Logical

datatype delivery_mode = Fixed | LowestPriority | Smi | Nmi | Init | ExtInt

definition trigger_mode_bits :: "apic_trigger_mode \<Rightarrow> u64" where
  "trigger_mode_bits m = (case m of Edge \<Rightarrow> 0 | Level \<Rightarrow> 1)"

definition polarity_bits :: "apic_polarity \<Rightarrow> u64" where
  "polarity_bits p = (case p of ActiveHigh \<Rightarrow> 0 | ActiveLow \<Rightarrow> 1)"

definition destination_mode_bits :: "destination_mode \<Rightarrow> u64" where
  "destination_mode_bits m = (case m of Physical \<Rightarrow> 0 | Logical \<Rightarrow> 1)"

definition delivery_mode_bits :: "delivery_mode \<Rightarrow> u64" where
  "delivery_mode_bits m =
     (case m of Fixed \<Rightarrow> 0 | LowestPriority \<Rightarrow> 1 | Smi \<Rightarrow> 2 | Nmi \<Rightarrow> 4 | Init \<Rightarrow> 5 | ExtInt \<Rightarrow> 7)"

record map_info =
  mi_dest :: u8
  mi_mask :: bool
  mi_trigger_mode :: apic_trigger_mode
  mi_polarity :: apic_polarity
  mi_dest_mode :: destination_mode
  mi_delivery_mode :: delivery_mode
  mi_vector :: u8

definition as_raw :: "map_info \<Rightarrow> u64 res" where
  "as_raw m =
     bindR (guardR (0x20 \<le> mi_vector m) (Assertion ''self.vector >= 0x20'')) (\<lambda>_.
     bindR (guardR (mi_vector m \<le> 0xFE) (Assertion ''self.vector <= 0xFE'')) (\<lambda>_.
     Inr (push_bit 56 (ucast (mi_dest m)) OR push_bit 16 (of_bool (mi_mask m))
          OR push_bit 15 (trigger_mode_bits (mi_trigger_mode m)) OR push_bit 13 (polarity_bits (mi_polarity m))
          OR push_bit 11 (destination_mode_bits (mi_dest_mode m)) OR push_bit 8 (delivery_mode_bits (mi_delivery_mode m))
          OR ucast (mi_vector m))))"

record io_apic =
  apic_registers :: io_apic_registers
  apic_count :: nat
  apic_gsi_base :: nat

definition apic_map :: "u8 \<Rightarrow> map_info \<Rightarrow> io_apic \<Rightarrow> io_apic res" where
  "apic_map idx info a =
     bindR (as_raw info) (\<lambda>raw.
     bindR (write_ioredtbl idx raw (apic_registers a)) (\<lambda>(r, _). Inr (a\<lparr>apic_registers := r\<rparr>)))"

definition set_mask :: "nat \<Rightarrow> bool \<Rightarrow> io_apic \<Rightarrow> io_apic res" where
  "set_mask gsi masked a =
     bindR (usub gsi (apic_gsi_base a)) (\<lambda>n.
     let idx = (of_nat n :: u8) in
     bindR (read_ioredtbl idx (apic_registers a)) (\<lambda>(r, reg).
     let reg1 = (reg AND NOT (push_bit 16 1)) OR push_bit 16 (of_bool masked) in
     bindR (write_ioredtbl idx reg1 r) (\<lambda>(r1, _). Inr (a\<lparr>apic_registers := r1\<rparr>))))"

section \<open>Initialisation\<close>

text \<open>
  What the ACPI tables say about an I/O APIC; overrides are already converted. The device found at
  a physical address is an argument.
\<close>

record acpi_io_apic =
  acpi_address :: usize
  acpi_id :: u8
  acpi_gsi_base :: nat

definition io_apic_registers_new ::
  "region_layout \<Rightarrow> usize \<Rightarrow> ioapic_device \<Rightarrow> kstate \<Rightarrow> (kstate \<times> io_apic_registers option) res" where
  "io_apic_registers_new rl address dev ks =
     bindR (map_physical_memory rl address 8 UNCACHED ks) (\<lambda>(ks1, r). Inr (ks1, case r of
        Inl _ \<Rightarrow> None
      | Inr mapping \<Rightarrow> Some \<lparr>ir_mapping = mapping, ir_device = dev\<rparr>))"

definition io_apic_new ::
  "region_layout \<Rightarrow> acpi_io_apic \<Rightarrow> ioapic_device \<Rightarrow> kstate \<Rightarrow> (kstate \<times> io_apic option) res" where
  "io_apic_new rl info dev ks =
     bindR (io_apic_registers_new rl (acpi_address info) dev ks) (\<lambda>(ks1, x). case x of
        None \<Rightarrow> Inr (ks1, None)
      | Some r \<Rightarrow>
          bindR (ioapic_id r) (\<lambda>(r1, found).
          bindR (guardR (found = acpi_id info) (Assertion ''IOAPIC ID does not match ACPI'')) (\<lambda>_.
          bindR (max_redirection_table_entries r1) (\<lambda>(r2, count).
          Inr (ks1, Some \<lparr>apic_registers = r2, apic_count = unat count, apic_gsi_base = acpi_gsi_base info\<rparr>)))))"

fun init_io_apics ::
  "region_layout \<Rightarrow> (usize \<Rightarrow> ioapic_device) \<Rightarrow> acpi_io_apic list \<Rightarrow> kstate \<Rightarrow> (kstate \<times> io_apic list) res" where
  "init_io_apics rl devs [] ks = Inr (ks, [])"
| "init_io_apics rl devs (info # infos) ks =
     bindR (io_apic_new rl info (devs (acpi_address info)) ks) (\<lambda>(ks1, x). case x of
        None \<Rightarrow> Inl (PanicMsg ''Failed to initialize io_apic'')
      | Some a \<Rightarrow> bindR (init_io_apics rl devs infos ks1) (\<lambda>(ks2, as). Inr (ks2, a # as)))"

definition get_src_override :: "override list \<Rightarrow> nat \<Rightarrow> override option" where
  "get_src_override ovs irq = find (\<lambda>ov. isa_source ov = irq) ovs"

text \<open>\<^verbatim>\<open>find_ioapic\<close> as the position of the entry; its \<^verbatim>\<open>u32\<close> addition is checked.\<close>

definition u32_add :: "nat \<Rightarrow> nat \<Rightarrow> nat res" where
  "u32_add a b = (if a + b < 2 ^ 32 then Inr (a + b) else Inl ArithmeticOverflow)"

fun find_ioapic :: "io_apic list \<Rightarrow> nat \<Rightarrow> nat option res" where
  "find_ioapic [] gsi = Inr None"
| "find_ioapic (a # as) gsi =
     (if apic_gsi_base a \<le> gsi
      then bindR (u32_add (apic_gsi_base a) (apic_count a)) (\<lambda>e.
           if gsi < e then Inr (Some 0) else bindR (find_ioapic as gsi) (\<lambda>r. Inr (map_option Suc r)))
      else bindR (find_ioapic as gsi) (\<lambda>r. Inr (map_option Suc r)))"

text \<open>Where a legacy interrupt goes, or nothing when an override took its global interrupt away.\<close>

definition legacy_route :: "override list \<Rightarrow> nat \<Rightarrow> (nat \<times> trigger_mode \<times> polarity) option" where
  "legacy_route ovs irq = (case get_src_override ovs irq of
       Some ov \<Rightarrow> Some (global_system_interrupt ov, ov_trigger_mode ov, ov_polarity ov)
     | None \<Rightarrow>
         if list_ex (\<lambda>ov. global_system_interrupt ov = irq \<and> isa_source ov \<noteq> irq) ovs
            \<and> \<not> list_ex (\<lambda>ov. isa_source ov = irq) ovs
         then None
         else Some (irq, TriggerSameAsBus, PolaritySameAsBus))"

definition legacy_map_info :: "u8 \<Rightarrow> nat \<Rightarrow> trigger_mode \<Rightarrow> polarity \<Rightarrow> map_info" where
  "legacy_map_info bsp_apic_id irq trig pol =
     \<lparr>mi_dest = bsp_apic_id, mi_mask = False,
      mi_trigger_mode = (case trig of TriggerEdge \<Rightarrow> Edge | TriggerLevel \<Rightarrow> Level | TriggerSameAsBus \<Rightarrow> Edge),
      mi_polarity = (case pol of PolarityActiveHigh \<Rightarrow> ActiveHigh | PolarityActiveLow \<Rightarrow> ActiveLow
                      | PolaritySameAsBus \<Rightarrow> ActiveHigh),
      mi_dest_mode = Physical, mi_delivery_mode = Fixed, mi_vector = of_nat (32 + irq)\<rparr>"

definition map_legacy_irq :: "override list \<Rightarrow> u8 \<Rightarrow> nat \<Rightarrow> io_apic list \<Rightarrow> io_apic list res" where
  "map_legacy_irq ovs bsp_apic_id irq as =
     (case legacy_route ovs irq of
        None \<Rightarrow> Inr as
      | Some (gsi, trig, pol) \<Rightarrow>
          bindR (find_ioapic as gsi) (\<lambda>x. case x of
             None \<Rightarrow> Inr as
           | Some i \<Rightarrow>
               bindR (usub gsi (apic_gsi_base (as ! i))) (\<lambda>n.
               bindR (apic_map (of_nat n) (legacy_map_info bsp_apic_id irq trig pol) (as ! i)) (\<lambda>a.
               Inr (as[i := a])))))"

fun map_legacy_irqs :: "override list \<Rightarrow> u8 \<Rightarrow> nat list \<Rightarrow> io_apic list \<Rightarrow> io_apic list res" where
  "map_legacy_irqs ovs bsp_apic_id [] as = Inr as"
| "map_legacy_irqs ovs bsp_apic_id (irq # irqs) as =
     bindR (map_legacy_irq ovs bsp_apic_id irq as) (map_legacy_irqs ovs bsp_apic_id irqs)"

text \<open>
  The whole of \<^verbatim>\<open>init\<close>. \<open>apics\<close> is the list the interrupt model holds, or nothing when the model is
  not the APIC one; \<open>pic_ok\<close> says that running \<^verbatim>\<open>_PIC\<close> succeeded or that the method does not exist.
\<close>

definition io_apic_init ::
  "region_layout \<Rightarrow> (usize \<Rightarrow> ioapic_device) \<Rightarrow> u8 \<Rightarrow> (acpi_io_apic list \<times> override list) option \<Rightarrow> bool \<Rightarrow> kstate
     \<Rightarrow> (kstate \<times> io_apic list \<times> override list) res" where
  "io_apic_init rl devs bsp_apic_id model pic_ok ks =
     (case model of
        None \<Rightarrow> Inl (PanicMsg ''Unsupported interrupt model'')
      | Some (infos, ovs) \<Rightarrow>
          bindR (init_io_apics rl devs infos ks) (\<lambda>(ks1, as).
          bindR (map_legacy_irqs ovs bsp_apic_id [0..<16] as) (\<lambda>as1.
          bindR (guardR pic_ok (PanicMsg ''Error running _PIC'')) (\<lambda>_.
          Inr (ks1, as1, ovs)))))"


section \<open>Register access\<close>

definition regs_ok :: "io_apic_registers \<Rightarrow> bool" where
  "regs_ok r \<longleftrightarrow> (\<exists>start. region_start (ir_mapping r) = Inr start \<and> start + 0x10 < usize_limit)"

lemma regs_ok_ptr: "regs_ok r \<Longrightarrow> \<exists>a. ioregsel r = Inr a" "regs_ok r \<Longrightarrow> \<exists>a. iowin r = Inr a"
  by (auto simp: regs_ok_def ioregsel_def iowin_def as_ptr_offset_def)

lemma ptr_device [simp]:
  "ioregsel (r\<lparr>ir_device := d\<rparr>) = ioregsel r" "iowin (r\<lparr>ir_device := d\<rparr>) = iowin r" "regs_ok (r\<lparr>ir_device := d\<rparr>) = regs_ok r"
  by (simp_all add: ioregsel_def iowin_def regs_ok_def)

lemma ucast_select [simp]: "(ucast (ucast (reg :: u8) :: u32) :: u8) = reg"
  by (simp add: ucast_up_ucast_id is_up)

lemma read_reg_eq:
  "regs_ok r \<Longrightarrow> read_reg reg r = Inr (r\<lparr>ir_device := dev_write_select (ucast reg) (ir_device r)\<rparr>, dev_regs (ir_device r) reg)"
  using regs_ok_ptr [of r]
  by (auto simp: read_reg_def write_ioregsel_def read_iowin_def dev_read_window_def dev_write_select_def)

definition written :: "u8 \<Rightarrow> u32 \<Rightarrow> (u8 \<Rightarrow> u32) \<Rightarrow> (u8 \<Rightarrow> u32)" where
  "written reg v f = f(reg := (v AND writable_bits reg) OR (f reg AND NOT (writable_bits reg)))"

lemma write_reg_eq:
  assumes "regs_ok r"
  shows "\<exists>r'. write_reg reg v r = Inr (r', ()) \<and> regs_ok r' \<and> dev_regs (ir_device r') = written reg v (dev_regs (ir_device r))"
  using regs_ok_ptr [OF assms] assms
  by (auto simp: write_reg_def write_ioregsel_def write_iowin_def dev_write_window_def dev_write_select_def written_def Let_def)

section \<open>Redirection entries as one word\<close>

definition join :: "u32 \<Rightarrow> u32 \<Rightarrow> u64" where
  "join lo hi = ucast lo OR push_bit 32 (ucast hi)"

lemma bit_join: "bit (join lo hi) n \<longleftrightarrow> (if n < 32 then bit lo n else n < 64 \<and> bit hi (n - 32))"
  by (auto simp: join_def bit_simps dest: bit_imp_le_length)

lemma join_ops:
  "join (a AND b) (c AND d) = join a c AND join b d" "join (a OR b) (c OR d) = join a c OR join b d"
  "join (NOT a) (NOT c) = NOT (join a c)"
  by (rule bit_eqI; auto simp: bit_join bit_simps)+

lemma join_halves: "join (ucast v) (ucast (drop_bit 32 v)) = v"
  by (rule bit_eqI) (auto simp: bit_join bit_simps dest: bit_imp_le_length)

definition lo_reg :: "u8 \<Rightarrow> u8" where
  "lo_reg idx = 0x10 + idx * 2"

definition hi_reg :: "u8 \<Rightarrow> u8" where
  "hi_reg idx = 0x10 + idx * 2 + 1"

lemma reg_nat:
  assumes "idx < (24 :: u8)"
  shows "unat (lo_reg idx) = 16 + 2 * unat idx" "unat (hi_reg idx) = 17 + 2 * unat idx"
proof -
  have "unat idx < 24" using assms by (simp add: word_less_nat_alt)
  then show "unat (lo_reg idx) = 16 + 2 * unat idx" "unat (hi_reg idx) = 17 + 2 * unat idx"
    by (simp_all add: lo_reg_def hi_reg_def unat_word_ariths)
qed

lemma reg_distinct:
  assumes "i < (24 :: u8)" and "j < (24 :: u8)"
  shows "lo_reg i \<noteq> hi_reg j" "lo_reg i = lo_reg j \<longleftrightarrow> i = j" "hi_reg i = hi_reg j \<longleftrightarrow> i = j"
proof -
  show "lo_reg i \<noteq> hi_reg j"
  proof
    assume "lo_reg i = hi_reg j"
    then have "16 + 2 * unat i = 17 + 2 * unat j" using reg_nat [OF assms(1)] reg_nat [OF assms(2)] by metis
    then show False by presburger
  qed
  show "lo_reg i = lo_reg j \<longleftrightarrow> i = j" "hi_reg i = hi_reg j \<longleftrightarrow> i = j"
    using reg_nat [OF assms(1)] reg_nat [OF assms(2)] by (auto simp: word_unat_eq_iff)
qed

lemma reg_writable:
  assumes "idx < (24 :: u8)"
  shows "writable_bits (lo_reg idx) = 0x0001AFFF" "writable_bits (hi_reg idx) = 0xFF000000"
proof -
  have "\<not> lo_reg idx < 0x10" "\<not> hi_reg idx < 0x10" using reg_nat [OF assms] by (simp_all add: word_less_nat_alt)
  moreover have "lo_reg idx \<noteq> 0" "hi_reg idx \<noteq> 0" using calculation by auto
  moreover have "even (unat (lo_reg idx))" "odd (unat (hi_reg idx))" using reg_nat [OF assms] by simp_all
  ultimately show "writable_bits (lo_reg idx) = 0x0001AFFF" "writable_bits (hi_reg idx) = 0xFF000000"
    by (simp_all add: writable_bits_def)
qed

definition redirection :: "io_apic_registers \<Rightarrow> u8 \<Rightarrow> u64" where
  "redirection r idx = join (dev_regs (ir_device r) (lo_reg idx)) (dev_regs (ir_device r) (hi_reg idx))"

definition ENTRY_BITS :: u64 where
  "ENTRY_BITS = 0xFF0000000001AFFF"

lemma ENTRY_BITS_join: "ENTRY_BITS = join 0x0001AFFF 0xFF000000"
  by (simp add: ENTRY_BITS_def join_def)

lemma read_ioredtbl_eq:
  assumes "regs_ok r" and "idx < 24"
  shows "\<exists>r'. read_ioredtbl idx r = Inr (r', redirection r idx) \<and> regs_ok r' \<and> redirection r' = redirection r"
proof -
  let ?r1 = "r\<lparr>ir_device := dev_write_select (ucast (lo_reg idx)) (ir_device r)\<rparr>"
  let ?r2 = "?r1\<lparr>ir_device := dev_write_select (ucast (hi_reg idx)) (ir_device ?r1)\<rparr>"
  have "read_reg (lo_reg idx) r = Inr (?r1, dev_regs (ir_device r) (lo_reg idx))" using read_reg_eq [OF assms(1)] .
  moreover have "read_reg (hi_reg idx) ?r1 = Inr (?r2, dev_regs (ir_device r) (hi_reg idx))"
    using read_reg_eq [of ?r1 "hi_reg idx"] assms(1) by (simp add: dev_write_select_def)
  ultimately have "read_ioredtbl idx r = Inr (?r2, redirection r idx)"
    using assms(2) by (simp add: read_ioredtbl_def redirection_def join_def lo_reg_def hi_reg_def)
  moreover have "redirection ?r2 = redirection r" by (simp add: redirection_def dev_write_select_def fun_eq_iff)
  ultimately show ?thesis using assms(1) by (intro exI [of _ ?r2]) simp
qed

lemma write_ioredtbl_eq:
  assumes "regs_ok r" and idx: "idx < 24"
  shows "\<exists>r'. write_ioredtbl idx v r = Inr (r', ()) \<and> regs_ok r'
     \<and> redirection r' idx = (v AND ENTRY_BITS) OR (redirection r idx AND NOT ENTRY_BITS)
     \<and> (\<forall>j < 24. j \<noteq> idx \<longrightarrow> redirection r' j = redirection r j)"
proof -
  obtain r1 where r1: "write_reg (lo_reg idx) (ucast v) r = Inr (r1, ())" "regs_ok r1"
      "dev_regs (ir_device r1) = written (lo_reg idx) (ucast v) (dev_regs (ir_device r))"
    using write_reg_eq [OF assms(1)] by blast
  obtain r2 where r2: "write_reg (hi_reg idx) (ucast (drop_bit 32 v)) r1 = Inr (r2, ())" "regs_ok r2"
      "dev_regs (ir_device r2) = written (hi_reg idx) (ucast (drop_bit 32 v)) (dev_regs (ir_device r1))"
    using write_reg_eq [OF r1(2)] by blast
  have ne: "lo_reg idx \<noteq> hi_reg idx" using reg_distinct(1) [OF idx idx] .
  have "write_ioredtbl idx v r = Inr (r2, ())"
    using idx r1(1) r2(1) by (simp add: write_ioredtbl_def lo_reg_def hi_reg_def)
  moreover have "redirection r2 idx = (v AND ENTRY_BITS) OR (redirection r idx AND NOT ENTRY_BITS)"
  proof -
    have "redirection r2 idx =
        join ((ucast v AND 0x0001AFFF) OR (dev_regs (ir_device r) (lo_reg idx) AND NOT 0x0001AFFF))
             ((ucast (drop_bit 32 v) AND 0xFF000000) OR (dev_regs (ir_device r) (hi_reg idx) AND NOT 0xFF000000))"
      unfolding redirection_def r2(3) r1(3) written_def using ne reg_writable [OF idx] by simp
    then show ?thesis unfolding join_ops join_halves ENTRY_BITS_join redirection_def .
  qed
  moreover have "redirection r2 j = redirection r j" if "j < 24" "j \<noteq> idx" for j
    unfolding redirection_def r2(3) r1(3) written_def
    using that reg_distinct [OF that(1) idx] reg_distinct(1) [OF idx that(1)] by auto
  ultimately show ?thesis using r2(2) by blast
qed


section \<open>Entries for legacy interrupts\<close>

lemma as_raw_ok: "0x20 \<le> mi_vector m \<Longrightarrow> mi_vector m \<le> 0xFE \<Longrightarrow> \<exists>w. as_raw m = Inr w"
  by (simp add: as_raw_def)

lemma delivery_bits: "bit (delivery_mode_bits e) n \<Longrightarrow> n < 3"
proof -
  have "take_bit 3 (delivery_mode_bits e) = delivery_mode_bits e" by (cases e) (simp_all add: delivery_mode_bits_def)
  then show "bit (delivery_mode_bits e) n \<Longrightarrow> n < 3" by (metis bit_take_bit_iff)
qed

lemma mode_bits:
  "bit (trigger_mode_bits t) n \<longleftrightarrow> n = 0 \<and> t = Level" "bit (polarity_bits p) n \<longleftrightarrow> n = 0 \<and> p = ActiveLow"
  "bit (destination_mode_bits d) n \<longleftrightarrow> n = 0 \<and> d = Logical"
  by (cases t; simp add: trigger_mode_bits_def bit_simps)
    ((cases p; simp add: polarity_bits_def bit_simps), (cases d; simp add: destination_mode_bits_def bit_simps))

lemma bit_entry_bits: "bit ENTRY_BITS n \<longleftrightarrow> n < 12 \<or> n = 13 \<or> n = 15 \<or> n = 16 \<or> 56 \<le> n \<and> n < 64"
proof -
  have e: "ENTRY_BITS = mask 12 OR push_bit 13 1 OR push_bit 15 1 OR push_bit 16 1 OR push_bit 56 (mask 8)"
    by (simp add: ENTRY_BITS_def mask_eq_exp_minus_1)
  show ?thesis unfolding e bit_or_iff bit_push_bit_iff bit_mask_iff bit_1_iff by auto
qed

lemma bit_as_raw:
  assumes "as_raw m = Inr w"
  shows "bit w n \<longleftrightarrow> n < 8 \<and> bit (mi_vector m) n \<or> 8 \<le> n \<and> bit (delivery_mode_bits (mi_delivery_mode m)) (n - 8)
     \<or> n = 11 \<and> mi_dest_mode m = Logical \<or> n = 13 \<and> mi_polarity m = ActiveLow \<or> n = 15 \<and> mi_trigger_mode m = Level
     \<or> n = 16 \<and> mi_mask m \<or> 56 \<le> n \<and> n < 64 \<and> bit (mi_dest m) (n - 56)"
proof -
  have w: "w = push_bit 56 (ucast (mi_dest m)) OR push_bit 16 (of_bool (mi_mask m))
          OR push_bit 15 (trigger_mode_bits (mi_trigger_mode m)) OR push_bit 13 (polarity_bits (mi_polarity m))
          OR push_bit 11 (destination_mode_bits (mi_dest_mode m)) OR push_bit 8 (delivery_mode_bits (mi_delivery_mode m))
          OR ucast (mi_vector m)"
    using assms by (auto simp: as_raw_def bindR_eq_Inr)
  have v: "bit (ucast (mi_vector m) :: u64) n \<longleftrightarrow> n < 8 \<and> bit (mi_vector m) n"
    and d: "bit (push_bit 56 (ucast (mi_dest m)) :: u64) n \<longleftrightarrow> 56 \<le> n \<and> n < 64 \<and> bit (mi_dest m) (n - 56)"
    by (auto simp: bit_simps dest: bit_imp_le_length)
  have e: "bit (push_bit 8 (delivery_mode_bits (mi_delivery_mode m))) n \<longleftrightarrow> 8 \<le> n \<and> bit (delivery_mode_bits (mi_delivery_mode m)) (n - 8)"
    using delivery_bits [of "mi_delivery_mode m" "n - 8"] by (auto simp: bit_simps)
  have f: "bit (push_bit 16 (of_bool (mi_mask m)) :: u64) n \<longleftrightarrow> n = 16 \<and> mi_mask m"
    "bit (push_bit 15 (trigger_mode_bits (mi_trigger_mode m))) n \<longleftrightarrow> n = 15 \<and> mi_trigger_mode m = Level"
    "bit (push_bit 13 (polarity_bits (mi_polarity m))) n \<longleftrightarrow> n = 13 \<and> mi_polarity m = ActiveLow"
    "bit (push_bit 11 (destination_mode_bits (mi_dest_mode m))) n \<longleftrightarrow> n = 11 \<and> mi_dest_mode m = Logical"
    by (auto simp: bit_push_bit_iff mode_bits bit_of_bool_iff)
  show ?thesis unfolding w bit_or_iff v d e f by (simp only: disj_ac)
qed


lemma as_raw_writable:
  assumes "as_raw m = Inr w"
  shows "w AND ENTRY_BITS = w"
proof (rule bit_eqI)
  fix n
  have "bit ENTRY_BITS n" if "bit w n"
    using that delivery_bits [of "mi_delivery_mode m" "n - 8"] unfolding bit_as_raw [OF assms] bit_entry_bits
    by (elim disjE conjE) (simp_all, linarith)
  then show "bit (w AND ENTRY_BITS) n = bit w n" by (auto simp: bit_and_iff)
qed

lemma legacy_vector:
  assumes "irq < 16"
  shows "\<exists>w. as_raw (legacy_map_info dest irq trig pol) = Inr w"
proof -
  have "unat (of_nat (32 + irq) :: u8) = 32 + irq" using assms by (simp add: unat_of_nat del: of_nat_add)
  then have "0x20 \<le> (of_nat (32 + irq) :: u8)" "(of_nat (32 + irq) :: u8) \<le> 0xFE"
    using assms by (simp_all add: word_le_nat_alt del: of_nat_add)
  then show ?thesis by (intro as_raw_ok) (simp_all add: legacy_map_info_def del: of_nat_add)
qed

text \<open>
  An I/O APIC as the driver finds it: usable registers, and at most the 24 entries that the register
  access functions accept.
\<close>

definition apic_ok :: "io_apic \<Rightarrow> bool" where
  "apic_ok a \<longleftrightarrow> regs_ok (apic_registers a) \<and> apic_count a \<le> 24 \<and> apic_gsi_base a + apic_count a < 2 ^ 32"

definition covers :: "io_apic \<Rightarrow> nat \<Rightarrow> bool" where
  "covers a gsi \<longleftrightarrow> apic_gsi_base a \<le> gsi \<and> gsi < apic_gsi_base a + apic_count a"

lemma find_ioapic_spec:
  "\<forall>a \<in> set as. apic_ok a \<Longrightarrow>
   \<exists>x. find_ioapic as gsi = Inr x \<and> (case x of
       None \<Rightarrow> \<forall>a \<in> set as. \<not> covers a gsi
     | Some i \<Rightarrow> i < length as \<and> covers (as ! i) gsi)"
proof (induction as)
  case (Cons a as)
  then obtain x where x: "find_ioapic as gsi = Inr x" "case x of None \<Rightarrow> \<forall>a \<in> set as. \<not> covers a gsi
      | Some i \<Rightarrow> i < length as \<and> covers (as ! i) gsi" by auto
  have "u32_add (apic_gsi_base a) (apic_count a) = Inr (apic_gsi_base a + apic_count a)"
    using Cons.prems by (simp add: apic_ok_def u32_add_def)
  then have "find_ioapic (a # as) gsi = Inr (if covers a gsi then Some 0 else map_option Suc x)"
    using x(1) by (auto simp: covers_def)
  then show ?case using x(2) by (cases x) (auto split: if_splits)
qed simp

lemma find_ioapic_cong:
  "map (\<lambda>a. (apic_gsi_base a, apic_count a)) as = map (\<lambda>a. (apic_gsi_base a, apic_count a)) as' \<Longrightarrow>
   find_ioapic as gsi = find_ioapic as' gsi"
proof (induction as arbitrary: as')
  case (Cons a as)
  then obtain b bs where "as' = b # bs" by (cases as') auto
  then show ?case using Cons by (auto intro: bindR_cong)
qed simp

definition shape :: "io_apic list \<Rightarrow> (nat \<times> nat) list" where
  "shape as = map (\<lambda>a. (apic_gsi_base a, apic_count a)) as"

text \<open>The I/O APIC and the entry that a legacy interrupt is routed to.\<close>

definition target :: "override list \<Rightarrow> io_apic list \<Rightarrow> nat \<Rightarrow> (nat \<times> nat) option" where
  "target ovs as irq = (case legacy_route ovs irq of
       None \<Rightarrow> None
     | Some (gsi, _) \<Rightarrow> (case find_ioapic as gsi of
          Inr (Some i) \<Rightarrow> Some (i, gsi - apic_gsi_base (as ! i)) | _ \<Rightarrow> None))"

definition entry_at :: "io_apic list \<Rightarrow> nat \<times> nat \<Rightarrow> u64" where
  "entry_at as t = redirection (apic_registers (as ! fst t)) (of_nat (snd t))"

lemma target_cong: "shape as = shape as' \<Longrightarrow> target ovs as irq = target ovs as' irq"
proof -
  assume s: "shape as = shape as'"
  have b: "apic_gsi_base (as ! i) = apic_gsi_base (as' ! i)" if "i < length as" for i
  proof -
    have "length as = length as'" using map_eq_imp_length_eq s unfolding shape_def by blast
    then show ?thesis using that arg_cong [OF s, of "\<lambda>xs. fst (xs ! i)"] by (simp add: shape_def)
  qed
  have len: "find_ioapic as gsi = Inr (Some i) \<Longrightarrow> i < length as" for gsi i
    by (induction as arbitrary: i) (auto simp: bindR_eq_Inr split: if_splits)
  show ?thesis
    using find_ioapic_cong [OF s [unfolded shape_def]] b len
    by (auto simp: target_def split: option.splits sum.splits prod.splits)
qed


section \<open>The legacy interrupts\<close>

definition writes_entry :: "nat \<times> nat \<Rightarrow> u64 \<Rightarrow> io_apic list \<Rightarrow> io_apic list \<Rightarrow> bool" where
  "writes_entry t w as as' \<longleftrightarrow> (\<forall>a \<in> set as'. apic_ok a) \<and> shape as' = shape as \<and> entry_at as' t AND ENTRY_BITS = w
     \<and> (\<forall>u. fst u < length as \<longrightarrow> snd u < 24 \<longrightarrow> u \<noteq> t \<longrightarrow> entry_at as' u = entry_at as u)"

lemma small_index: "n < 24 \<Longrightarrow> (of_nat n :: u8) < 24" "m < 24 \<Longrightarrow> n < 24 \<Longrightarrow> (of_nat m :: u8) = of_nat n \<longleftrightarrow> m = n"
  by (simp_all add: word_less_nat_alt unat_of_nat word_unat_eq_iff)

lemma apic_map_spec:
  assumes a: "apic_ok a" and n: "n < 24" and w: "as_raw info = Inr w"
  shows "\<exists>a'. apic_map (of_nat n) info a = Inr a' \<and> apic_ok a' \<and> apic_gsi_base a' = apic_gsi_base a \<and> apic_count a' = apic_count a
     \<and> redirection (apic_registers a') (of_nat n) AND ENTRY_BITS = w
     \<and> (\<forall>m < 24. m \<noteq> n \<longrightarrow> redirection (apic_registers a') (of_nat m) = redirection (apic_registers a) (of_nat m))"
proof -
  obtain r where r: "write_ioredtbl (of_nat n) w (apic_registers a) = Inr (r, ())" "regs_ok r"
      "redirection r (of_nat n) = (w AND ENTRY_BITS) OR (redirection (apic_registers a) (of_nat n) AND NOT ENTRY_BITS)"
      "\<forall>j < 24. j \<noteq> of_nat n \<longrightarrow> redirection r j = redirection (apic_registers a) j"
    using write_ioredtbl_eq [OF _ small_index(1) [OF n], of "apic_registers a" w] a by (auto simp: apic_ok_def)
  have "redirection r (of_nat n) AND ENTRY_BITS = w AND ENTRY_BITS"
    unfolding r(3) by (rule bit_eqI) (auto simp: bit_simps)
  moreover have "redirection r (of_nat m) = redirection (apic_registers a) (of_nat m)" if "m < 24" "m \<noteq> n" for m
    using r(4) small_index that n by auto
  moreover have "apic_map (of_nat n) info a = Inr (a\<lparr>apic_registers := r\<rparr>)" using w r(1) by (simp add: apic_map_def)
  ultimately show ?thesis using a r(2) as_raw_writable [OF w] by (intro exI [of _ "a\<lparr>apic_registers := r\<rparr>"]) (simp add: apic_ok_def)
qed

lemma writes_entryI:
  assumes ok: "\<forall>a \<in> set as. apic_ok a" "apic_ok a'" and i: "i < length as"
    and same: "apic_gsi_base a' = apic_gsi_base (as ! i)" "apic_count a' = apic_count (as ! i)"
    and w: "redirection (apic_registers a') (of_nat n) AND ENTRY_BITS = w"
    and frame: "\<forall>m < 24. m \<noteq> n \<longrightarrow> redirection (apic_registers a') (of_nat m) = redirection (apic_registers (as ! i)) (of_nat m)"
  shows "writes_entry (i, n) w as (as[i := a'])"
  unfolding writes_entry_def
proof (intro conjI allI impI)
  show "\<forall>a \<in> set (as[i := a']). apic_ok a" using ok set_update_subset_insert [of as i a'] by blast
  show "shape (as[i := a']) = shape as" using i same by (auto simp: shape_def map_update list_update_same_conv)
  show "entry_at (as[i := a']) (i, n) AND ENTRY_BITS = w" using i w by (simp add: entry_at_def)
  show "entry_at (as[i := a']) u = entry_at as u" if "fst u < length as" "snd u < 24" "u \<noteq> (i, n)" for u
    using that i frame by (cases u; cases "fst u = i") (auto simp: entry_at_def)
qed

lemma map_legacy_irq_spec:
  assumes ok: "\<forall>a \<in> set as. apic_ok a" and irq: "irq < 16"
  shows "\<exists>as'. map_legacy_irq ovs dest irq as = Inr as' \<and> (case target ovs as irq of
       None \<Rightarrow> as' = as
     | Some t \<Rightarrow> fst t < length as \<and> snd t < 24 \<and> (\<exists>gsi trig pol w. legacy_route ovs irq = Some (gsi, trig, pol)
          \<and> as_raw (legacy_map_info dest irq trig pol) = Inr w \<and> writes_entry t w as as'))"
proof (cases "legacy_route ovs irq")
  case None
  then show ?thesis by (simp add: map_legacy_irq_def target_def)
next
  case (Some r)
  obtain gsi trig pol where r: "legacy_route ovs irq = Some (gsi, trig, pol)" using Some by (cases r) auto
  obtain x where x: "find_ioapic as gsi = Inr x" "case x of None \<Rightarrow> \<forall>a \<in> set as. \<not> covers a gsi
      | Some i \<Rightarrow> i < length as \<and> covers (as ! i) gsi"
    using find_ioapic_spec [OF ok] by blast
  show ?thesis
  proof (cases x)
    case None
    then show ?thesis using r x(1) by (simp add: map_legacy_irq_def target_def)
  next
    case (Some i)
    let ?n = "gsi - apic_gsi_base (as ! i)"
    have i: "i < length as" "apic_gsi_base (as ! i) \<le> gsi" "?n < apic_count (as ! i)" using x(2) Some by (auto simp: covers_def)
    then have a: "apic_ok (as ! i)" using ok by simp
    then have n: "?n < 24" using i(3) by (simp add: apic_ok_def)
    obtain w where w: "as_raw (legacy_map_info dest irq trig pol) = Inr w" using legacy_vector [OF irq] by blast
    obtain a' where a': "apic_map (of_nat ?n) (legacy_map_info dest irq trig pol) (as ! i) = Inr a'"
        "writes_entry (i, ?n) w as (as[i := a'])"
      using apic_map_spec [OF a n w] writes_entryI [OF ok _ i(1), of _ ?n w] by blast
    have "map_legacy_irq ovs dest irq as = Inr (as[i := a'])"
      using r x(1) Some i(2) a'(1) by (simp add: map_legacy_irq_def)
    moreover have "target ovs as irq = Some (i, ?n)" using r x(1) Some by (simp add: target_def)
    ultimately show ?thesis using r w n i(1) a'(2) by auto
  qed
qed

definition routed :: "override list \<Rightarrow> u8 \<Rightarrow> nat \<Rightarrow> nat \<times> nat \<Rightarrow> io_apic list \<Rightarrow> bool" where
  "routed ovs dest irq t as \<longleftrightarrow> (\<exists>gsi trig pol. legacy_route ovs irq = Some (gsi, trig, pol)
     \<and> as_raw (legacy_map_info dest irq trig pol) = Inr (entry_at as t AND ENTRY_BITS))"

lemma map_legacy_irqs_spec:
  assumes "\<forall>a \<in> set as. apic_ok a" and "\<forall>irq \<in> set irqs. irq < 16"
  shows "\<exists>as'. map_legacy_irqs ovs dest irqs as = Inr as' \<and> (\<forall>a \<in> set as'. apic_ok a) \<and> shape as' = shape as
     \<and> (\<forall>t. fst t < length as \<longrightarrow> snd t < 24 \<longrightarrow> (\<forall>irq \<in> set irqs. target ovs as irq \<noteq> Some t) \<longrightarrow> entry_at as' t = entry_at as t)
     \<and> (\<forall>irq \<in> set irqs. \<forall>t. target ovs as irq = Some t \<longrightarrow> (\<forall>k \<in> set irqs. k \<noteq> irq \<longrightarrow> target ovs as k \<noteq> Some t)
          \<longrightarrow> routed ovs dest irq t as')"
  using assms
proof (induction irqs arbitrary: as)
  case Nil
  then show ?case by simp
next
  case (Cons i irqs)
  obtain as1 where m: "map_legacy_irq ovs dest i as = Inr as1" "case target ovs as i of None \<Rightarrow> as1 = as
      | Some t \<Rightarrow> fst t < length as \<and> snd t < 24 \<and> (\<exists>gsi trig pol w. legacy_route ovs i = Some (gsi, trig, pol)
          \<and> as_raw (legacy_map_info dest i trig pol) = Inr w \<and> writes_entry t w as as1)"
    using map_legacy_irq_spec [OF Cons.prems(1), of i ovs dest] Cons.prems(2) by force
  have ok1: "\<forall>a \<in> set as1. apic_ok a" and sh: "shape as1 = shape as"
    using m(2) Cons.prems(1) by (auto simp: writes_entry_def split: option.splits)
  have len: "length as1 = length as" using arg_cong [OF sh, of length] by (simp add: shape_def)
  obtain as2 where a2: "map_legacy_irqs ovs dest irqs as1 = Inr as2" "\<forall>a \<in> set as2. apic_ok a" "shape as2 = shape as1"
      "\<forall>t. fst t < length as \<longrightarrow> snd t < 24 \<longrightarrow> (\<forall>irq \<in> set irqs. target ovs as irq \<noteq> Some t) \<longrightarrow> entry_at as2 t = entry_at as1 t"
      "\<forall>irq \<in> set irqs. \<forall>t. target ovs as irq = Some t \<longrightarrow> (\<forall>k \<in> set irqs. k \<noteq> irq \<longrightarrow> target ovs as k \<noteq> Some t)
          \<longrightarrow> routed ovs dest irq t as2"
    using Cons.IH [OF ok1] Cons.prems(2) unfolding target_cong [OF sh] len by auto
  have e: "map_legacy_irqs ovs dest (i # irqs) as = Inr as2" using m(1) a2(1) by simp
  have f: "entry_at as1 t = entry_at as t" if "fst t < length as" "snd t < 24" "target ovs as i \<noteq> Some t" for t
    using m(2) that by (cases t) (auto simp: writes_entry_def split: option.splits)
  have "routed ovs dest i t as2" if t: "target ovs as i = Some t" and k: "\<forall>k \<in> set irqs. k \<noteq> i \<longrightarrow> target ovs as k \<noteq> Some t" for t
  proof (cases "i \<in> set irqs")
    case True
    then show ?thesis using a2(5) t k by blast
  next
    case False
    obtain gsi trig pol w where w: "legacy_route ovs i = Some (gsi, trig, pol)" "as_raw (legacy_map_info dest i trig pol) = Inr w"
        "writes_entry t w as as1" "fst t < length as" "snd t < 24" using m(2) t by auto
    have "entry_at as2 t = entry_at as1 t" using a2(4) w(4,5) k False by (metis (no_types))
    then show ?thesis using w(1-3) by (auto simp: routed_def writes_entry_def)
  qed
  then show ?case using e a2 sh f by (intro exI [of _ as2]) auto
qed

section \<open>Properties\<close>

lemma raw_fields:
  assumes "as_raw m = Inr w"
  shows "ucast w = mi_vector m" and "ucast (drop_bit 56 w) = mi_dest m" and "bit w 16 \<longleftrightarrow> mi_mask m"
    and "bit w 15 \<longleftrightarrow> mi_trigger_mode m = Level" and "bit w 13 \<longleftrightarrow> mi_polarity m = ActiveLow"
proof -
  note b = bit_as_raw [OF assms]
  have e: "\<not> bit (delivery_mode_bits (mi_delivery_mode m)) k" if "3 \<le> k" for k using delivery_bits [of _ k] that by fastforce
  show "ucast w = mi_vector m" by (rule bit_eqI) (auto simp: bit_simps b)
  show "ucast (drop_bit 56 w) = mi_dest m" by (rule bit_eqI) (auto simp: bit_simps b e dest: bit_imp_le_length)
  show "bit w 16 \<longleftrightarrow> mi_mask m" "bit w 15 \<longleftrightarrow> mi_trigger_mode m = Level" "bit w 13 \<longleftrightarrow> mi_polarity m = ActiveLow"
    by (simp_all add: b e)
qed


text \<open>An I/O APIC with 23 usable entries, and the usual override of the timer.\<close>

definition example_apic :: io_apic where
  "example_apic =
     \<lparr>apic_registers = \<lparr>ir_mapping = \<lparr>reg_info = \<lparr>ri_start = 0x1000, ri_limit = 0x2000\<rparr>, reg_offset = 0, reg_length = 8\<rparr>,
        ir_device = \<lparr>dev_select = 0, dev_regs = \<lambda>_. 0\<rparr>\<rparr>,
      apic_count = 23, apic_gsi_base = 0\<rparr>"

definition example_overrides :: "override list" where
  "example_overrides =
     [\<lparr>isa_source = 0, global_system_interrupt = 2, ov_polarity = PolaritySameAsBus, ov_trigger_mode = TriggerSameAsBus\<rparr>,
      \<lparr>isa_source = 9, global_system_interrupt = 9, ov_polarity = PolarityActiveLow, ov_trigger_mode = TriggerLevel\<rparr>]"

lemma example_apic_ok: "apic_ok example_apic"
  by (simp add: apic_ok_def regs_ok_def region_start_def uadd_def example_apic_def usize_limit_def)

lemma below_16: "(\<forall>i < (16 :: nat). P i) \<longleftrightarrow> P 0 \<and> P 1 \<and> P 2 \<and> P 3 \<and> P 4 \<and> P 5 \<and> P 6 \<and> P 7 \<and> P 8 \<and> P 9 \<and> P 10 \<and> P 11
    \<and> P 12 \<and> P 13 \<and> P 14 \<and> P 15"
  by (simp add: numeral_eq_Suc All_less_Suc conj_ac)

lemma example_target:
  "i < 16 \<Longrightarrow> target example_overrides [example_apic] i = (if i = 0 then Some (0, 2) else if i = 2 then None else Some (0, i))"
proof -
  have "\<forall>i < 16. target example_overrides [example_apic] i = (if i = 0 then Some (0, 2) else if i = 2 then None else Some (0, i))"
    unfolding below_16
    by (simp add: target_def legacy_route_def get_src_override_def example_overrides_def example_apic_def u32_add_def)
  then show "i < 16 \<Longrightarrow> target example_overrides [example_apic] i = (if i = 0 then Some (0, 2) else if i = 2 then None else Some (0, i))"
    by blast
qed


lemma bit_with_mask:
  "bit ((x AND NOT (push_bit 16 1)) OR push_bit 16 (of_bool b) :: u64) k = (if k = 16 then b else bit x k)"
  unfolding bit_or_iff bit_and_iff bit_not_iff bit_push_bit_iff bit_1_iff bit_of_bool_iff
  by (auto dest: bit_imp_le_length)

text \<open>
  Masking or unmasking an interrupt changes bit 16 of its redirection entry and nothing else of
  the I/O APIC's table, and never panics for an interrupt the I/O APIC covers.
\<close>

theorem set_mask_changes_mask_bit:
  assumes "apic_ok a" and "covers a gsi"
  shows "\<exists>a'. set_mask gsi masked a = Inr a' \<and> apic_ok a'
     \<and> (\<forall>j < 24. \<forall>k. bit (redirection (apic_registers a') j) k =
          (if j = of_nat (gsi - apic_gsi_base a) \<and> k = 16 then masked else bit (redirection (apic_registers a) j) k))"
proof -
  let ?idx = "of_nat (gsi - apic_gsi_base a) :: u8" and ?m = "\<lambda>x :: u64. (x AND NOT (push_bit 16 1)) OR push_bit 16 (of_bool masked)"
  have g: "apic_gsi_base a \<le> gsi" and n: "gsi - apic_gsi_base a < 24" using assms by (auto simp: covers_def apic_ok_def)
  note i = small_index(1) [OF n]
  obtain r where r: "read_ioredtbl ?idx (apic_registers a) = Inr (r, redirection (apic_registers a) ?idx)" "regs_ok r"
      "redirection r = redirection (apic_registers a)"
    using read_ioredtbl_eq [OF _ i] assms(1) by (auto simp: apic_ok_def)
  obtain r1 where r1: "write_ioredtbl ?idx (?m (redirection r ?idx)) r = Inr (r1, ())" "regs_ok r1"
      "redirection r1 ?idx = (?m (redirection r ?idx) AND ENTRY_BITS) OR (redirection r ?idx AND NOT ENTRY_BITS)"
      "\<forall>j < 24. j \<noteq> ?idx \<longrightarrow> redirection r1 j = redirection r j"
    using write_ioredtbl_eq [OF r(2) i] by blast
  have "bit ENTRY_BITS 16" by (simp add: ENTRY_BITS_def)
  then have "bit (redirection r1 ?idx) k = (if k = 16 then masked else bit (redirection r ?idx) k)" for k
    unfolding r1(3) bit_or_iff [of "_ AND ENTRY_BITS"] bit_and_iff [of _ ENTRY_BITS] bit_with_mask
    by (auto simp: bit_simps dest: bit_imp_le_length)
  moreover have "set_mask gsi masked a = Inr (a\<lparr>apic_registers := r1\<rparr>)" using g r(1,3) r1(1) by (simp add: set_mask_def)
  ultimately show ?thesis using assms(1) r1(2,4) r(3)
    by (intro exI [of _ "a\<lparr>apic_registers := r1\<rparr>"]) (auto simp: apic_ok_def)
qed

theorem set_mask_changes_mask_bit_witness:
  "\<exists>a'. set_mask 9 True example_apic = Inr a' \<and> bit (redirection (apic_registers a') 9) 16"
proof -
  have "covers example_apic 9" by (simp add: covers_def example_apic_def)
  then obtain a' where "set_mask 9 True example_apic = Inr a'"
      "\<forall>j < 24. \<forall>k. bit (redirection (apic_registers a') j) k =
          (if j = of_nat (9 - apic_gsi_base example_apic) \<and> k = 16 then True else bit (redirection (apic_registers example_apic) j) k)"
    using set_mask_changes_mask_bit [OF example_apic_ok, of 9 True] by blast
  then show ?thesis by (simp add: example_apic_def)
qed

text \<open>
  The version register holds the number of the last entry, and \<^verbatim>\<open>IoApic::new\<close> keeps it as the number
  of entries, so an interrupt of the last entry finds no I/O APIC.
\<close>

lemma io_apic_registers_new_device:
  "io_apic_registers_new rl address dev ks = Inr (ks1, Some r) \<Longrightarrow> ir_device r = dev"
  by (auto simp: io_apic_registers_new_def bindR_eq_Inr split: sum.splits prod.splits) (metis io_apic_registers.select_convs(2) sum.exhaust)

lemma io_apic_new_count:
  assumes "io_apic_new rl info dev ks = Inr (ks1, Some a)"
  shows "apic_gsi_base a = acpi_gsi_base info \<and> apic_count a = unat (ucast (drop_bit 16 (dev_regs dev 1 AND 0x00FF0000)) :: u8)"
  using assms
  by (auto simp: io_apic_new_def ioapic_id_def read_ioapicid_def max_redirection_table_entries_def
      read_ioapicver_def read_reg_def write_ioregsel_def read_iowin_def dev_write_select_def dev_read_window_def
      bindR_eq_Inr split: option.splits prod.splits dest!: io_apic_registers_new_device)

lemma last_entry_not_covered:
  assumes "io_apic_new rl info dev ks = Inr (ks1, Some a)"
    and "unat (ucast (drop_bit 16 (dev_regs dev 1 AND 0x00FF0000)) :: u8) = last_entry"
  shows "\<not> covers a (acpi_gsi_base info + last_entry)"
  using io_apic_new_count [OF assms(1)] assms(2) by (simp add: covers_def)

end
