(* ===== verification/Descriptor_Tables.thy ===== *)
theory Descriptor_Tables
  imports Region_Manager
begin

unbundle bit_operations_syntax

text \<open>
  The descriptor tables: \<^verbatim>\<open>src/src/gdt.rs\<close> and \<^verbatim>\<open>src/src/idt.rs\<close>.

  \<^verbatim>\<open>GDT\<close>, \<^verbatim>\<open>GDTR\<close>, \<^verbatim>\<open>TSS\<close>, \<^verbatim>\<open>IDT\<close>, \<^verbatim>\<open>IDTR\<close> and \<^verbatim>\<open>CHECK\<close> are thread locals: they belong to the block that
  the FS base of the CPU designates, and an access goes to whichever block that is. Pointers to
  tables are symbolic. The address of the \<^verbatim>\<open>TSS\<close> of a block, the size of the structure and the
  addresses of the handlers are fixed outside the sources and are parameters.
\<close>

section \<open>Segment descriptors\<close>

record gdt_entry =
  g_limitl :: u16
  g_offsetl :: u16
  g_offsetm :: u8
  g_access :: u8
  g_flags_limith :: u8
  g_offseth :: u8

definition gdt_entry_new :: "u32 \<Rightarrow> u32 \<Rightarrow> u8 \<Rightarrow> u8 \<Rightarrow> gdt_entry" where
  "gdt_entry_new offset limit access flags =
     \<lparr>g_limitl = ucast limit, g_offsetl = ucast offset, g_offsetm = ucast (drop_bit 16 offset), g_access = access,
      g_flags_limith = (flags AND 0xF0) OR (ucast (drop_bit 16 limit) AND 0x0F), g_offseth = ucast (drop_bit 24 offset)\<rparr>"

definition gdt_set_offset :: "u32 \<Rightarrow> gdt_entry \<Rightarrow> gdt_entry" where
  "gdt_set_offset offset e =
     e\<lparr>g_offsetl := ucast offset, g_offsetm := ucast (drop_bit 16 offset), g_offseth := ucast (drop_bit 24 offset)\<rparr>"

definition gdt_set_limit :: "u32 \<Rightarrow> gdt_entry \<Rightarrow> gdt_entry" where
  "gdt_set_limit limit e =
     e\<lparr>g_limitl := ucast limit, g_flags_limith := (g_flags_limith e AND 0xF0) OR (ucast (drop_bit 16 limit) AND 0x0F)\<rparr>"

definition GDT_NULL :: nat where "GDT_NULL = 0"
definition GDT_KERNEL_CODE :: nat where "GDT_KERNEL_CODE = 1"
definition GDT_KERNEL_DATA :: nat where "GDT_KERNEL_DATA = 2"
definition GDT_KERNEL_TLS_UNUSED :: nat where "GDT_KERNEL_TLS_UNUSED = 3"
definition GDT_TSS :: nat where "GDT_TSS = 7"
definition GDT_TSS_HIGH :: nat where "GDT_TSS_HIGH = 8"

definition GDT_A_PRESENT :: u8 where "GDT_A_PRESENT = push_bit 7 1"
definition GDT_A_RING_0 :: u8 where "GDT_A_RING_0 = push_bit 5 0"
definition GDT_A_RING_3 :: u8 where "GDT_A_RING_3 = push_bit 5 3"
definition GDT_A_SYSTEM :: u8 where "GDT_A_SYSTEM = push_bit 4 1"
definition GDT_A_EXECUTABLE :: u8 where "GDT_A_EXECUTABLE = push_bit 3 1"
definition GDT_A_PRIVILEGE :: u8 where "GDT_A_PRIVILEGE = push_bit 1 1"
definition GDT_A_TSS_AVAIL :: u8 where "GDT_A_TSS_AVAIL = 0x9"
definition GDT_F_LONG_MODE :: u8 where "GDT_F_LONG_MODE = push_bit 5 1"

definition tss_entries :: "u64 \<Rightarrow> u32 \<Rightarrow> gdt_entry \<times> gdt_entry" where
  "tss_entries tss_ptr tss_size =
     (let tss_ptr_0_32 = ucast tss_ptr :: u32;
          tss_ptr_32_48 = ucast (drop_bit 32 tss_ptr) :: u16;
          tss_ptr_48_64 = ucast (drop_bit 48 tss_ptr) :: u16;
          low = gdt_entry_new tss_ptr_0_32 tss_size (GDT_A_PRESENT OR GDT_A_RING_3 OR GDT_A_TSS_AVAIL) 0;
          high = gdt_entry_new (ucast tss_ptr_48_64) (ucast tss_ptr_32_48) 0 0
      in (low, high))"

definition kernel_code_entry :: gdt_entry where
  "kernel_code_entry =
     gdt_entry_new 0 0 (GDT_A_PRESENT OR GDT_A_RING_0 OR GDT_A_SYSTEM OR GDT_A_EXECUTABLE OR GDT_A_PRIVILEGE) GDT_F_LONG_MODE"

definition kernel_data_entry :: gdt_entry where
  "kernel_data_entry = gdt_entry_new 0 0 (GDT_A_PRESENT OR GDT_A_RING_0 OR GDT_A_SYSTEM OR GDT_A_PRIVILEGE) GDT_F_LONG_MODE"

definition user_code_entry :: gdt_entry where
  "user_code_entry =
     gdt_entry_new 0 0 (GDT_A_PRESENT OR GDT_A_RING_3 OR GDT_A_SYSTEM OR GDT_A_EXECUTABLE OR GDT_A_PRIVILEGE) GDT_F_LONG_MODE"

definition user_data_entry :: gdt_entry where
  "user_data_entry = gdt_entry_new 0 0 (GDT_A_PRESENT OR GDT_A_RING_3 OR GDT_A_SYSTEM OR GDT_A_PRIVILEGE) GDT_F_LONG_MODE"

definition INIT_GDT :: "gdt_entry list" where
  "INIT_GDT = [gdt_entry_new 0 0 0 0, kernel_code_entry, kernel_data_entry, user_data_entry]"

definition GDT :: "gdt_entry list" where
  "GDT =
     [gdt_entry_new 0 0 0 0, kernel_code_entry, kernel_data_entry, kernel_data_entry,
      user_code_entry, user_data_entry, user_data_entry,
      gdt_entry_new 0 0 (GDT_A_PRESENT OR GDT_A_RING_3 OR GDT_A_TSS_AVAIL) 0, gdt_entry_new 0 0 0 0]"

record task_state_segment =
  tss_reserved :: u32
  tss_rsp :: "u64 list"
  tss_reserved2 :: u64
  tss_ist :: "u64 list"
  tss_reserved3 :: u64
  tss_reserved4 :: u16
  tss_iomap_base :: u16

definition TSS :: task_state_segment where
  "TSS = \<lparr>tss_reserved = 0, tss_rsp = replicate 3 0, tss_reserved2 = 0, tss_ist = replicate 7 0, tss_reserved3 = 0,
          tss_reserved4 = 0, tss_iomap_base = 0xFFFF\<rparr>"

section \<open>Interrupt gates\<close>

record idt_entry =
  i_offsetl :: u16
  i_selector :: u16
  i_ist :: u8
  i_attribute :: u8
  i_offsetm :: u16
  i_offseth :: u32
  i_zero2 :: u32

definition IDT_PRESENT :: u8 where "IDT_PRESENT = push_bit 7 1"
definition IDT_RING_0 :: u8 where "IDT_RING_0 = push_bit 5 0"
definition IDT_RING_3 :: u8 where "IDT_RING_3 = push_bit 5 3"
definition IDT_INTERRUPT :: u8 where "IDT_INTERRUPT = 0xE"

definition idt_entry_new :: idt_entry where
  "idt_entry_new = \<lparr>i_offsetl = 0, i_selector = 0, i_ist = 0, i_attribute = 0, i_offsetm = 0, i_offseth = 0, i_zero2 = 0\<rparr>"

definition set_flags :: "u8 \<Rightarrow> idt_entry \<Rightarrow> idt_entry" where
  "set_flags flags e = e\<lparr>i_attribute := flags\<rparr>"

definition idt_set_offset :: "u16 \<Rightarrow> u64 \<Rightarrow> idt_entry \<Rightarrow> idt_entry" where
  "idt_set_offset selector base e =
     e\<lparr>i_selector := selector, i_offsetl := ucast base, i_offsetm := ucast (drop_bit 16 base),
       i_offseth := ucast (drop_bit 32 base)\<rparr>"

definition set_func :: "u64 \<Rightarrow> idt_entry \<Rightarrow> idt_entry" where
  "set_func func e = idt_set_offset 8 func (set_flags (IDT_PRESENT OR IDT_RING_0 OR IDT_INTERRUPT) e)"

definition set_ist :: "u8 \<Rightarrow> idt_entry \<Rightarrow> idt_entry res" where
  "set_ist ist e = bindR (guardR (ist < 8) (Assertion ''Invalid IST'')) (\<lambda>_. Inr (e\<lparr>i_ist := ist + 1\<rparr>))"

definition idt_new :: "idt_entry list" where
  "idt_new = replicate 256 idt_entry_new"

datatype handler =
    Divide_by_zero | Debug | Non_maskable | Breakpoint | Overflow | Bound_range | Invalid_opcode | Device_not_available
  | Double_fault | Invalid_tss | Segment_not_present | Stack_segment | Protection | Page_fault | Fpu_fault
  | Alignment_check | Machine_check | Simd | Virtualization | Security
  | Timer | Spurious | Ipi_tlb | Ipi_timer | Ipi_halt

section \<open>The state of a CPU\<close>

text \<open>A segment selector is what \<^verbatim>\<open>SegmentSelector::new\<close> is given: an index and a ring.\<close>

datatype selector = SegmentSelector nat nat

datatype table = NoTable | InitGdt | LocalGdt u64 | LocalIdt u64

record table_pointer =
  tp_limit :: u16
  tp_base :: table

record cpu_locals =
  l_gdtr :: table_pointer
  l_gdt :: "gdt_entry list"
  l_tss :: task_state_segment
  l_idt_check :: bool
  l_idt :: "idt_entry list"
  l_idtr :: table_pointer

record desc_cpu =
  dc_gdtr :: table_pointer
  dc_idtr :: table_pointer
  dc_cs :: selector
  dc_ds :: selector
  dc_es :: selector
  dc_fs :: selector
  dc_gs :: selector
  dc_ss :: selector
  dc_tr :: selector
  dc_fs_base :: u64

record desc_state =
  ds_init_gdtr :: table_pointer
  ds_init_idtr :: table_pointer
  ds_locals :: "u64 \<Rightarrow> cpu_locals"
  ds_cpu :: desc_cpu

record desc_layout =
  dl_tss_addr :: "u64 \<Rightarrow> u64"
  dl_tss_size :: u32

definition NULL_TABLE :: table_pointer where
  "NULL_TABLE = \<lparr>tp_limit = 0, tp_base = NoTable\<rparr>"

text \<open>The initial thread locals, as the image of the kernel holds them.\<close>

definition fresh_locals :: cpu_locals where
  "fresh_locals =
     \<lparr>l_gdtr = NULL_TABLE, l_gdt = GDT, l_tss = TSS, l_idt_check = False, l_idt = idt_new, l_idtr = NULL_TABLE\<rparr>"

definition locals :: "desc_state \<Rightarrow> cpu_locals" where
  "locals s = ds_locals s (dc_fs_base (ds_cpu s))"

definition with_locals :: "(cpu_locals \<Rightarrow> cpu_locals) \<Rightarrow> desc_state \<Rightarrow> desc_state" where
  "with_locals f s = s\<lparr>ds_locals := (ds_locals s)(dc_fs_base (ds_cpu s) := f (locals s))\<rparr>"

definition on_cpu :: "(desc_cpu \<Rightarrow> desc_cpu) \<Rightarrow> desc_state \<Rightarrow> desc_state" where
  "on_cpu f s = s\<lparr>ds_cpu := f (ds_cpu s)\<rparr>"

text \<open>
  What the processor does when it loads a segment register: it reads the descriptor within the
  limit of the table and faults when there is none or it is not present. Loading FS takes the
  base of the descriptor.
\<close>

definition gdt_base :: "gdt_entry \<Rightarrow> u32" where
  "gdt_base e = ucast (g_offsetl e) OR push_bit 16 (ucast (g_offsetm e)) OR push_bit 24 (ucast (g_offseth e))"

definition gdt_limit :: "gdt_entry \<Rightarrow> u32" where
  "gdt_limit e = ucast (g_limitl e) OR push_bit 16 (ucast (g_flags_limith e AND 0x0F))"

definition loaded_gdt :: "desc_state \<Rightarrow> gdt_entry list" where
  "loaded_gdt s = (case tp_base (dc_gdtr (ds_cpu s)) of
       InitGdt \<Rightarrow> INIT_GDT | LocalGdt b \<Rightarrow> l_gdt (ds_locals s b) | _ \<Rightarrow> [])"

definition descriptor :: "selector \<Rightarrow> desc_state \<Rightarrow> gdt_entry option" where
  "descriptor sel s = (case sel of SegmentSelector i ring \<Rightarrow>
     if 8 * i + 7 \<le> unat (tp_limit (dc_gdtr (ds_cpu s))) \<and> i < length (loaded_gdt s) \<and> bit (g_access (loaded_gdt s ! i)) 7
     then Some (loaded_gdt s ! i) else None)"

definition load_segment :: "(gdt_entry \<Rightarrow> desc_cpu \<Rightarrow> desc_cpu) \<Rightarrow> selector \<Rightarrow> desc_state \<Rightarrow> desc_state res" where
  "load_segment f sel s = (case descriptor sel s of
       None \<Rightarrow> Inl (PanicMsg ''general protection fault'')
     | Some e \<Rightarrow> Inr (on_cpu (f e) s))"

definition load_cs :: "selector \<Rightarrow> desc_state \<Rightarrow> desc_state res" where
  "load_cs sel = load_segment (\<lambda>_ c. c\<lparr>dc_cs := sel\<rparr>) sel"

definition load_ds :: "selector \<Rightarrow> desc_state \<Rightarrow> desc_state res" where
  "load_ds sel = load_segment (\<lambda>_ c. c\<lparr>dc_ds := sel\<rparr>) sel"

definition load_es :: "selector \<Rightarrow> desc_state \<Rightarrow> desc_state res" where
  "load_es sel = load_segment (\<lambda>_ c. c\<lparr>dc_es := sel\<rparr>) sel"

definition load_fs :: "selector \<Rightarrow> desc_state \<Rightarrow> desc_state res" where
  "load_fs sel = load_segment (\<lambda>e c. c\<lparr>dc_fs := sel, dc_fs_base := ucast (gdt_base e)\<rparr>) sel"

definition load_gs :: "selector \<Rightarrow> desc_state \<Rightarrow> desc_state res" where
  "load_gs sel = load_segment (\<lambda>_ c. c\<lparr>dc_gs := sel\<rparr>) sel"

definition load_ss :: "selector \<Rightarrow> desc_state \<Rightarrow> desc_state res" where
  "load_ss sel = load_segment (\<lambda>_ c. c\<lparr>dc_ss := sel\<rparr>) sel"

definition load_tr :: "selector \<Rightarrow> desc_state \<Rightarrow> desc_state res" where
  "load_tr sel = load_segment (\<lambda>_ c. c\<lparr>dc_tr := sel\<rparr>) sel"

definition lgdt :: "table_pointer \<Rightarrow> desc_state \<Rightarrow> desc_state" where
  "lgdt p = on_cpu (\<lambda>c. c\<lparr>dc_gdtr := p\<rparr>)"

definition lidt :: "table_pointer \<Rightarrow> desc_state \<Rightarrow> desc_state" where
  "lidt p = on_cpu (\<lambda>c. c\<lparr>dc_idtr := p\<rparr>)"

definition wrmsr_fs_base :: "u64 \<Rightarrow> desc_state \<Rightarrow> desc_state" where
  "wrmsr_fs_base b = on_cpu (\<lambda>c. c\<lparr>dc_fs_base := b\<rparr>)"

section \<open>Initialisation\<close>

text \<open>The six loads that both initialisation functions end with.\<close>

definition load_kernel_segments :: "desc_state \<Rightarrow> desc_state res" where
  "load_kernel_segments s =
     bindR (load_cs (SegmentSelector GDT_KERNEL_CODE 0) s) (\<lambda>s.
     bindR (load_ds (SegmentSelector GDT_KERNEL_DATA 0) s) (\<lambda>s.
     bindR (load_es (SegmentSelector GDT_KERNEL_DATA 0) s) (\<lambda>s.
     bindR (load_fs (SegmentSelector GDT_KERNEL_DATA 0) s) (\<lambda>s.
     bindR (load_gs (SegmentSelector GDT_KERNEL_DATA 0) s) (\<lambda>s.
     load_ss (SegmentSelector GDT_KERNEL_DATA 0) s)))))"

definition gdt_init :: "desc_state \<Rightarrow> desc_state res" where
  "gdt_init s =
     (let s = s\<lparr>ds_init_gdtr := \<lparr>tp_limit = of_nat (length INIT_GDT * 8 - 1), tp_base = InitGdt\<rparr>\<rparr>;
          s = lgdt (ds_init_gdtr s) s
      in load_kernel_segments s)"

definition set_tss_stack :: "kernel_stack \<Rightarrow> desc_state \<Rightarrow> desc_state res" where
  "set_tss_stack stack s =
     bindR (stack_top stack) (\<lambda>rsp.
     Inr (with_locals (\<lambda>l. l\<lparr>l_tss := (l_tss l)\<lparr>tss_rsp := (tss_rsp (l_tss l))[0 := of_nat rsp]\<rparr>\<rparr>) s))"

definition gdt_init_post_paging ::
  "desc_layout \<Rightarrow> u64 \<Rightarrow> kernel_stack \<Rightarrow> kernel_stack \<Rightarrow> desc_state \<Rightarrow> desc_state res" where
  "gdt_init_post_paging dl tcb_offset init_stack fault_stack s =
     (let s = wrmsr_fs_base tcb_offset s;
          s = with_locals (\<lambda>l. l\<lparr>l_gdtr := \<lparr>tp_limit = of_nat (length (l_gdt l) * 8 - 1),
                                          tp_base = LocalGdt (dc_fs_base (ds_cpu s))\<rparr>\<rparr>) s;
          (tss_low, tss_high) = tss_entries (dl_tss_addr dl (dc_fs_base (ds_cpu s))) (dl_tss_size dl);
          s = with_locals (\<lambda>l. l\<lparr>l_gdt := (l_gdt l)[GDT_TSS := tss_low]\<rparr>) s;
          s = with_locals (\<lambda>l. l\<lparr>l_gdt := (l_gdt l)[GDT_TSS_HIGH := tss_high]\<rparr>) s
      in bindR (set_tss_stack init_stack s) (\<lambda>s.
         bindR (stack_top fault_stack) (\<lambda>fault_top.
         let s = with_locals (\<lambda>l. l\<lparr>l_tss := (l_tss l)\<lparr>tss_ist := (tss_ist (l_tss l))[0 := of_nat fault_top]\<rparr>\<rparr>) s;
             s = lgdt (l_gdtr (locals s)) s
         in bindR (load_kernel_segments s) (\<lambda>s.
            let s = wrmsr_fs_base tcb_offset s in
            load_tr (SegmentSelector GDT_TSS 0) s))))"

definition gdt_init_ap ::
  "desc_layout \<Rightarrow> u64 \<Rightarrow> kernel_stack \<Rightarrow> kernel_stack \<Rightarrow> desc_state \<Rightarrow> desc_state res" where
  "gdt_init_ap dl tcb_offset init_stack fault_stack s =
     bindR (gdt_init s) (gdt_init_post_paging dl tcb_offset init_stack fault_stack)"

definition idt_early_init :: "desc_state \<Rightarrow> desc_state" where
  "idt_early_init s = lidt (ds_init_idtr s) s"

text \<open>A sequence of statements that each change the gate of one vector.\<close>

fun update_gates :: "(nat \<times> (idt_entry \<Rightarrow> idt_entry res)) list \<Rightarrow> idt_entry list \<Rightarrow> idt_entry list res" where
  "update_gates [] es = Inr es"
| "update_gates ((i, f) # us) es =
     (if i < length es then bindR (f (es ! i)) (\<lambda>e. update_gates us (es[i := e])) else Inl IndexOutOfBounds)"

definition gate_updates :: "(handler \<Rightarrow> u64) \<Rightarrow> bool \<Rightarrow> (nat \<times> (idt_entry \<Rightarrow> idt_entry res)) list" where
  "gate_updates addr is_bsp =
     (let fn = \<lambda>h e. Inr (set_func (addr h) e) in
     [(0, fn Divide_by_zero),
      (1, fn Debug),
      (2, fn Non_maskable),
      (2, set_ist 0),
      (3, fn Breakpoint),
      (3, \<lambda>e. Inr (set_flags (IDT_PRESENT OR IDT_RING_3 OR IDT_INTERRUPT) e)),
      (4, fn Overflow),
      (5, fn Bound_range),
      (6, fn Invalid_opcode),
      (7, fn Device_not_available),
      (8, fn Double_fault),
      (8, set_ist 0),
      (10, fn Invalid_tss),
      (11, fn Segment_not_present),
      (12, fn Stack_segment),
      (13, fn Protection),
      (14, fn Page_fault),
      (14, set_ist 0),
      (16, fn Fpu_fault),
      (17, fn Alignment_check),
      (18, fn Machine_check),
      (19, fn Simd),
      (20, fn Virtualization),
      (30, fn Security)]
     @ (if is_bsp then [(32, fn Timer)] else [])
     @ [(0xf0, fn Ipi_tlb),
        (0xfd, fn Ipi_timer),
        (0xfe, fn Ipi_halt),
        (0xff, fn Spurious)])"

definition idt_init :: "(handler \<Rightarrow> u64) \<Rightarrow> bool \<Rightarrow> desc_state \<Rightarrow> desc_state res" where
  "idt_init addr is_bsp s =
     (let was = l_idt_check (locals s);
          s = with_locals (\<lambda>l. l\<lparr>l_idt_check := True\<rparr>) s
      in bindR (guardR (\<not> was) (Assertion ''IDT for this CPU is already initialized'')) (\<lambda>_.
         let s = with_locals (\<lambda>l. l\<lparr>l_idtr := \<lparr>tp_limit = of_nat (length (l_idt l) * 16 - 1),
                                            tp_base = LocalIdt (dc_fs_base (ds_cpu s))\<rparr>\<rparr>) s
         in bindR (update_gates (gate_updates addr is_bsp) (l_idt (locals s))) (\<lambda>es.
            let s = with_locals (\<lambda>l. l\<lparr>l_idt := es\<rparr>) s in
            Inr (lidt (l_idtr (locals s)) s))))"

section \<open>Reading descriptors back\<close>

lemma gdt_base_new [simp]: "gdt_base (gdt_entry_new offset limit access flags) = offset"
  by (rule bit_eqI, rename_tac n, case_tac "24 \<le> n") (auto simp: gdt_base_def gdt_entry_new_def bit_simps)

lemma gdt_limit_new: "gdt_limit (gdt_entry_new offset limit access flags) = limit AND 0xFFFFF"
proof (rule bit_word_eqI)
  fix n
  assume "n < LENGTH(32)"
  have m: "bit (0xFFFFF :: u32) n \<longleftrightarrow> n < 20" for n
    using bit_mask_iff [where 'a = u32, of 20 n] by (auto simp: mask_eq_exp_minus_1)
  have f: "bit (0xF :: u8) k \<longleftrightarrow> k < 4" for k
    using bit_mask_iff [where 'a = u8, of 4 k] by (auto simp: mask_eq_exp_minus_1)
  have z: "bit (0xF0 :: u8) k \<longleftrightarrow> 4 \<le> k \<and> k < 8" for k
    using bit_push_bit_iff [of 4 "0xF :: u8" k] f [of "k - 4"] by auto
  show "bit (gdt_limit (gdt_entry_new offset limit access flags)) n \<longleftrightarrow> bit (limit AND 0xFFFFF) n"
    unfolding gdt_limit_def gdt_entry_new_def gdt_entry.simps bit_or_iff bit_and_iff m bit_push_bit_iff bit_ucast_iff
      bit_drop_bit_eq comp_def f z by auto
qed

text \<open>A 16-byte system descriptor: the second entry holds the upper half of the base in its first four bytes.\<close>

definition system_base :: "gdt_entry \<Rightarrow> gdt_entry \<Rightarrow> u64" where
  "system_base low high = ucast (gdt_base low) OR push_bit 32 (ucast (g_limitl high)) OR push_bit 48 (ucast (g_offsetl high))"

lemma tss_entries_base: "tss_entries ptr sz = (low, high) \<Longrightarrow> system_base low high = ptr"
  unfolding tss_entries_def Let_def
proof (clarsimp simp: system_base_def)
  show "(ucast (ucast ptr :: u32) OR push_bit 32 (ucast (g_limitl (gdt_entry_new (ucast (ucast (drop_bit 48 ptr) :: u16))
           (ucast (ucast (drop_bit 32 ptr) :: u16)) 0 0)))
       OR push_bit 48 (ucast (g_offsetl (gdt_entry_new (ucast (ucast (drop_bit 48 ptr) :: u16)) (ucast (ucast (drop_bit 32 ptr) :: u16)) 0 0)))) = ptr"
    by (rule bit_eqI, rename_tac n, case_tac "48 \<le> n") (auto simp: gdt_entry_new_def bit_simps)
qed

lemma tss_entries_low:
  "tss_entries ptr sz = (low, high) \<Longrightarrow> gdt_limit low = sz AND 0xFFFFF \<and> g_access low = 0xE9"
  by (auto simp: tss_entries_def Let_def gdt_limit_new) (simp add: gdt_entry_new_def GDT_A_PRESENT_def GDT_A_RING_3_def GDT_A_TSS_AVAIL_def)

definition gate_offset :: "idt_entry \<Rightarrow> u64" where
  "gate_offset e = ucast (i_offsetl e) OR push_bit 16 (ucast (i_offsetm e)) OR push_bit 32 (ucast (i_offseth e))"

lemma gate_offset_set [simp]: "gate_offset (idt_set_offset sel base e) = base"
  by (rule bit_eqI, rename_tac n, case_tac "32 \<le> n") (auto simp: gate_offset_def idt_set_offset_def bit_simps)

section \<open>Interrupt gates after initialisation\<close>

fun updates_of :: "nat \<Rightarrow> (nat \<times> (idt_entry \<Rightarrow> idt_entry res)) list \<Rightarrow> idt_entry \<Rightarrow> idt_entry res" where
  "updates_of v [] e = Inr e"
| "updates_of v ((i, f) # us) e = (if i = v then bindR (f e) (updates_of v us) else updates_of v us e)"

lemma update_gates_nth:
  "update_gates us es = Inr es' \<Longrightarrow> length es' = length es \<and> (\<forall>v < length es. updates_of v us (es ! v) = Inr (es' ! v))"
proof (induction us arbitrary: es)
  case Nil
  then show ?case by simp
next
  case (Cons u us)
  obtain i f where u: "u = (i, f)" by (cases u)
  then obtain e where e: "i < length es" "f (es ! i) = Inr e" "update_gates us (es[i := e]) = Inr es'"
    using Cons.prems by (auto simp: bindR_eq_Inr split: if_splits)
  have n: "updates_of v us (es[i := e] ! v) = Inr (es' ! v)" if "v < length es" for v using Cons.IH [OF e(3)] that by simp
  have "updates_of v (u # us) (es ! v) = Inr (es' ! v)" if "v < length es" for v
    using n [OF that] u e(1,2) by (cases "i = v") auto
  then show ?case using Cons.IH [OF e(3)] by auto
qed

lemma update_gates_total:
  "\<forall>(i, f) \<in> set us. i < length es \<and> (\<forall>e. \<exists>e'. f e = Inr e') \<Longrightarrow> \<exists>es'. update_gates us es = Inr es'"
proof (induction us arbitrary: es)
  case Nil
  then show ?case by simp
next
  case (Cons u us)
  obtain i f where u: "u = (i, f)" by (cases u)
  obtain e where "f (es ! i) = Inr e" using Cons.prems u by fastforce
  then show ?case using Cons.IH [of "es[i := e]"] Cons.prems u by auto
qed

text \<open>Which handler serves a vector.\<close>

definition vectors :: "bool \<Rightarrow> (nat \<times> handler) list" where
  "vectors is_bsp =
     [(0, Divide_by_zero), (1, Debug), (2, Non_maskable), (3, Breakpoint), (4, Overflow), (5, Bound_range), (6, Invalid_opcode),
      (7, Device_not_available), (8, Double_fault), (10, Invalid_tss), (11, Segment_not_present), (12, Stack_segment),
      (13, Protection), (14, Page_fault), (16, Fpu_fault), (17, Alignment_check), (18, Machine_check), (19, Simd),
      (20, Virtualization), (30, Security)]
     @ (if is_bsp then [(32, Timer)] else [])
     @ [(0xf0, Ipi_tlb), (0xfd, Ipi_timer), (0xfe, Ipi_halt), (0xff, Spurious)]"

definition gate_for :: "(handler \<Rightarrow> u64) \<Rightarrow> bool \<Rightarrow> nat \<Rightarrow> idt_entry" where
  "gate_for addr is_bsp v = (case map_of (vectors is_bsp) v of
       None \<Rightarrow> idt_entry_new
     | Some h \<Rightarrow> (set_func (addr h) idt_entry_new)
          \<lparr>i_ist := if v \<in> {2, 8, 14} then 1 else 0,
           i_attribute := IDT_PRESENT OR (if v = 3 then IDT_RING_3 else IDT_RING_0) OR IDT_INTERRUPT\<rparr>)"

lemma set_ist_0 [simp]: "set_ist 0 e = Inr (e\<lparr>i_ist := 1\<rparr>)"
  by (simp add: set_ist_def)

lemma updates_of_gate_for: "updates_of v (gate_updates addr is_bsp) idt_entry_new = Inr (gate_for addr is_bsp v)"
  by (cases is_bsp) (simp_all add: gate_updates_def gate_for_def vectors_def set_func_def set_flags_def idt_set_offset_def idt_entry_new_def)

lemma update_gates_all:
  "\<exists>es. update_gates (gate_updates addr is_bsp) idt_new = Inr es \<and> length es = 256 \<and> (\<forall>v < 256. es ! v = gate_for addr is_bsp v)"
proof -
  obtain es where "update_gates (gate_updates addr is_bsp) idt_new = Inr es"
    using update_gates_total [of "gate_updates addr is_bsp" idt_new] by (auto simp: gate_updates_def idt_new_def)
  then show ?thesis using update_gates_nth [of "gate_updates addr is_bsp" idt_new es]
    by (auto simp: idt_new_def updates_of_gate_for)
qed

section \<open>A CPU after initialisation\<close>

lemma access_bits:
  "g_access (gdt_entry_new offset limit access flags) = access"
  by (simp add: gdt_entry_new_def)

lemma kernel_entries [simp]:
  "bit (g_access kernel_code_entry) 7" "bit (g_access kernel_data_entry) 7" "gdt_base kernel_data_entry = 0"
  by (simp_all add: kernel_code_entry_def kernel_data_entry_def access_bits GDT_A_PRESENT_def bit_or_iff bit_push_bit_iff)

text \<open>A table with the kernel's code and data descriptors in their places.\<close>

definition kernel_table :: "desc_state \<Rightarrow> bool" where
  "kernel_table s \<longleftrightarrow> 23 \<le> unat (tp_limit (dc_gdtr (ds_cpu s))) \<and> 3 \<le> length (loaded_gdt s)
     \<and> loaded_gdt s ! 1 = kernel_code_entry \<and> loaded_gdt s ! 2 = kernel_data_entry"

definition kernel_segments :: "desc_cpu \<Rightarrow> desc_cpu" where
  "kernel_segments c =
     c\<lparr>dc_cs := SegmentSelector 1 0, dc_ds := SegmentSelector 2 0, dc_es := SegmentSelector 2 0, dc_fs := SegmentSelector 2 0,
       dc_gs := SegmentSelector 2 0, dc_ss := SegmentSelector 2 0, dc_fs_base := 0\<rparr>"

lemma kernel_table_cong:
  "dc_gdtr (f (ds_cpu s)) = dc_gdtr (ds_cpu s) \<Longrightarrow> kernel_table (on_cpu f s) = kernel_table s"
  by (simp add: kernel_table_def loaded_gdt_def on_cpu_def split: table.splits)

lemma kernel_descriptors:
  assumes "kernel_table s"
  shows "descriptor (SegmentSelector (Suc 0) 0) s = Some kernel_code_entry" "descriptor (SegmentSelector 2 0) s = Some kernel_data_entry"
  using assms by (auto simp: kernel_table_def descriptor_def)

lemma load_kernel_segments_eq:
  assumes "kernel_table s"
  shows "load_kernel_segments s = Inr (on_cpu kernel_segments s)"
  unfolding load_kernel_segments_def load_cs_def load_ds_def load_es_def load_fs_def load_gs_def load_ss_def load_segment_def
  using assms by (simp add: GDT_KERNEL_CODE_def GDT_KERNEL_DATA_def kernel_descriptors kernel_table_cong)
    (simp add: on_cpu_def kernel_segments_def)

lemma gdt_init_eq:
  "gdt_init s = Inr (on_cpu (\<lambda>c. kernel_segments (c\<lparr>dc_gdtr := \<lparr>tp_limit = 31, tp_base = InitGdt\<rparr>\<rparr>))
     (s\<lparr>ds_init_gdtr := \<lparr>tp_limit = 31, tp_base = InitGdt\<rparr>\<rparr>))"
proof -
  have "kernel_table (lgdt \<lparr>tp_limit = 31, tp_base = InitGdt\<rparr> (s\<lparr>ds_init_gdtr := \<lparr>tp_limit = 31, tp_base = InitGdt\<rparr>\<rparr>))"
    by (simp add: kernel_table_def loaded_gdt_def lgdt_def on_cpu_def INIT_GDT_def)
  then show ?thesis by (simp add: gdt_init_def load_kernel_segments_eq INIT_GDT_def) (simp add: lgdt_def on_cpu_def)
qed

text \<open>The thread locals and the registers that \<^verbatim>\<open>init_post_paging\<close> leaves behind.\<close>

definition cpu_block :: "desc_layout \<Rightarrow> u64 \<Rightarrow> usize \<Rightarrow> usize \<Rightarrow> cpu_locals" where
  "cpu_block dl tcb rsp fault =
     fresh_locals\<lparr>l_gdtr := \<lparr>tp_limit = 71, tp_base = LocalGdt tcb\<rparr>,
       l_gdt := GDT[7 := fst (tss_entries (dl_tss_addr dl tcb) (dl_tss_size dl)), 8 := snd (tss_entries (dl_tss_addr dl tcb) (dl_tss_size dl))],
       l_tss := TSS\<lparr>tss_rsp := (tss_rsp TSS)[0 := of_nat rsp], tss_ist := (tss_ist TSS)[0 := of_nat fault]\<rparr>\<rparr>"

definition cpu_ready :: "u64 \<Rightarrow> desc_cpu \<Rightarrow> desc_cpu" where
  "cpu_ready tcb c =
     (kernel_segments c)\<lparr>dc_gdtr := \<lparr>tp_limit = 71, tp_base = LocalGdt tcb\<rparr>, dc_fs_base := tcb, dc_tr := SegmentSelector 7 0\<rparr>"

lemma with_locals_simps [simp]:
  "locals (with_locals f s) = f (locals s)"
  "with_locals g (with_locals f s) = with_locals (\<lambda>l. g (f l)) s"
  "dc_fs_base (ds_cpu (with_locals f s)) = dc_fs_base (ds_cpu s)"
  by (simp_all add: with_locals_def locals_def)

lemma length_GDT [simp]: "length GDT = 9"
  by (simp add: GDT_def)

lemma gdt_init_post_paging_eq:
  assumes "ds_locals s tcb = fresh_locals" and "stack_top init_stack = Inr rsp" and "stack_top fault_stack = Inr fault"
  shows "gdt_init_post_paging dl tcb init_stack fault_stack s =
     Inr (on_cpu (cpu_ready tcb) (s\<lparr>ds_locals := (ds_locals s)(tcb := cpu_block dl tcb rsp fault)\<rparr>))"
proof -
  obtain low high where e: "tss_entries (dl_tss_addr dl tcb) (dl_tss_size dl) = (low, high)" by fastforce
  have p: "bit (g_access low) 7" using tss_entries_low [OF e] by (simp add: bit_numeral_rec)
  let ?s = "s\<lparr>ds_locals := (ds_locals s)(tcb := cpu_block dl tcb rsp fault),
     ds_cpu := (ds_cpu s)\<lparr>dc_fs_base := tcb, dc_gdtr := \<lparr>tp_limit = 71, tp_base = LocalGdt tcb\<rparr>\<rparr>\<rparr>"
  have k: "kernel_table ?s"
    by (simp add: kernel_table_def loaded_gdt_def cpu_block_def fresh_locals_def GDT_def)
  have t: "descriptor (SegmentSelector 7 0) (wrmsr_fs_base tcb (on_cpu kernel_segments ?s)) = Some low"
    using p by (simp add: descriptor_def loaded_gdt_def cpu_block_def e GDT_def on_cpu_def wrmsr_fs_base_def kernel_segments_def)
  have l: "locals (wrmsr_fs_base tcb s) = fresh_locals" "dc_fs_base (ds_cpu (wrmsr_fs_base tcb s)) = tcb"
    using assms(1) by (simp_all add: locals_def wrmsr_fs_base_def on_cpu_def)
  have "gdt_init_post_paging dl tcb init_stack fault_stack s = bindR (load_kernel_segments
      (lgdt \<lparr>tp_limit = 71, tp_base = LocalGdt tcb\<rparr> (with_locals (\<lambda>_. cpu_block dl tcb rsp fault) (wrmsr_fs_base tcb s))))
      (\<lambda>s. load_tr (SegmentSelector GDT_TSS 0) (wrmsr_fs_base tcb s))"
    using l assms(2,3) by (simp add: gdt_init_post_paging_def Let_def e set_tss_stack_def GDT_TSS_def GDT_TSS_HIGH_def)
      (simp add: with_locals_def fresh_locals_def cpu_block_def e)
  also have "lgdt \<lparr>tp_limit = 71, tp_base = LocalGdt tcb\<rparr> (with_locals (\<lambda>_. cpu_block dl tcb rsp fault) (wrmsr_fs_base tcb s)) = ?s"
    by (simp add: lgdt_def on_cpu_def with_locals_def wrmsr_fs_base_def)
  finally show ?thesis using t
    by (simp add: load_kernel_segments_eq [OF k] load_tr_def load_segment_def GDT_TSS_def)
      (simp add: on_cpu_def wrmsr_fs_base_def cpu_ready_def kernel_segments_def)
qed

lemma idt_init_eq:
  assumes "l_idt_check (locals s) = False" and "l_idt (locals s) = idt_new"
  shows "\<exists>es. idt_init addr is_bsp s = Inr (lidt \<lparr>tp_limit = 4095, tp_base = LocalIdt (dc_fs_base (ds_cpu s))\<rparr>
       (with_locals (\<lambda>l. l\<lparr>l_idt_check := True, l_idtr := \<lparr>tp_limit = 4095, tp_base = LocalIdt (dc_fs_base (ds_cpu s))\<rparr>, l_idt := es\<rparr>) s))
     \<and> length es = 256 \<and> (\<forall>v < 256. es ! v = gate_for addr is_bsp v)"
proof -
  obtain es where "update_gates (gate_updates addr is_bsp) idt_new = Inr es" "length es = 256" "\<forall>v < 256. es ! v = gate_for addr is_bsp v"
    using update_gates_all by blast
  then show ?thesis using assms
    by (intro exI [of _ es]) (simp add: idt_init_def Let_def with_locals_def locals_def idt_new_def)
qed

section \<open>Properties\<close>

text \<open>How the processor reads a gate: the low bits of the selector are the ring and the table.\<close>

definition gate_present :: "idt_entry \<Rightarrow> bool" where
  "gate_present e \<longleftrightarrow> bit (i_attribute e) 7"

definition gate_dpl :: "idt_entry \<Rightarrow> nat" where
  "gate_dpl e = unat (drop_bit 5 (i_attribute e) AND 3)"

definition gate_segment :: "idt_entry \<Rightarrow> selector" where
  "gate_segment e = SegmentSelector (unat (drop_bit 3 (i_selector e))) (unat (i_selector e AND 3))"

lemma gate_for_fields:
  "map_of (vectors is_bsp) v = Some h \<Longrightarrow> gate_present (gate_for addr is_bsp v) \<and> gate_offset (gate_for addr is_bsp v) = addr h
     \<and> gate_segment (gate_for addr is_bsp v) = SegmentSelector 1 0 \<and> gate_dpl (gate_for addr is_bsp v) = (if v = 3 then 3 else 0)
     \<and> i_ist (gate_for addr is_bsp v) = (if v \<in> {2, 8, 14} then 1 else 0) \<and> i_attribute (gate_for addr is_bsp v) AND 0xF = 0xE"
proof -
  assume h: "map_of (vectors is_bsp) v = Some h"
  have "gate_offset (e\<lparr>i_ist := x, i_attribute := y\<rparr>) = gate_offset e" for e x y by (simp add: gate_offset_def)
  then have "gate_offset (gate_for addr is_bsp v) = addr h" using h by (simp add: gate_for_def set_func_def)
  moreover have "i_selector (gate_for addr is_bsp v) = 8"
    using h by (simp add: gate_for_def set_func_def idt_set_offset_def)
  moreover have "i_attribute (gate_for addr is_bsp v) = (if v = 3 then 0xEE else 0x8E)"
    using h by (simp add: gate_for_def IDT_PRESENT_def IDT_RING_3_def IDT_RING_0_def IDT_INTERRUPT_def)
  moreover have "i_ist (gate_for addr is_bsp v) = (if v \<in> {2, 8, 14} then 1 else 0)" using h by (simp add: gate_for_def)
  ultimately show ?thesis
    by (simp add: gate_present_def gate_dpl_def gate_segment_def bit_numeral_rec)
qed

lemma gate_for_absent: "map_of (vectors is_bsp) v = None \<Longrightarrow> \<not> gate_present (gate_for addr is_bsp v)"
  by (simp add: gate_for_def gate_present_def idt_entry_new_def)

text \<open>A machine at power on, and two stacks.\<close>

definition example_machine :: desc_state where
  "example_machine =
     \<lparr>ds_init_gdtr = NULL_TABLE, ds_init_idtr = NULL_TABLE, ds_locals = \<lambda>_. fresh_locals,
      ds_cpu = \<lparr>dc_gdtr = NULL_TABLE, dc_idtr = NULL_TABLE, dc_cs = SegmentSelector 0 0, dc_ds = SegmentSelector 0 0,
        dc_es = SegmentSelector 0 0, dc_fs = SegmentSelector 0 0, dc_gs = SegmentSelector 0 0, dc_ss = SegmentSelector 0 0,
        dc_tr = SegmentSelector 0 0, dc_fs_base = 0\<rparr>\<rparr>"

definition machine_stack :: "usize \<Rightarrow> kernel_stack" where
  "machine_stack base = \<lparr>stack_region = \<lparr>reg_info = \<lparr>ri_start = base, ri_limit = base + 0x2000\<rparr>, reg_offset = 0, reg_length = 0x2000\<rparr>\<rparr>"

lemma machine_stack_top: "stack_top (machine_stack 0x10000) = Inr 0x12000" "stack_top (machine_stack 0x20000) = Inr 0x22000"
  by (simp_all add: stack_top_def region_limit_def region_start_def machine_stack_def uadd_def usize_limit_def)

text \<open>
  C19. After a CPU has set up its tables, thread locals resolve to its own block and no other block
  has changed; the task register designates a present descriptor of its own task state segment,
  which holds its kernel stack; and the gates of the non-maskable interrupt, the double fault and
  the page fault switch to its fault stack.
\<close>

theorem cpu_tables_ready:
  assumes "ds_locals s tcb = fresh_locals" and "stack_top init_stack = Inr rsp" and "stack_top fault_stack = Inr fault"
  shows "\<exists>s1 s2. gdt_init_ap dl tcb init_stack fault_stack s = Inr s1 \<and> idt_init addr is_bsp s1 = Inr s2
     \<and> dc_fs_base (ds_cpu s2) = tcb \<and> (\<forall>b. b \<noteq> tcb \<longrightarrow> ds_locals s2 b = ds_locals s b)
     \<and> dc_tr (ds_cpu s2) = SegmentSelector GDT_TSS 0 \<and> descriptor (dc_tr (ds_cpu s2)) s2 \<noteq> None
     \<and> system_base (loaded_gdt s2 ! GDT_TSS) (loaded_gdt s2 ! GDT_TSS_HIGH) = dl_tss_addr dl tcb
     \<and> tss_rsp (l_tss (locals s2)) ! 0 = of_nat rsp
     \<and> (\<forall>v \<in> {2, 8, 14}. let g = l_idt (locals s2) ! v in
          gate_present g \<and> i_ist g \<noteq> 0 \<and> tss_ist (l_tss (locals s2)) ! (unat (i_ist g) - 1) = of_nat fault)"
proof -
  obtain s0 where s0: "gdt_init s = Inr s0" "ds_locals s0 = ds_locals s" by (simp add: gdt_init_eq on_cpu_def)
  let ?s1 = "on_cpu (cpu_ready tcb) (s0\<lparr>ds_locals := (ds_locals s0)(tcb := cpu_block dl tcb rsp fault)\<rparr>)"
  have s1: "gdt_init_ap dl tcb init_stack fault_stack s = Inr ?s1"
    using gdt_init_post_paging_eq [of s0 tcb init_stack rsp fault_stack fault dl] assms s0 by (simp add: gdt_init_ap_def)
  have l: "locals ?s1 = cpu_block dl tcb rsp fault" "dc_fs_base (ds_cpu ?s1) = tcb"
    by (simp_all add: locals_def on_cpu_def cpu_ready_def)
  then have c: "l_idt_check (locals ?s1) = False" "l_idt (locals ?s1) = idt_new"
    by (simp_all add: cpu_block_def fresh_locals_def)
  let ?p = "\<lparr>tp_limit = 4095, tp_base = LocalIdt tcb\<rparr>"
  obtain es where es: "idt_init addr is_bsp ?s1 =
      Inr (lidt ?p (with_locals (\<lambda>l. l\<lparr>l_idt_check := True, l_idtr := ?p, l_idt := es\<rparr>) ?s1))" "\<forall>v < 256. es ! v = gate_for addr is_bsp v"
    using idt_init_eq [OF c, of addr is_bsp] l(2) by auto
  let ?s2 = "lidt ?p (with_locals (\<lambda>l. l\<lparr>l_idt_check := True, l_idtr := ?p, l_idt := es\<rparr>) ?s1)"
  obtain low high where e: "tss_entries (dl_tss_addr dl tcb) (dl_tss_size dl) = (low, high)" by fastforce
  have g: "loaded_gdt ?s2 = GDT[7 := low, 8 := high]"
    by (simp add: loaded_gdt_def lidt_def on_cpu_def with_locals_def locals_def cpu_ready_def cpu_block_def e)
  have t: "locals ?s2 = (cpu_block dl tcb rsp fault)\<lparr>l_idt_check := True, l_idtr := ?p, l_idt := es\<rparr>"
    using l by (simp add: locals_def lidt_def on_cpu_def with_locals_def)
  have "dc_fs_base (ds_cpu ?s2) = tcb" "\<forall>b. b \<noteq> tcb \<longrightarrow> ds_locals ?s2 b = ds_locals s b" "dc_tr (ds_cpu ?s2) = SegmentSelector GDT_TSS 0"
    using s0(2) by (simp_all add: lidt_def on_cpu_def with_locals_def cpu_ready_def GDT_TSS_def)
  moreover have "descriptor (SegmentSelector GDT_TSS 0) ?s2 \<noteq> None"
    using tss_entries_low [OF e] g
    by (simp add: descriptor_def GDT_TSS_def bit_numeral_rec lidt_def on_cpu_def with_locals_def cpu_ready_def)
  moreover have "system_base (loaded_gdt ?s2 ! GDT_TSS) (loaded_gdt ?s2 ! GDT_TSS_HIGH) = dl_tss_addr dl tcb"
    using g tss_entries_base [OF e] by (simp add: GDT_TSS_def GDT_TSS_HIGH_def)
  moreover have "tss_rsp (l_tss (locals ?s2)) ! 0 = of_nat rsp" "tss_ist (l_tss (locals ?s2)) ! 0 = of_nat fault"
    using t by (simp_all add: cpu_block_def TSS_def)
  moreover have "map_of (vectors is_bsp) v \<noteq> None" if "v \<in> {2, 8, 14}" for v using that by (auto simp: vectors_def)
  then have "gate_present (es ! v) \<and> i_ist (es ! v) = 1" if "v \<in> {2, 8, 14}" for v
    using gate_for_fields [of is_bsp v] es(2) that by fastforce
  ultimately show ?thesis using s1 es(1) t by (intro exI [of _ ?s1] exI [of _ ?s2]) (simp add: Let_def)
qed

theorem cpu_tables_ready_witness:
  "\<exists>s1 s2. gdt_init_ap \<lparr>dl_tss_addr = \<lambda>b. b - 0x800, dl_tss_size = 0x68\<rparr> 0xFFFFFF8000001FF8 (machine_stack 0x10000) (machine_stack 0x20000)
       example_machine = Inr s1
     \<and> idt_init (\<lambda>_. 0xFFFF800000001234) True s1 = Inr s2 \<and> dc_fs_base (ds_cpu s2) = 0xFFFFFF8000001FF8
     \<and> system_base (loaded_gdt s2 ! GDT_TSS) (loaded_gdt s2 ! GDT_TSS_HIGH) = 0xFFFFFF80000017F8"
proof -
  have "ds_locals example_machine 0xFFFFFF8000001FF8 = fresh_locals" by (simp add: example_machine_def)
  then show ?thesis
    using cpu_tables_ready [of example_machine "0xFFFFFF8000001FF8", OF _ machine_stack_top,
        of "\<lparr>dl_tss_addr = \<lambda>b. b - 0x800, dl_tss_size = 0x68\<rparr>" "\<lambda>_. 0xFFFF800000001234" True]
    by auto
qed

text \<open>
  C22. Every vector that the kernel handles gets a present interrupt gate to its handler in the
  kernel code segment, reachable from user code only for the breakpoint; every other vector is
  absent; and setting up the table a second time panics.
\<close>

theorem idt_init_gates:
  assumes "l_idt_check (locals s) = False" and "l_idt (locals s) = idt_new"
  shows "\<exists>s'. idt_init addr is_bsp s = Inr s'
     \<and> dc_idtr (ds_cpu s') = \<lparr>tp_limit = 4095, tp_base = LocalIdt (dc_fs_base (ds_cpu s))\<rparr>
     \<and> (\<forall>v < 256. let g = l_idt (locals s') ! v in case map_of (vectors is_bsp) v of
          None \<Rightarrow> \<not> gate_present g
        | Some h \<Rightarrow> gate_present g \<and> gate_offset g = addr h \<and> gate_segment g = SegmentSelector GDT_KERNEL_CODE 0
            \<and> i_attribute g AND 0xF = 0xE \<and> gate_dpl g = (if v = 3 then 3 else 0))
     \<and> idt_init addr is_bsp' s' = Inl (Assertion ''IDT for this CPU is already initialized'')"
proof -
  let ?p = "\<lparr>tp_limit = 4095, tp_base = LocalIdt (dc_fs_base (ds_cpu s))\<rparr>"
  obtain es where es: "idt_init addr is_bsp s =
      Inr (lidt ?p (with_locals (\<lambda>l. l\<lparr>l_idt_check := True, l_idtr := ?p, l_idt := es\<rparr>) s))" "\<forall>v < 256. es ! v = gate_for addr is_bsp v"
    using idt_init_eq [OF assms] by blast
  let ?s = "lidt ?p (with_locals (\<lambda>l. l\<lparr>l_idt_check := True, l_idtr := ?p, l_idt := es\<rparr>) s)"
  have l: "locals ?s = (locals s)\<lparr>l_idt_check := True, l_idtr := ?p, l_idt := es\<rparr>" "dc_idtr (ds_cpu ?s) = ?p"
    by (simp_all add: locals_def lidt_def on_cpu_def with_locals_def)
  have "idt_init addr is_bsp' ?s = Inl (Assertion ''IDT for this CPU is already initialized'')"
    using l(1) by (simp add: idt_init_def Let_def)
  then show ?thesis using es l gate_for_fields [of is_bsp] gate_for_absent [of is_bsp]
    by (intro exI [of _ ?s]) (auto simp: Let_def GDT_KERNEL_CODE_def split: option.splits)
qed

theorem idt_init_gates_witness:
  "\<exists>s'. idt_init (\<lambda>h. if h = Timer then 0x1111 else 0x2222) True example_machine = Inr s'
     \<and> gate_present (l_idt (locals s') ! 32) \<and> gate_offset (l_idt (locals s') ! 32) = 0x1111 \<and> \<not> gate_present (l_idt (locals s') ! 33)"
proof -
  have e: "l_idt_check (locals example_machine) = False" "l_idt (locals example_machine) = idt_new"
    by (simp_all add: locals_def example_machine_def fresh_locals_def)
  obtain s' where s': "idt_init (\<lambda>h. if h = Timer then 0x1111 else 0x2222) True example_machine = Inr s'"
     "\<forall>v < 256. let g = l_idt (locals s') ! v in case map_of (vectors True) v of
          None \<Rightarrow> \<not> gate_present g
        | Some h \<Rightarrow> gate_present g \<and> gate_offset g = (if h = Timer then 0x1111 else 0x2222) \<and> gate_segment g = SegmentSelector GDT_KERNEL_CODE 0
            \<and> i_attribute g AND 0xF = 0xE \<and> gate_dpl g = (if v = 3 then 3 else 0)"
    using idt_init_gates [OF e, of "\<lambda>h. if h = Timer then 0x1111 else 0x2222" True True] by blast
  show ?thesis using s'(1) s'(2) [rule_format, of 32] s'(2) [rule_format, of 33] by (auto simp: vectors_def Let_def)
qed

end
