(* ===== verification/Local_Devices.thy ===== *)
theory Local_Devices
  imports Io_Apic Descriptor_Tables
begin

text \<open>
  The local APIC (\<^verbatim>\<open>src/src/devices/local_apic.rs\<close>), interprocessor interrupts (\<^verbatim>\<open>src/src/ipi.rs\<close>), the
  HPET (\<^verbatim>\<open>src/src/devices/hpet.rs\<close>), the bodies of the interrupt handlers
  (\<^verbatim>\<open>src/src/interrupts/exceptions.rs\<close>, \<^verbatim>\<open>irq.rs\<close>, \<^verbatim>\<open>ipi.rs\<close>) and the panic handler of \<^verbatim>\<open>src/src/init.rs\<close>,
  seen from one CPU.

  A device keeps the history of its writes. The local APIC reports a command as pending for some
  number of reads after it was issued, which is a parameter of the device; what the HPET answers
  to a read may depend on everything that was written before.
\<close>

section \<open>The local APIC\<close>

record lapic_device =
  la_regs :: "u16 \<Rightarrow> u32"
  la_busy :: nat
  la_latency :: nat
  la_log :: "(u16 \<times> u32) list"

definition lapic_dev_read :: "u16 \<Rightarrow> lapic_device \<Rightarrow> lapic_device \<times> u32" where
  "lapic_dev_read off d =
     (if off = 0x300
      then (d\<lparr>la_busy := la_busy d - 1\<rparr>,
            if la_busy d = 0 then la_regs d off AND NOT (push_bit 12 1) else la_regs d off OR push_bit 12 1)
      else (d, la_regs d off))"

definition lapic_dev_write :: "u16 \<Rightarrow> u32 \<Rightarrow> lapic_device \<Rightarrow> lapic_device" where
  "lapic_dev_write off v d =
     d\<lparr>la_regs := (la_regs d)(off := v), la_log := la_log d @ [(off, v)],
       la_busy := if off = 0x300 then la_latency d else la_busy d\<rparr>"

definition lapic_access_new :: "region_layout \<Rightarrow> u64 \<Rightarrow> kstate \<Rightarrow> (kstate \<times> region) res" where
  "lapic_access_new rl apic_base ks =
     bindR (map_physical_memory rl (unat (apic_base AND 0xffff0000)) PAGE_SIZE UNCACHED ks) (\<lambda>(ks1, r). case r of
        Inl _ \<Rightarrow> Inl (Expectation ''Failed to map local apic'')
      | Inr mapping \<Rightarrow> Inr (ks1, mapping))"

definition lapic_read :: "region \<Rightarrow> u16 \<Rightarrow> lapic_device \<Rightarrow> (lapic_device \<times> u32) res" where
  "lapic_read mapping off d = bindR (as_ptr_offset mapping (unat off)) (\<lambda>_. Inr (lapic_dev_read off d))"

definition lapic_write :: "region \<Rightarrow> u16 \<Rightarrow> u32 \<Rightarrow> lapic_device \<Rightarrow> lapic_device res" where
  "lapic_write mapping off v d = bindR (as_ptr_offset mapping (unat off)) (\<lambda>_. Inr (lapic_dev_write off v d))"

definition lapic_id :: "region \<Rightarrow> lapic_device \<Rightarrow> (lapic_device \<times> u32) res" where
  "lapic_id mapping = lapic_read mapping 0x20"

lemma pending_read:
  "lapic_read mapping 0x300 d = Inr (d', v) \<Longrightarrow> v AND push_bit 12 1 = push_bit 12 1 \<Longrightarrow> la_busy d' < la_busy d"
proof (rule ccontr)
  assume r: "lapic_read mapping 0x300 d = Inr (d', v)" "v AND push_bit 12 1 = push_bit 12 1" "\<not> la_busy d' < la_busy d"
  then have "la_busy d = 0" by (auto simp: lapic_read_def lapic_dev_read_def bindR_eq_Inr)
  then have "\<not> bit v 12" using r(1) by (auto simp: lapic_read_def lapic_dev_read_def bindR_eq_Inr bit_simps)
  then show False using arg_cong [OF r(2), of "\<lambda>w. bit w 12"] by (simp add: bit_simps)
qed

text \<open>The loop that waits for the delivery status to clear.\<close>

function lapic_wait :: "region \<Rightarrow> lapic_device \<Rightarrow> lapic_device res" where
  "lapic_wait mapping d =
     bindR (lapic_read mapping 0x300 d) (\<lambda>r.
     if snd r AND push_bit 12 1 = push_bit 12 1 then lapic_wait mapping (fst r) else Inr (fst r))"
  by auto
termination
  by (relation "measure (\<lambda>(_, d). la_busy d)") (auto intro: pending_read)

definition set_icr :: "region \<Rightarrow> u64 \<Rightarrow> lapic_device \<Rightarrow> lapic_device res" where
  "set_icr mapping v d =
     bindR (lapic_wait mapping d) (\<lambda>d.
     bindR (lapic_write mapping 0x310 (ucast (drop_bit 32 v)) d) (\<lambda>d.
     bindR (lapic_write mapping 0x300 (ucast v) d) (\<lambda>d.
     lapic_wait mapping d)))"

definition eoi :: "region \<Rightarrow> lapic_device \<Rightarrow> lapic_device res" where
  "eoi mapping = lapic_write mapping 0xB0 0"

section \<open>The devices of a CPU\<close>

record device_state =
  dv_kernel :: kstate
  dv_ports :: "(u16 \<times> u8) list"
  dv_access :: "region option"
  dv_lapic :: lapic_device
  dv_tlb_flushes :: nat
  dv_screen :: "string list"

definition local_apic_access :: "device_state \<Rightarrow> region res" where
  "local_apic_access s = unwrapR UnwrapNone (dv_access s)"

definition local_apic_access_safe :: "device_state \<Rightarrow> region option" where
  "local_apic_access_safe s = dv_access s"

definition on_lapic :: "(region \<Rightarrow> lapic_device \<Rightarrow> lapic_device res) \<Rightarrow> device_state \<Rightarrow> device_state res" where
  "on_lapic f s =
     bindR (local_apic_access s) (\<lambda>m. bindR (f m (dv_lapic s)) (\<lambda>d. Inr (s\<lparr>dv_lapic := d\<rparr>)))"

definition port_write :: "u16 \<Rightarrow> u8 \<Rightarrow> device_state \<Rightarrow> device_state" where
  "port_write p v s = s\<lparr>dv_ports := dv_ports s @ [(p, v)]\<rparr>"

definition disable_pic :: "device_state \<Rightarrow> device_state" where
  "disable_pic s =
     (let master_cmd = 0x20; master_data = 0x21; slave_cmd = 0xa0; slave_data = 0xa1;
          s = port_write master_cmd 0x11 s;
          s = port_write slave_cmd 0x11 s;
          s = port_write master_data 0x20 s;
          s = port_write slave_data 0x28 s;
          s = port_write master_data 4 s;
          s = port_write slave_data 2 s;
          s = port_write master_data 1 s;
          s = port_write slave_data 1 s;
          s = port_write master_data 0xff s;
          s = port_write slave_data 0xff s;
          s = port_write master_cmd 0x20 s;
          s = port_write slave_cmd 0x20 s
      in s)"

definition lapic_init_bsp :: "region_layout \<Rightarrow> u64 \<Rightarrow> device_state \<Rightarrow> device_state res" where
  "lapic_init_bsp rl apic_base s =
     (let s = disable_pic s in
      bindR (lapic_access_new rl apic_base (dv_kernel s)) (\<lambda>(ks, mapping).
      on_lapic (\<lambda>m. lapic_write m 0xf0 0x1ff) (s\<lparr>dv_kernel := ks, dv_access := Some mapping\<rparr>)))"

definition lapic_init_ap :: "device_state \<Rightarrow> device_state res" where
  "lapic_init_ap = on_lapic (\<lambda>m. lapic_write m 0xf0 0x1ff)"

section \<open>Interprocessor interrupts\<close>

datatype ipi_kind = Tlb | TimerKind | Halt

datatype ipi_target = CurrentTarget | AllTarget | OtherTarget

definition ipi_kind_code :: "ipi_kind \<Rightarrow> u64" where
  "ipi_kind_code k = (case k of Tlb \<Rightarrow> 0xf0 | TimerKind \<Rightarrow> 0xfd | Halt \<Rightarrow> 0xfe)"

definition ipi_target_code :: "ipi_target \<Rightarrow> u64" where
  "ipi_target_code t = (case t of CurrentTarget \<Rightarrow> 1 | AllTarget \<Rightarrow> 2 | OtherTarget \<Rightarrow> 3)"

definition ipi :: "ipi_kind \<Rightarrow> ipi_target \<Rightarrow> device_state \<Rightarrow> device_state res" where
  "ipi kind tgt s = (case local_apic_access_safe s of
       None \<Rightarrow> Inr s
     | Some m \<Rightarrow>
         let icr = push_bit 18 (ipi_target_code tgt) OR push_bit 14 1 OR ipi_kind_code kind in
         bindR (set_icr m icr (dv_lapic s)) (\<lambda>d. Inr (s\<lparr>dv_lapic := d\<rparr>)))"

text \<open>\<^verbatim>\<open>ActivePageTable::flush_all\<close>; a flush of the own TLB is counted.\<close>

definition tlb_flush_all :: "device_state \<Rightarrow> device_state" where
  "tlb_flush_all s = s\<lparr>dv_tlb_flushes := Suc (dv_tlb_flushes s)\<rparr>"

definition page_table_flush_all :: "device_state \<Rightarrow> device_state res" where
  "page_table_flush_all s = ipi Tlb OtherTarget (tlb_flush_all s)"

section \<open>Interrupt handlers\<close>

datatype outcome = Returned | Halted

definition handler_panic :: "string \<Rightarrow> device_state \<Rightarrow> (device_state \<times> outcome) res" where
  "handler_panic msg s = Inl (PanicMsg msg)"

fun run_handler :: "handler \<Rightarrow> device_state \<Rightarrow> (device_state \<times> outcome) res" where
  "run_handler Divide_by_zero = handler_panic ''Divide by zero''"
| "run_handler Debug = handler_panic ''Debug exception''"
| "run_handler Non_maskable = handler_panic ''Non maskable exception''"
| "run_handler Breakpoint = handler_panic ''Breakpoint exception''"
| "run_handler Overflow = handler_panic ''Overflow exception''"
| "run_handler Bound_range = handler_panic ''Bound range exception''"
| "run_handler Invalid_opcode = handler_panic ''Invalid opcode exception''"
| "run_handler Device_not_available = handler_panic ''Device not available exception''"
| "run_handler Double_fault = handler_panic ''Double fault exception''"
| "run_handler Invalid_tss = handler_panic ''Invalid TSS exception''"
| "run_handler Segment_not_present = handler_panic ''Segment not present exception''"
| "run_handler Stack_segment = handler_panic ''Stack segment exception''"
| "run_handler Protection = handler_panic ''Protection exception''"
| "run_handler Page_fault = handler_panic ''Page fault''"
| "run_handler Fpu_fault = handler_panic ''FPU exception''"
| "run_handler Alignment_check = handler_panic ''Alignment check exception''"
| "run_handler Machine_check = handler_panic ''Machine check exception''"
| "run_handler Simd = handler_panic ''SIMD exception''"
| "run_handler Virtualization = handler_panic ''Virtualization exception''"
| "run_handler Security = handler_panic ''Security exception''"
| "run_handler Timer = (\<lambda>s. bindR (on_lapic eoi s) (\<lambda>s. bindR (ipi TimerKind OtherTarget s) (\<lambda>s. Inr (s, Returned))))"
| "run_handler Spurious = handler_panic ''Spurious interrupt''"
| "run_handler Ipi_tlb = (\<lambda>s. bindR (on_lapic eoi s) (\<lambda>s. Inr (tlb_flush_all s, Returned)))"
| "run_handler Ipi_halt = (\<lambda>s. bindR (on_lapic eoi s) (\<lambda>s. Inr (s, Halted)))"
| "run_handler Ipi_timer = (\<lambda>s. bindR (on_lapic eoi s) (\<lambda>s. Inr (s, Returned)))"

text \<open>The panic handler prints, stops the other CPUs and halts.\<close>

definition panic_handler :: "string \<Rightarrow> device_state \<Rightarrow> (device_state \<times> outcome) res" where
  "panic_handler msg s =
     (let s = s\<lparr>dv_screen := dv_screen s @ [msg]\<rparr> in
      bindR (ipi Halt OtherTarget s) (\<lambda>s. Inr (s, Halted)))"

section \<open>The HPET\<close>

record hpet_device =
  hp_answer :: "(u16 \<times> u64) list \<Rightarrow> u16 \<Rightarrow> u64"
  hp_log :: "(u16 \<times> u64) list"

record hpet =
  hp_mapping :: region
  hp_device :: hpet_device

definition LEG_RT_CNF :: u64 where "LEG_RT_CNF = 2"
definition ENABLE_CNF :: u64 where "ENABLE_CNF = 1"
definition TN_VAL_SET_CNF :: u64 where "TN_VAL_SET_CNF = 0x40"
definition TN_TYPE_CNF :: u64 where "TN_TYPE_CNF = 0x08"
definition TN_INT_ENB_CNF :: u64 where "TN_INT_ENB_CNF = 0x04"
definition CAPABILITY_OFFSET :: u16 where "CAPABILITY_OFFSET = 0x00"
definition GENERAL_CONFIG_OFFSET :: u16 where "GENERAL_CONFIG_OFFSET = 0x10"
definition LEG_RT_CAP :: u64 where "LEG_RT_CAP = 0x8000"
definition T0_CONFIG_CAPABILITY_OFFSET :: u16 where "T0_CONFIG_CAPABILITY_OFFSET = 0x100"
definition T0_COMPARATOR_OFFSET :: u16 where "T0_COMPARATOR_OFFSET = 0x108"
definition PER_INT_CAP :: u64 where "PER_INT_CAP = 0x10"

definition hpet_access_new :: "region_layout \<Rightarrow> usize \<Rightarrow> hpet_device \<Rightarrow> kstate \<Rightarrow> (kstate \<times> hpet option) res" where
  "hpet_access_new rl base_address dev ks =
     bindR (map_physical_memory rl base_address 1024 UNCACHED ks) (\<lambda>(ks1, r). Inr (ks1, case r of
        Inl _ \<Rightarrow> None
      | Inr mapping \<Rightarrow> Some \<lparr>hp_mapping = mapping, hp_device = dev\<rparr>))"

definition hpet_read :: "u16 \<Rightarrow> hpet \<Rightarrow> u64 res" where
  "hpet_read reg h = bindR (as_ptr_offset (hp_mapping h) (unat reg)) (\<lambda>_. Inr (hp_answer (hp_device h) (hp_log (hp_device h)) reg))"

definition hpet_write :: "u16 \<Rightarrow> u64 \<Rightarrow> hpet \<Rightarrow> hpet res" where
  "hpet_write reg v h =
     bindR (as_ptr_offset (hp_mapping h) (unat reg)) (\<lambda>_.
     Inr (h\<lparr>hp_device := (hp_device h)\<lparr>hp_log := hp_log (hp_device h) @ [(reg, v)]\<rparr>\<rparr>))"

definition hpet_current :: "hpet \<Rightarrow> u64 res" where
  "hpet_current = hpet_read 0xf0"

definition hpet_new :: "hpet \<Rightarrow> hpet res" where
  "hpet_new ret =
     bindR (hpet_read CAPABILITY_OFFSET ret) (\<lambda>capability.
     bindR (guardR (capability AND LEG_RT_CAP \<noteq> 0) (PanicMsg ''HPET cannot perform legacy replacement'')) (\<lambda>_.
     let counter_clk_period_fs = unat (drop_bit 32 capability);
         desired_fs_period = 2250286 * 1000000 in
     bindR (guardR (counter_clk_period_fs \<noteq> 0) DivisionByZero) (\<lambda>_.
     let clk_periods_per_kernel_tick = desired_fs_period div counter_clk_period_fs in
     bindR (hpet_read T0_CONFIG_CAPABILITY_OFFSET ret) (\<lambda>t0_capabilities.
     bindR (guardR (t0_capabilities AND PER_INT_CAP \<noteq> 0) (PanicMsg ''HPET timer 0 does not support periodic mode'')) (\<lambda>_.
     let t0_config_word = TN_VAL_SET_CNF OR TN_TYPE_CNF OR TN_INT_ENB_CNF in
     bindR (hpet_write T0_CONFIG_CAPABILITY_OFFSET t0_config_word ret) (\<lambda>ret.
     bindR (hpet_current ret) (\<lambda>current.
     bindR (uadd (unat current) clk_periods_per_kernel_tick) (\<lambda>first.
     bindR (hpet_write T0_COMPARATOR_OFFSET (of_nat first) ret) (\<lambda>ret.
     bindR (hpet_write T0_COMPARATOR_OFFSET (of_nat clk_periods_per_kernel_tick) ret) (\<lambda>ret.
     bindR (hpet_read GENERAL_CONFIG_OFFSET ret) (\<lambda>config.
     let enable_word = config OR LEG_RT_CNF OR ENABLE_CNF in
     hpet_write GENERAL_CONFIG_OFFSET enable_word ret)))))))))))"

text \<open>\<open>table\<close> is the base address that the ACPI tables give for the HPET, if they have one.\<close>

definition hpet_init ::
  "region_layout \<Rightarrow> usize option \<Rightarrow> hpet_device \<Rightarrow> hpet init_mutex \<Rightarrow> kstate \<Rightarrow> (kstate \<times> hpet init_mutex) res" where
  "hpet_init rl table dev m ks = (case table of
       None \<Rightarrow> Inl (Expectation ''Failed to locate HPET'')
     | Some base_address \<Rightarrow>
         bindR (hpet_access_new rl base_address dev ks) (\<lambda>(ks1, x). case x of
            None \<Rightarrow> Inl (Expectation ''Failed to locate HPET'')
          | Some access \<Rightarrow> bindR (hpet_new access) (\<lambda>h. Inr (ks1, mutex_init m h))))"

section \<open>Bringing up the devices\<close>

record acpi_tables =
  at_apic_base :: u64
  at_bsp_apic_id :: u8
  at_model :: "(acpi_io_apic list \<times> override list) option"
  at_io_apics :: "usize \<Rightarrow> ioapic_device"
  at_pic_ok :: bool
  at_hpet :: "usize option"
  at_hpet_device :: hpet_device

definition devices_init_bsp ::
  "region_layout \<Rightarrow> acpi_tables \<Rightarrow> device_state \<Rightarrow> (device_state \<times> io_apic list \<times> override list \<times> hpet init_mutex) res" where
  "devices_init_bsp rl t s =
     bindR (lapic_init_bsp rl (at_apic_base t) s) (\<lambda>s.
     bindR (io_apic_init rl (at_io_apics t) (at_bsp_apic_id t) (at_model t) (at_pic_ok t) (dv_kernel s)) (\<lambda>(ks, apics, ovs).
     bindR (hpet_init rl (at_hpet t) (at_hpet_device t) mutex_new ks) (\<lambda>(ks, h).
     Inr (s\<lparr>dv_kernel := ks\<rparr>, apics, ovs, h))))"

definition devices_init_ap :: "usize \<Rightarrow> device_state \<Rightarrow> device_state res" where
  "devices_init_ap cpu_id s = lapic_init_ap s"

section \<open>Commands to other CPUs\<close>

definition lapic_mapped :: "region \<Rightarrow> bool" where
  "lapic_mapped m \<longleftrightarrow> (\<exists>start. region_start m = Inr start \<and> start + 0x400 \<le> usize_limit)"

lemma lapic_ptr: "lapic_mapped m \<Longrightarrow> unat off < 0x400 \<Longrightarrow> \<exists>a. as_ptr_offset m (unat off) = Inr a"
  by (auto simp: lapic_mapped_def as_ptr_offset_def uadd_def)

lemma lapic_write_eq: "lapic_mapped m \<Longrightarrow> unat off < 0x400 \<Longrightarrow> lapic_write m off v d = Inr (lapic_dev_write off v d)"
  using lapic_ptr [of m off] by (auto simp: lapic_write_def)

lemma lapic_read_eq: "lapic_mapped m \<Longrightarrow> unat off < 0x400 \<Longrightarrow> lapic_read m off d = Inr (lapic_dev_read off d)"
  using lapic_ptr [of m off] by (auto simp: lapic_read_def)

declare lapic_wait.simps [simp del]

lemma lapic_wait_eq: "lapic_mapped m \<Longrightarrow> lapic_wait m d = Inr (d\<lparr>la_busy := 0\<rparr>)"
proof (induction m d rule: lapic_wait.induct)
  case (1 m d)
  obtain d' v where r: "lapic_read m 0x300 d = Inr (d', v)" "(d', v) = lapic_dev_read 0x300 d"
    using lapic_read_eq [OF 1(2), of "0x300" d] by (cases "lapic_dev_read 0x300 d") auto
  show ?case
  proof (cases "v AND push_bit 12 1 = push_bit 12 1")
    case True
    then have "lapic_wait m d' = Inr (d'\<lparr>la_busy := 0\<rparr>)" using 1(1) [OF r(1)] 1(2) by simp
    then show ?thesis using r True by (subst lapic_wait.simps) (auto simp: lapic_dev_read_def)
  next
    case False
    have "bit v 12" if "0 < la_busy d" using r(2) that by (simp add: lapic_dev_read_def bit_simps)
    moreover have "v AND push_bit 12 1 = push_bit 12 1" if "bit v 12"
      by (rule bit_word_eqI) (use that in \<open>auto simp: bit_and_iff bit_push_bit_iff bit_1_iff simp del: push_bit_of_1\<close>)
    ultimately have "la_busy d = 0" using False by blast
    then have "d' = d\<lparr>la_busy := 0\<rparr>" using r(2) by (simp add: lapic_dev_read_def)
    then show ?thesis using r(1) False by (subst lapic_wait.simps) simp
  qed
qed

lemma set_icr_eq:
  "lapic_mapped m \<Longrightarrow> set_icr m v d = Inr ((lapic_dev_write 0x300 (ucast v) (lapic_dev_write 0x310 (ucast (drop_bit 32 v)) d))\<lparr>la_busy := 0\<rparr>)"
  by (simp add: set_icr_def lapic_wait_eq lapic_write_eq) (simp add: lapic_dev_write_def)

lemma ipi_eq:
  assumes "dv_access s = Some m" and "lapic_mapped m"
  shows "\<exists>lo. ipi k t s = Inr (s\<lparr>dv_lapic := (lapic_dev_write 0x300 lo (lapic_dev_write 0x310 0 (dv_lapic s)))\<lparr>la_busy := 0\<rparr>\<rparr>)
     \<and> lo AND 0xFF = ucast (ipi_kind_code k) \<and> drop_bit 18 lo AND 3 = ucast (ipi_target_code t) \<and> drop_bit 8 lo AND 7 = 0"
proof -
  let ?v = "push_bit 18 (ipi_target_code t) OR push_bit 14 1 OR ipi_kind_code k" and ?lo = "ucast (push_bit 18 (ipi_target_code t) OR push_bit 14 1 OR ipi_kind_code k) :: u32"
  have "ucast (drop_bit 32 ?v) = (0 :: u32)" "?lo AND 0xFF = ucast (ipi_kind_code k)"
      "drop_bit 18 ?lo AND 3 = ucast (ipi_target_code t)" "drop_bit 8 ?lo AND 7 = 0"
    by (cases t; cases k; simp add: ipi_target_code_def ipi_kind_code_def)+
  then show ?thesis using assms
    by (intro exI [of _ ?lo]) (simp add: ipi_def local_apic_access_safe_def Let_def set_icr_eq)
qed

lemma on_lapic_eoi: "dv_access s = Some m \<Longrightarrow> lapic_mapped m \<Longrightarrow> on_lapic eoi s = Inr (s\<lparr>dv_lapic := lapic_dev_write 0xB0 0 (dv_lapic s)\<rparr>)"
  by (simp add: on_lapic_def local_apic_access_def eoi_def lapic_write_eq)

lemma lapic_log_write [simp]: "la_log (lapic_dev_write off v d) = la_log d @ [(off, v)]"
  by (simp add: lapic_dev_write_def)

definition ipi_handler :: "ipi_kind \<Rightarrow> handler" where
  "ipi_handler k = (case k of Tlb \<Rightarrow> Ipi_tlb | TimerKind \<Rightarrow> Ipi_timer | Halt \<Rightarrow> Ipi_halt)"

lemma ipi_vector: "map_of (vectors is_bsp) (unat (ipi_kind_code k)) = Some (ipi_handler k)"
  by (cases k; simp add: vectors_def ipi_kind_code_def ipi_handler_def)


text \<open>A device that answers at once and one that needs three polls, at an APIC mapped at 64 KiB.\<close>

definition example_devices :: device_state where
  "example_devices =
     \<lparr>dv_kernel = example_state, dv_ports = [],
      dv_access = Some \<lparr>reg_info = \<lparr>ri_start = 0x10000, ri_limit = 0x11000\<rparr>, reg_offset = 0, reg_length = 0x1000\<rparr>,
      dv_lapic = \<lparr>la_regs = \<lambda>_. 0, la_busy = 0, la_latency = 3, la_log = []\<rparr>, dv_tlb_flushes = 0, dv_screen = []\<rparr>"

lemma example_lapic_mapped: "lapic_mapped \<lparr>reg_info = \<lparr>ri_start = 0x10000, ri_limit = 0x11000\<rparr>, reg_offset = 0, reg_length = 0x1000\<rparr>"
  by (simp add: lapic_mapped_def region_start_def uadd_def usize_limit_def)


text \<open>
  A handler that returns or halts has acknowledged its interrupt to the local APIC exactly
  once and before any other write; the timer of the boot processor then forwards the tick to the
  other CPUs. The handlers of exceptions and of the spurious vector panic.
\<close>

theorem handlers_acknowledge:
  assumes "dv_access s = Some m" and "lapic_mapped m"
  shows "case run_handler h s of
       Inl p \<Rightarrow> h \<notin> {Timer, Ipi_tlb, Ipi_timer, Ipi_halt} \<and> (\<exists>msg. p = PanicMsg msg)
     | Inr (s', out) \<Rightarrow> h \<in> {Timer, Ipi_tlb, Ipi_timer, Ipi_halt} \<and> (out = Halted \<longleftrightarrow> h = Ipi_halt)
         \<and> (\<exists>rest. la_log (dv_lapic s') = la_log (dv_lapic s) @ (0xB0, 0) # rest \<and> (rest = [] \<longleftrightarrow> h \<noteq> Timer) \<and> (\<forall>w \<in> set rest. fst w \<noteq> 0xB0))
         \<and> dv_tlb_flushes s' = dv_tlb_flushes s + (if h = Ipi_tlb then 1 else 0)"
proof (cases "h = Timer")
  case True
  let ?s = "s\<lparr>dv_lapic := lapic_dev_write 0xB0 0 (dv_lapic s)\<rparr>"
  have "dv_access ?s = Some m" using assms(1) by simp
  from ipi_eq [OF this assms(2), of TimerKind OtherTarget] show ?thesis
    using True assms by (auto simp: on_lapic_eoi)
next
  case False
  then show ?thesis using assms by (cases h) (simp_all add: on_lapic_eoi handler_panic_def tlb_flush_all_def)
qed

theorem handlers_acknowledge_witness:
  "\<exists>s' out. run_handler Ipi_tlb example_devices = Inr (s', out) \<and> la_log (dv_lapic s') = [(0xB0, 0)] \<and> dv_tlb_flushes s' = 1"
  using handlers_acknowledge [of example_devices, OF _ example_lapic_mapped, of Ipi_tlb]
  by (auto simp: example_devices_def split: sum.splits prod.splits)

section \<open>Programming the HPET\<close>

text \<open>
  If \<^verbatim>\<open>Hpet::new\<close> does not panic, it has set timer 0 to periodic interrupts, given it the time of
  the first tick and then the period, and only then enabled the HPET in legacy mode.
\<close>

lemma hpet_new_programs_timer:
  assumes "hpet_new h = Inr h'"
    and "fs = unat (drop_bit 32 (hp_answer (hp_device h) (hp_log (hp_device h)) CAPABILITY_OFFSET))"
  shows "0 < fs \<and> (\<exists>current config. unat current + 2250286000000 div fs < usize_limit \<and> hp_log (hp_device h') = hp_log (hp_device h) @
       [(T0_CONFIG_CAPABILITY_OFFSET, 0x4C), (T0_COMPARATOR_OFFSET, current + of_nat (2250286000000 div fs)),
        (T0_COMPARATOR_OFFSET, of_nat (2250286000000 div fs)), (GENERAL_CONFIG_OFFSET, config OR 3)])"
proof -
  have c: "TN_VAL_SET_CNF OR TN_TYPE_CNF OR TN_INT_ENB_CNF = 0x4C" "x OR LEG_RT_CNF OR ENABLE_CNF = x OR 3" for x
    by (simp_all add: TN_VAL_SET_CNF_def TN_TYPE_CNF_def TN_INT_ENB_CNF_def LEG_RT_CNF_def ENABLE_CNF_def or.assoc)
  show ?thesis using assms
    by (auto simp: hpet_new_def hpet_write_def hpet_current_def hpet_read_def Let_def c bindR_eq_Inr uadd_def split: if_splits)
qed

end
