(* ===== verification/Interrupt_Entry.thy ===== *)
theory Interrupt_Entry
  imports Local_Devices
begin

text \<open>
  The assembly that the macros of \<^verbatim>\<open>src/src/interrupts/interrupt_macros.rs\<close> wrap around every handler,
  as lists of instructions run on the registers and the stack, and the structures through which
  the handlers see what was saved.

  The body of a handler is compiled Rust code: a parameter of the execution. Where a property
  needs it, it returns by the calling convention. The processor's side of an interrupt, pushing
  the frame that \<^verbatim>\<open>iretq\<close> takes off again, is the one of the architecture.
\<close>

section \<open>Instructions\<close>

datatype reg = RAX | RBX | RCX | RDX | RSI | RDI | RBP | R8 | R9 | R10 | R11 | R12 | R13 | R14 | R15

record entry_cpu =
  ec_regs :: "reg \<Rightarrow> u64"
  ec_rsp :: u64
  ec_fs :: u16
  ec_fs_base :: u64
  ec_rip :: u64
  ec_cs :: u64
  ec_rflags :: u64
  ec_ss :: u64
  ec_mem :: "u64 \<Rightarrow> u64"

definition push_cell :: "u64 \<Rightarrow> entry_cpu \<Rightarrow> entry_cpu" where
  "push_cell v c = c\<lparr>ec_rsp := ec_rsp c - 8, ec_mem := (ec_mem c)(ec_rsp c - 8 := v)\<rparr>"

definition pop_cell :: "entry_cpu \<Rightarrow> entry_cpu \<times> u64" where
  "pop_cell c = (c\<lparr>ec_rsp := ec_rsp c + 8\<rparr>, ec_mem c (ec_rsp c))"

datatype instr =
    Push reg
  | Pop reg
  | PushFs
  | PopFs
  | MovImm reg u64
  | MovFs reg
  | MovRsp reg
  | XchgTop reg
  | AddRsp u64
  | CallHandler
  | Iretq

text \<open>
  \<open>base_of\<close> is the base in the descriptor that a selector designates, \<open>ret\<close> the address after the
  call. A call that comes back has taken its return address off the stack.
\<close>

fun exec_instr :: "(u16 \<Rightarrow> u64) \<Rightarrow> u64 \<Rightarrow> (entry_cpu \<Rightarrow> entry_cpu res) \<Rightarrow> instr \<Rightarrow> entry_cpu \<Rightarrow> entry_cpu res" where
  "exec_instr base_of ret body (Push r) c = Inr (push_cell (ec_regs c r) c)"
| "exec_instr base_of ret body (Pop r) c =
     (let (c', v) = pop_cell c in Inr (c'\<lparr>ec_regs := (ec_regs c')(r := v)\<rparr>))"
| "exec_instr base_of ret body PushFs c = Inr (push_cell (ucast (ec_fs c)) c)"
| "exec_instr base_of ret body PopFs c =
     (let (c', v) = pop_cell c in Inr (c'\<lparr>ec_fs := ucast v, ec_fs_base := base_of (ucast v)\<rparr>))"
| "exec_instr base_of ret body (MovImm r v) c = Inr (c\<lparr>ec_regs := (ec_regs c)(r := v)\<rparr>)"
| "exec_instr base_of ret body (MovFs r) c =
     Inr (c\<lparr>ec_fs := ucast (ec_regs c r), ec_fs_base := base_of (ucast (ec_regs c r))\<rparr>)"
| "exec_instr base_of ret body (MovRsp r) c = Inr (c\<lparr>ec_regs := (ec_regs c)(r := ec_rsp c)\<rparr>)"
| "exec_instr base_of ret body (XchgTop r) c =
     Inr (c\<lparr>ec_regs := (ec_regs c)(r := ec_mem c (ec_rsp c)), ec_mem := (ec_mem c)(ec_rsp c := ec_regs c r)\<rparr>)"
| "exec_instr base_of ret body (AddRsp n) c = Inr (c\<lparr>ec_rsp := ec_rsp c + n\<rparr>)"
| "exec_instr base_of ret body CallHandler c =
     bindR (body (push_cell ret c)) (\<lambda>c'. Inr (fst (pop_cell c')))"
| "exec_instr base_of ret body Iretq c =
     (let (c1, rip) = pop_cell c;
          (c2, cs) = pop_cell c1;
          (c3, rflags) = pop_cell c2;
          (c4, rsp) = pop_cell c3;
          (c5, ss) = pop_cell c4
      in Inr (c5\<lparr>ec_rip := rip, ec_cs := cs, ec_rflags := rflags, ec_rsp := rsp, ec_ss := ss\<rparr>))"

fun exec :: "(u16 \<Rightarrow> u64) \<Rightarrow> u64 \<Rightarrow> (entry_cpu \<Rightarrow> entry_cpu res) \<Rightarrow> instr list \<Rightarrow> entry_cpu \<Rightarrow> entry_cpu res" where
  "exec base_of ret body [] c = Inr c"
| "exec base_of ret body (i # is) c = bindR (exec_instr base_of ret body i c) (exec base_of ret body is)"

text \<open>The processor takes an interrupt on the stack \<open>sp\<close>, with an error code for some exceptions.\<close>

definition deliver :: "u64 \<Rightarrow> u64 option \<Rightarrow> entry_cpu \<Rightarrow> entry_cpu" where
  "deliver sp err c =
     (let c1 = push_cell (ec_rip c) (push_cell (ec_cs c) (push_cell (ec_rflags c) (push_cell (ec_rsp c)
                 (push_cell (ec_ss c) (c\<lparr>ec_rsp := sp\<rparr>)))))
      in case err of None \<Rightarrow> c1 | Some code \<Rightarrow> push_cell code c1)"

section \<open>The macros\<close>

definition push_scratch :: "instr list" where
  "push_scratch = [Push RCX, Push RDX, Push RDI, Push RSI, Push R8, Push R9, Push R10, Push R11]"

definition pop_scratch :: "instr list" where
  "pop_scratch = [Pop R11, Pop R10, Pop R9, Pop R8, Pop RSI, Pop RDI, Pop RDX, Pop RCX, Pop RAX]"

definition push_preserved :: "instr list" where
  "push_preserved = [Push RBX, Push RBP, Push R12, Push R13, Push R14, Push R15]"

definition pop_preserved :: "instr list" where
  "pop_preserved = [Pop R15, Pop R14, Pop R13, Pop R12, Pop RBP, Pop RBX]"

definition push_fs :: "instr list" where
  "push_fs = [PushFs, MovImm RCX 0x18, MovFs RCX]"

definition pop_fs :: "instr list" where
  "pop_fs = [PopFs]"

definition interrupt_stack_entry :: "instr list" where
  "interrupt_stack_entry =
     [Push RAX] @ push_scratch @ push_preserved @ push_fs @ [MovRsp RDI, CallHandler]
     @ pop_fs @ pop_preserved @ pop_scratch @ [Iretq]"

definition interrupt_entry :: "instr list" where
  "interrupt_entry =
     [Push RAX] @ push_scratch @ push_fs @ [CallHandler] @ pop_fs @ pop_scratch @ [Iretq]"

definition interrupt_error_entry :: "instr list" where
  "interrupt_error_entry =
     [XchgTop RAX] @ push_scratch @ push_preserved @ push_fs @ [Push RAX] @ [MovRsp RDI, CallHandler] @ [AddRsp 8]
     @ pop_fs @ pop_preserved @ pop_scratch @ [Iretq]"

datatype entry_kind = Plain | WithStack | WithError

definition entry_code :: "entry_kind \<Rightarrow> instr list" where
  "entry_code k = (case k of Plain \<Rightarrow> interrupt_entry | WithStack \<Rightarrow> interrupt_stack_entry | WithError \<Rightarrow> interrupt_error_entry)"

text \<open>The macro each handler is declared with.\<close>

fun handler_kind :: "handler \<Rightarrow> entry_kind" where
  "handler_kind Double_fault = WithError"
| "handler_kind Invalid_tss = WithError"
| "handler_kind Segment_not_present = WithError"
| "handler_kind Stack_segment = WithError"
| "handler_kind Protection = WithError"
| "handler_kind Page_fault = WithError"
| "handler_kind Alignment_check = WithError"
| "handler_kind Security = WithError"
| "handler_kind Spurious = Plain"
| "handler_kind Ipi_tlb = Plain"
| "handler_kind Ipi_halt = Plain"
| "handler_kind Ipi_timer = Plain"
| "handler_kind _ = WithStack"

section \<open>The structures handlers see\<close>

record scratch_registers =
  sc_r11 :: u64
  sc_r10 :: u64
  sc_r9 :: u64
  sc_r8 :: u64
  sc_rsi :: u64
  sc_rdi :: u64
  sc_rdx :: u64
  sc_rcx :: u64
  sc_rax :: u64

record preserved_registers =
  pr_r15 :: u64
  pr_r14 :: u64
  pr_r13 :: u64
  pr_r12 :: u64
  pr_rbp :: u64
  pr_rbx :: u64

record iret_registers =
  ir_rip :: u64
  ir_cs :: u64
  ir_rflags :: u64
  ir_rsp :: u64
  ir_ss :: u64

record interrupt_stack =
  is_fs :: u64
  is_preserved :: preserved_registers
  is_scratch :: scratch_registers
  is_iret :: iret_registers

record interrupt_error_stack =
  ie_code :: u64
  ie_inner :: interrupt_stack

text \<open>Packed structures in memory: the fields follow each other in the order of declaration.\<close>

definition preserved_at :: "(u64 \<Rightarrow> u64) \<Rightarrow> u64 \<Rightarrow> preserved_registers" where
  "preserved_at m p =
     \<lparr>pr_r15 = m p, pr_r14 = m (p + 8), pr_r13 = m (p + 16), pr_r12 = m (p + 24), pr_rbp = m (p + 32), pr_rbx = m (p + 40)\<rparr>"

definition scratch_at :: "(u64 \<Rightarrow> u64) \<Rightarrow> u64 \<Rightarrow> scratch_registers" where
  "scratch_at m p =
     \<lparr>sc_r11 = m p, sc_r10 = m (p + 8), sc_r9 = m (p + 16), sc_r8 = m (p + 24), sc_rsi = m (p + 32), sc_rdi = m (p + 40),
      sc_rdx = m (p + 48), sc_rcx = m (p + 56), sc_rax = m (p + 64)\<rparr>"

definition iret_at :: "(u64 \<Rightarrow> u64) \<Rightarrow> u64 \<Rightarrow> iret_registers" where
  "iret_at m p = \<lparr>ir_rip = m p, ir_cs = m (p + 8), ir_rflags = m (p + 16), ir_rsp = m (p + 24), ir_ss = m (p + 32)\<rparr>"

definition interrupt_stack_at :: "(u64 \<Rightarrow> u64) \<Rightarrow> u64 \<Rightarrow> interrupt_stack" where
  "interrupt_stack_at m p =
     \<lparr>is_fs = m p, is_preserved = preserved_at m (p + 8), is_scratch = scratch_at m (p + 56), is_iret = iret_at m (p + 128)\<rparr>"

definition interrupt_error_stack_at :: "(u64 \<Rightarrow> u64) \<Rightarrow> u64 \<Rightarrow> interrupt_error_stack" where
  "interrupt_error_stack_at m p = \<lparr>ie_code = m p, ie_inner = interrupt_stack_at m (p + 8)\<rparr>"

section \<open>The stack as a list\<close>

definition frame_at :: "entry_cpu \<Rightarrow> u64 list \<Rightarrow> bool" where
  "frame_at c vs \<longleftrightarrow> length vs \<le> 64 \<and> (\<forall>i < length vs. ec_mem c (ec_rsp c + 8 * of_nat i) = vs ! i)"

lemma cell_distinct: "i < 64 \<Longrightarrow> 8 * (of_nat (Suc i) :: u64) \<noteq> 0"
proof
  assume i: "i < 64" "8 * (of_nat (Suc i) :: u64) = 0"
  have "unat (of_nat (8 * Suc i) :: u64) = 8 * Suc i" unfolding unat_of_nat using i(1) by simp
  moreover have "(of_nat (8 * Suc i) :: u64) = 0" unfolding of_nat_mult using i(2) by simp
  ultimately show False by simp
qed

lemma frame_push: "frame_at c vs \<Longrightarrow> length vs < 64 \<Longrightarrow> frame_at (push_cell v c) (v # vs)"
  unfolding frame_at_def
proof (intro conjI allI impI)
  fix i
  assume f: "length vs \<le> 64 \<and> (\<forall>i < length vs. ec_mem c (ec_rsp c + 8 * of_nat i) = vs ! i)" and l: "length vs < 64" and i: "i < length (v # vs)"
  show "ec_mem (push_cell v c) (ec_rsp (push_cell v c) + 8 * of_nat i) = (v # vs) ! i"
  proof (cases i)
    case 0
    then show ?thesis by (simp add: push_cell_def)
  next
    case (Suc j)
    have a: "ec_rsp c - 8 + 8 * of_nat (Suc j) = ec_rsp c + 8 * of_nat j" by (simp add: algebra_simps)
    have "8 * (of_nat (Suc j) :: u64) \<noteq> 0" using cell_distinct [of j] i l Suc by simp
    then have "ec_rsp c - 8 + 8 * of_nat (Suc j) \<noteq> ec_rsp c - 8" by (simp del: of_nat_Suc)
    then have n: "ec_rsp c + 8 * of_nat j \<noteq> ec_rsp c - 8" unfolding a .
    have "ec_mem (push_cell v c) (ec_rsp (push_cell v c) + 8 * of_nat i) = ((ec_mem c)(ec_rsp c - 8 := v)) (ec_rsp c + 8 * of_nat j)"
      unfolding Suc a [symmetric] by (simp add: push_cell_def)
    then show ?thesis using f i Suc n by (simp only: fun_upd_other nth_Cons_Suc) simp
  qed
qed simp

lemma frame_pop:
  assumes "frame_at c (v # vs)"
  shows "ec_mem c (ec_rsp c) = v" and "frame_at (c\<lparr>ec_rsp := ec_rsp c + 8\<rparr>) vs"
proof -
  have m: "ec_mem c (ec_rsp c + 8 * of_nat i) = (v # vs) ! i" if "i < length (v # vs)" for i using assms that by (simp add: frame_at_def)
  show "ec_mem c (ec_rsp c) = v" using m [of 0] by simp
  have a: "ec_rsp c + 8 + 8 * of_nat i = ec_rsp c + 8 * of_nat (Suc i)" for i by (simp add: algebra_simps)
  have "ec_mem c (ec_rsp c + 8 + 8 * of_nat i) = vs ! i" if "i < length vs" for i
    unfolding a using m [of "Suc i"] that by simp
  then show "frame_at (c\<lparr>ec_rsp := ec_rsp c + 8\<rparr>) vs" using assms by (simp add: frame_at_def)
qed

lemma frame_cong: "ec_mem c' = ec_mem c \<Longrightarrow> ec_rsp c' = ec_rsp c \<Longrightarrow> frame_at c' vs = frame_at c vs"
  by (simp add: frame_at_def)

lemma frame_top: "frame_at c (v # vs) \<Longrightarrow> frame_at (c\<lparr>ec_mem := (ec_mem c)(ec_rsp c := w)\<rparr>) (w # vs)"
  unfolding frame_at_def
proof (intro conjI allI impI)
  fix i
  assume f: "length (v # vs) \<le> 64 \<and> (\<forall>i < length (v # vs). ec_mem c (ec_rsp c + 8 * of_nat i) = (v # vs) ! i)" and i: "i < length (w # vs)"
  show "ec_mem (c\<lparr>ec_mem := (ec_mem c)(ec_rsp c := w)\<rparr>) (ec_rsp (c\<lparr>ec_mem := (ec_mem c)(ec_rsp c := w)\<rparr>) + 8 * of_nat i) = (w # vs) ! i"
  proof (cases i)
    case 0
    then show ?thesis by simp
  next
    case (Suc j)
    then have "8 * (of_nat i :: u64) \<noteq> 0" using cell_distinct [of j] f i by (simp del: of_nat_Suc)
    then show ?thesis using f i Suc by (simp del: of_nat_Suc)
  qed
qed simp

section \<open>Runs of pushes and pops\<close>

lemma exec_append: "exec b ret body (is @ js) c = bindR (exec b ret body is c) (exec b ret body js)"
  by (induction "is" arbitrary: c) (auto simp: bindR_assoc intro!: bindR_cong)

lemma exec_pushes:
  assumes "frame_at c vs" and "length rs + length vs \<le> 64"
  shows "\<exists>m. exec b ret body (map Push rs) c = Inr (c\<lparr>ec_rsp := ec_rsp c - 8 * of_nat (length rs), ec_mem := m\<rparr>)
     \<and> frame_at (c\<lparr>ec_rsp := ec_rsp c - 8 * of_nat (length rs), ec_mem := m\<rparr>) (rev (map (ec_regs c) rs) @ vs)"
  using assms
proof (induction rs arbitrary: c vs)
  case Nil
  then show ?case by (intro exI [of _ "ec_mem c"]) simp
next
  case (Cons r rs)
  let ?c = "push_cell (ec_regs c r) c"
  have "frame_at ?c (ec_regs c r # vs)" using Cons.prems by (intro frame_push) auto
  then obtain m where m: "exec b ret body (map Push rs) ?c = Inr (?c\<lparr>ec_rsp := ec_rsp ?c - 8 * of_nat (length rs), ec_mem := m\<rparr>)"
      "frame_at (?c\<lparr>ec_rsp := ec_rsp ?c - 8 * of_nat (length rs), ec_mem := m\<rparr>) (rev (map (ec_regs ?c) rs) @ ec_regs c r # vs)"
    using Cons.IH [of ?c "ec_regs c r # vs"] Cons.prems(2) by auto
  have e: "?c\<lparr>ec_rsp := ec_rsp ?c - 8 * of_nat (length rs), ec_mem := m\<rparr> = c\<lparr>ec_rsp := ec_rsp c - 8 * of_nat (length (r # rs)), ec_mem := m\<rparr>"
    by (simp add: push_cell_def algebra_simps)
  have "ec_regs ?c = ec_regs c" by (simp add: push_cell_def)
  then show ?case using m unfolding e by (intro exI [of _ m]) simp
qed

lemma exec_pops:
  assumes "frame_at c (vals @ vs)" and "length vals = length rs" and "distinct rs"
  shows "\<exists>c'. exec b ret body (map Pop rs) c = Inr c' \<and> frame_at c' vs
     \<and> c' = c\<lparr>ec_rsp := ec_rsp c + 8 * of_nat (length rs), ec_regs := \<lambda>r. case map_of (zip rs vals) r of Some v \<Rightarrow> v | None \<Rightarrow> ec_regs c r\<rparr>"
  using assms
proof (induction rs arbitrary: c vals)
  case Nil
  then show ?case by simp
next
  case (Cons r rs)
  obtain v ws where v: "vals = v # ws" using Cons.prems(2) by (cases vals) auto
  let ?c = "c\<lparr>ec_rsp := ec_rsp c + 8, ec_regs := (ec_regs c)(r := v)\<rparr>"
  have f: "ec_mem c (ec_rsp c) = v" "frame_at (c\<lparr>ec_rsp := ec_rsp c + 8\<rparr>) (ws @ vs)"
    using frame_pop [of c v "ws @ vs"] Cons.prems(1) v by auto
  then have "frame_at ?c (ws @ vs)" by (simp add: frame_at_def)
  then obtain c' where c': "exec b ret body (map Pop rs) ?c = Inr c'" "frame_at c' vs"
      "c' = ?c\<lparr>ec_rsp := ec_rsp ?c + 8 * of_nat (length rs), ec_regs := \<lambda>r. case map_of (zip rs ws) r of Some v \<Rightarrow> v | None \<Rightarrow> ec_regs ?c r\<rparr>"
    using Cons.IH [of ?c ws] Cons.prems(2,3) v by auto
  have "map_of (zip rs ws) r = None" using Cons.prems(2,3) v by simp
  then have r: "(\<lambda>q. case map_of (zip rs ws) q of Some v \<Rightarrow> v | None \<Rightarrow> ec_regs ?c q) =
      (\<lambda>q. case map_of (zip (r # rs) vals) q of Some v \<Rightarrow> v | None \<Rightarrow> ec_regs c q)"
    using v by (auto split: option.splits)
  have "exec b ret body (map Pop (r # rs)) c = Inr c'" using f(1) c'(1) by (simp add: pop_cell_def)
  then show ?case using c'(2) unfolding c'(3) r by (intro exI conjI) (auto simp: algebra_simps)
qed

section \<open>Saving, calling and restoring\<close>

definition iret_frame :: "entry_cpu \<Rightarrow> u64 list" where
  "iret_frame c = [ec_rip c, ec_cs c, ec_rflags c, ec_rsp c, ec_ss c]"

lemma deliver_frame:
  "\<exists>p m. deliver sp err c = c\<lparr>ec_rsp := p, ec_mem := m\<rparr>
     \<and> frame_at (c\<lparr>ec_rsp := p, ec_mem := m\<rparr>) ((case err of None \<Rightarrow> [] | Some code \<Rightarrow> [code]) @ iret_frame c)"
proof -
  have f: "frame_at (c\<lparr>ec_rsp := sp\<rparr>) []" by (simp add: frame_at_def)
  note p = frame_push [OF frame_push [OF frame_push [OF frame_push [OF frame_push [OF f]]]], of "ec_ss c" "ec_rsp c" "ec_rflags c" "ec_cs c" "ec_rip c"]
  have "frame_at (deliver sp err c) ((case err of None \<Rightarrow> [] | Some code \<Rightarrow> [code]) @ iret_frame c)"
    using p by (cases err) (auto simp: deliver_def iret_frame_def intro: frame_push)
  moreover have "\<exists>p m. deliver sp err c = c\<lparr>ec_rsp := p, ec_mem := m\<rparr>"
    by (cases err) (auto simp: deliver_def push_cell_def)
  ultimately show ?thesis by metis
qed

lemma exec_save:
  assumes "frame_at d vs" and "length rs + length vs < 64"
  shows "\<exists>p m. exec b ret body (map Push rs @ push_fs) d =
       Inr (d\<lparr>ec_rsp := p, ec_mem := m, ec_regs := (ec_regs d)(RCX := 0x18), ec_fs := 0x18, ec_fs_base := b 0x18\<rparr>)
     \<and> (\<forall>R. frame_at (d\<lparr>ec_rsp := p, ec_mem := m, ec_regs := R, ec_fs := 0x18, ec_fs_base := b 0x18\<rparr>)
          (ucast (ec_fs d) # rev (map (ec_regs d) rs) @ vs))"
proof -
  obtain m where m: "exec b ret body (map Push rs) d = Inr (d\<lparr>ec_rsp := ec_rsp d - 8 * of_nat (length rs), ec_mem := m\<rparr>)"
      "frame_at (d\<lparr>ec_rsp := ec_rsp d - 8 * of_nat (length rs), ec_mem := m\<rparr>) (rev (map (ec_regs d) rs) @ vs)"
    using exec_pushes [OF assms(1), of rs b ret body] assms(2) by auto
  let ?d = "d\<lparr>ec_rsp := ec_rsp d - 8 * of_nat (length rs), ec_mem := m\<rparr>"
  have "frame_at (push_cell (ucast (ec_fs d)) ?d) (ucast (ec_fs d) # rev (map (ec_regs d) rs) @ vs)"
    using m(2) assms(2) by (intro frame_push) auto
  then show ?thesis using m(1)
    by (intro exI [of _ "ec_rsp (push_cell (ucast (ec_fs d)) ?d)"] exI [of _ "ec_mem (push_cell (ucast (ec_fs d)) ?d)"])
      (auto simp: exec_append push_fs_def push_cell_def frame_at_def)
qed

lemma selector_widen [simp]: "ucast (ucast (F :: u16) :: u64) = F"
  by (rule bit_word_eqI) (simp add: bit_simps)

lemma exec_restore:
  assumes "frame_at d (ucast F # vals @ [rip, cs, rflags, rsp, ss])" and "length vals = length rs" and "distinct rs"
  shows "exec b ret body (pop_fs @ map Pop rs @ [Iretq]) d =
     Inr (d\<lparr>ec_fs := F, ec_fs_base := b F, ec_regs := \<lambda>r. case map_of (zip rs vals) r of Some v \<Rightarrow> v | None \<Rightarrow> ec_regs d r,
       ec_rip := rip, ec_cs := cs, ec_rflags := rflags, ec_rsp := rsp, ec_ss := ss\<rparr>)"
proof -
  let ?d = "d\<lparr>ec_rsp := ec_rsp d + 8, ec_fs := F, ec_fs_base := b F\<rparr>"
  note f = frame_pop [OF assms(1)]
  have p: "exec b ret body pop_fs d = Inr ?d" using f(1) by (simp add: pop_fs_def pop_cell_def)
  have "frame_at ?d (vals @ [rip, cs, rflags, rsp, ss])" using f(2) by (simp add: frame_at_def)
  then obtain e where e: "exec b ret body (map Pop rs) ?d = Inr e" "frame_at e [rip, cs, rflags, rsp, ss]"
      "e = ?d\<lparr>ec_rsp := ec_rsp ?d + 8 * of_nat (length rs), ec_regs := \<lambda>r. case map_of (zip rs vals) r of Some v \<Rightarrow> v | None \<Rightarrow> ec_regs ?d r\<rparr>"
    using exec_pops [OF _ assms(2,3)] by blast
  have i: "i < 5 \<Longrightarrow> ec_mem e (ec_rsp e + 8 * of_nat i) = [rip, cs, rflags, rsp, ss] ! i" for i using e(2) by (simp add: frame_at_def)
  have "exec b ret body [Iretq] e = Inr (e\<lparr>ec_rip := rip, ec_cs := cs, ec_rflags := rflags, ec_rsp := rsp, ec_ss := ss\<rparr>)"
    using i [of 0] i [of 1] i [of 2] i [of 3] i [of 4] by (simp add: pop_cell_def add.assoc)
  then show ?thesis using p e(1,3) by (simp add: exec_append cong: option.case_cong)
qed

text \<open>A body that returns by the System V calling convention and leaves the frames above it alone.\<close>

definition callee_saved :: "reg set" where
  "callee_saved = {RBX, RBP, R12, R13, R14, R15}"

definition returns_by_abi :: "(entry_cpu \<Rightarrow> entry_cpu res) \<Rightarrow> bool" where
  "returns_by_abi body \<longleftrightarrow> (\<forall>c. \<exists>c'. body c = Inr c' \<and> ec_rsp c' = ec_rsp c \<and> (\<forall>r \<in> callee_saved. ec_regs c' r = ec_regs c r)
     \<and> (\<forall>i < 64. ec_mem c' (ec_rsp c + 8 * of_nat i) = ec_mem c (ec_rsp c + 8 * of_nat i)))"

lemma exec_call:
  assumes "returns_by_abi body" and "frame_at d vs" and "length vs < 64"
  shows "\<exists>d'. exec b ret body [CallHandler] d = Inr d' \<and> frame_at d' vs \<and> (\<forall>r \<in> callee_saved. ec_regs d' r = ec_regs d r)"
proof -
  let ?d = "push_cell ret d"
  obtain c' where c': "body ?d = Inr c'" "ec_rsp c' = ec_rsp ?d" "\<forall>r \<in> callee_saved. ec_regs c' r = ec_regs ?d r"
      "\<forall>i < 64. ec_mem c' (ec_rsp ?d + 8 * of_nat i) = ec_mem ?d (ec_rsp ?d + 8 * of_nat i)"
    using assms(1) unfolding returns_by_abi_def by blast
  have "frame_at ?d (ret # vs)" using frame_push [OF assms(2,3)] .
  then have "frame_at c' (ret # vs)" using c'(2,4) by (simp add: frame_at_def)
  then have "frame_at (fst (pop_cell c')) vs" using frame_pop(2) by (simp add: pop_cell_def)
  then show ?thesis using c'(1,3) by (intro exI [of _ "fst (pop_cell c')"]) (auto simp: pop_cell_def push_cell_def)
qed

definition same_context :: "entry_cpu \<Rightarrow> entry_cpu \<Rightarrow> bool" where
  "same_context c c' \<longleftrightarrow> ec_regs c' = ec_regs c \<and> ec_rsp c' = ec_rsp c \<and> ec_rip c' = ec_rip c \<and> ec_cs c' = ec_cs c
     \<and> ec_rflags c' = ec_rflags c \<and> ec_ss c' = ec_ss c \<and> ec_fs c' = ec_fs c"

definition SCRATCH :: "reg list" where
  "SCRATCH = [RCX, RDX, RDI, RSI, R8, R9, R10, R11]"

definition PRESERVED :: "reg list" where
  "PRESERVED = [RBX, RBP, R12, R13, R14, R15]"

lemma entries:
  "interrupt_entry = (map Push (RAX # SCRATCH) @ push_fs) @ [CallHandler] @ (pop_fs @ map Pop (rev (RAX # SCRATCH)) @ [Iretq])"
  "interrupt_stack_entry = (map Push (RAX # SCRATCH @ PRESERVED) @ push_fs) @ [MovRsp RDI] @ [CallHandler]
     @ (pop_fs @ map Pop (rev (RAX # SCRATCH @ PRESERVED)) @ [Iretq])"
  "interrupt_error_entry = [XchgTop RAX] @ (map Push (SCRATCH @ PRESERVED) @ push_fs) @ [Push RAX, MovRsp RDI] @ [CallHandler] @ [AddRsp 8]
     @ (pop_fs @ map Pop (rev (RAX # SCRATCH @ PRESERVED)) @ [Iretq])"
  by (simp_all add: interrupt_entry_def interrupt_stack_entry_def interrupt_error_entry_def push_scratch_def pop_scratch_def
      push_preserved_def pop_preserved_def SCRATCH_def PRESERVED_def)

lemma all_regs: "(\<forall>r. P r) \<longleftrightarrow> P RAX \<and> (\<forall>r \<in> set SCRATCH. P r) \<and> (\<forall>r \<in> callee_saved. P r)"
proof (intro iffI allI)
  fix r
  assume "P RAX \<and> (\<forall>r \<in> set SCRATCH. P r) \<and> (\<forall>r \<in> callee_saved. P r)"
  then show "P r" by (cases r) (auto simp: SCRATCH_def callee_saved_def)
qed auto

lemma distinct_saved: "distinct (rev (RAX # SCRATCH @ PRESERVED))" "distinct (rev (RAX # SCRATCH))"
  by (simp_all add: SCRATCH_def PRESERVED_def)

lemma restored:
  "distinct rs \<Longrightarrow> (\<lambda>r. case map_of (zip (rev rs) (rev (map R rs))) r of Some v \<Rightarrow> v | None \<Rightarrow> Q r) = (\<lambda>r. if r \<in> set rs then R r else Q r)"
proof
  fix r
  assume d: "distinct rs"
  have z: "zip (rev rs) (rev (map R rs)) = map (\<lambda>r. (r, R r)) (rev rs)" by (simp add: rev_map zip_map2 zip_same_conv_map)
  show "(case map_of (zip (rev rs) (rev (map R rs))) r of Some v \<Rightarrow> v | None \<Rightarrow> Q r) = (if r \<in> set rs then R r else Q r)"
    unfolding z by (simp add: map_of_map_restrict restrict_map_def)
qed

text \<open>From any point where the frame is on the stack: the call and the way out.\<close>

lemma call_and_restore:
  assumes "returns_by_abi body" and "frame_at d (ucast F # rev (map R rs) @ [rip, cs, rflags, rsp, ss])" and "distinct rs" and "length rs < 50"
    and "\<forall>r. r \<notin> set rs \<longrightarrow> r \<in> callee_saved \<and> ec_regs d r = R r"
  shows "\<exists>c'. exec b ret body ([CallHandler] @ (pop_fs @ map Pop (rev rs) @ [Iretq])) d = Inr c' \<and> ec_regs c' = R \<and> ec_fs c' = F
     \<and> ec_rip c' = rip \<and> ec_cs c' = cs \<and> ec_rflags c' = rflags \<and> ec_rsp c' = rsp \<and> ec_ss c' = ss \<and> ec_fs_base c' = b F"
proof -
  obtain d' where d': "exec b ret body [CallHandler] d = Inr d'" "frame_at d' (ucast F # rev (map R rs) @ [rip, cs, rflags, rsp, ss])"
      "\<forall>r \<in> callee_saved. ec_regs d' r = ec_regs d r"
    using exec_call [OF assms(1,2), of b ret] assms(4) by auto
  have r: "(\<lambda>r. if r \<in> set rs then R r else ec_regs d' r) = R" using assms(5) d'(3) by auto
  have "exec b ret body (pop_fs @ map Pop (rev rs) @ [Iretq]) d' = Inr (d'\<lparr>ec_fs := F, ec_fs_base := b F, ec_regs := R,
       ec_rip := rip, ec_cs := cs, ec_rflags := rflags, ec_rsp := rsp, ec_ss := ss\<rparr>)"
    using exec_restore [OF d'(2), of "rev rs" b ret body] assms(3) unfolding restored [OF assms(3)] r by simp
  then show ?thesis unfolding exec_append [of b ret body "[CallHandler]"] d'(1) by simp
qed

text \<open>The vectors for which the processor pushes an error code.\<close>

definition pushes_error_code :: "nat \<Rightarrow> bool" where
  "pushes_error_code v \<longleftrightarrow> v \<in> {8, 10, 11, 12, 13, 14, 17, 21, 29, 30}"

lemma kind_matches_vector:
  "(v, h) \<in> set (vectors is_bsp) \<Longrightarrow> handler_kind h = WithError \<longleftrightarrow> pushes_error_code v"
  by (auto simp: vectors_def pushes_error_code_def split: if_splits)

lemma run_plain:
  assumes "returns_by_abi body"
  shows "\<exists>c'. exec b ret body interrupt_entry (deliver sp None c) = Inr c' \<and> same_context c c' \<and> ec_fs_base c' = b (ec_fs c)"
proof -
  obtain p m where d: "deliver sp None c = c\<lparr>ec_rsp := p, ec_mem := m\<rparr>" "frame_at (c\<lparr>ec_rsp := p, ec_mem := m\<rparr>) (iret_frame c)"
    using deliver_frame [of sp None c] by auto
  obtain q n where s: "exec b ret body (map Push (RAX # SCRATCH) @ push_fs) (c\<lparr>ec_rsp := p, ec_mem := m\<rparr>) =
       Inr (c\<lparr>ec_rsp := q, ec_mem := n, ec_regs := (ec_regs c)(RCX := 0x18), ec_fs := 0x18, ec_fs_base := b 0x18\<rparr>)"
      "frame_at (c\<lparr>ec_rsp := q, ec_mem := n, ec_regs := (ec_regs c)(RCX := 0x18), ec_fs := 0x18, ec_fs_base := b 0x18\<rparr>)
          (ucast (ec_fs c) # rev (map (ec_regs c) (RAX # SCRATCH)) @ iret_frame c)"
    using exec_save [OF d(2), of "RAX # SCRATCH" b ret body] by (auto simp: iret_frame_def SCRATCH_def)
  have out: "\<forall>r. r \<notin> set (RAX # SCRATCH) \<longrightarrow> r \<in> callee_saved \<and> ((ec_regs c)(RCX := 0x18)) r = ec_regs c r"
    unfolding all_regs by (auto simp: SCRATCH_def)
  show ?thesis
    unfolding entries(1) d(1) exec_append [of b ret body "map Push (RAX # SCRATCH) @ push_fs"] s(1) bindR_Inr
    using call_and_restore [OF assms s(2) [unfolded iret_frame_def], of b ret] out
    by (auto simp: SCRATCH_def same_context_def)
qed

text \<open>What a handler should see: the registers of the interrupted code.\<close>

definition saved_registers :: "entry_cpu \<Rightarrow> interrupt_stack" where
  "saved_registers c =
     \<lparr>is_fs = ucast (ec_fs c),
      is_preserved = \<lparr>pr_r15 = ec_regs c R15, pr_r14 = ec_regs c R14, pr_r13 = ec_regs c R13, pr_r12 = ec_regs c R12,
        pr_rbp = ec_regs c RBP, pr_rbx = ec_regs c RBX\<rparr>,
      is_scratch = \<lparr>sc_r11 = ec_regs c R11, sc_r10 = ec_regs c R10, sc_r9 = ec_regs c R9, sc_r8 = ec_regs c R8,
        sc_rsi = ec_regs c RSI, sc_rdi = ec_regs c RDI, sc_rdx = ec_regs c RDX, sc_rcx = ec_regs c RCX, sc_rax = ec_regs c RAX\<rparr>,
      is_iret = \<lparr>ir_rip = ec_rip c, ir_cs = ec_cs c, ir_rflags = ec_rflags c, ir_rsp = ec_rsp c, ir_ss = ec_ss c\<rparr>\<rparr>"

definition full_frame :: "entry_cpu \<Rightarrow> u64 list" where
  "full_frame c = ucast (ec_fs c) # rev (map (ec_regs c) (RAX # SCRATCH @ PRESERVED)) @ iret_frame c"

lemma frame_cells: "frame_at d vs \<Longrightarrow> map (\<lambda>i. ec_mem d (ec_rsp d + 8 * of_nat i)) [0..<length vs] = vs"
  by (rule nth_equalityI) (auto simp: frame_at_def)

lemma frame_struct:
  assumes "frame_at d (full_frame c)"
  shows "interrupt_stack_at (ec_mem d) (ec_rsp d) = saved_registers c"
proof -
  have l: "length (full_frame c) = 21" by (simp add: full_frame_def SCRATCH_def PRESERVED_def iret_frame_def)
  show ?thesis using frame_cells [OF assms] unfolding l
    by (simp add: interrupt_stack_at_def preserved_at_def scratch_at_def iret_at_def saved_registers_def full_frame_def
        SCRATCH_def PRESERVED_def iret_frame_def upt_rec) (simp add: add.commute)
qed

text \<open>The two entries that pass a pointer, up to the call.\<close>

lemma enter_stack:
  "\<exists>d. exec b ret body ((map Push (RAX # SCRATCH @ PRESERVED) @ push_fs) @ [MovRsp RDI]) (deliver sp None c) = Inr d
     \<and> frame_at d (full_frame c) \<and> ec_regs d RDI = ec_rsp d \<and> ec_fs_base d = b 0x18"
proof -
  obtain p m where d: "deliver sp None c = c\<lparr>ec_rsp := p, ec_mem := m\<rparr>" "frame_at (c\<lparr>ec_rsp := p, ec_mem := m\<rparr>) (iret_frame c)"
    using deliver_frame [of sp None c] by auto
  obtain q n where s: "exec b ret body (map Push (RAX # SCRATCH @ PRESERVED) @ push_fs) (c\<lparr>ec_rsp := p, ec_mem := m\<rparr>) =
       Inr (c\<lparr>ec_rsp := q, ec_mem := n, ec_regs := (ec_regs c)(RCX := 0x18), ec_fs := 0x18, ec_fs_base := b 0x18\<rparr>)"
      "frame_at (c\<lparr>ec_rsp := q, ec_mem := n, ec_regs := (ec_regs c)(RCX := 0x18), ec_fs := 0x18, ec_fs_base := b 0x18\<rparr>) (full_frame c)"
    using exec_save [OF d(2), of "RAX # SCRATCH @ PRESERVED" b ret body]
    by (auto simp: iret_frame_def SCRATCH_def PRESERVED_def full_frame_def)
  show ?thesis unfolding d(1) exec_append [of b ret body "map Push (RAX # SCRATCH @ PRESERVED) @ push_fs"] s(1)
    using s(2) by (auto simp: frame_at_def)
qed

lemma enter_error:
  "\<exists>d. exec b ret body ([XchgTop RAX] @ (map Push (SCRATCH @ PRESERVED) @ push_fs) @ [Push RAX, MovRsp RDI]) (deliver sp (Some code) c) = Inr d
     \<and> frame_at d (code # full_frame c) \<and> ec_regs d RDI = ec_rsp d \<and> ec_fs_base d = b 0x18"
proof -
  obtain p m where d: "deliver sp (Some code) c = c\<lparr>ec_rsp := p, ec_mem := m\<rparr>" "frame_at (c\<lparr>ec_rsp := p, ec_mem := m\<rparr>) (code # iret_frame c)"
    using deliver_frame [of sp "Some code" c] by auto
  let ?x = "c\<lparr>ec_rsp := p, ec_mem := m(p := ec_regs c RAX), ec_regs := (ec_regs c)(RAX := code)\<rparr>"
  have x: "exec b ret body [XchgTop RAX] (c\<lparr>ec_rsp := p, ec_mem := m\<rparr>) = Inr ?x"
    using frame_pop(1) [OF d(2)] by simp
  have f: "frame_at ?x (ec_regs c RAX # iret_frame c)" using frame_top [OF d(2), of "ec_regs c RAX"] by (simp add: frame_at_def)
  have l: "length (SCRATCH @ PRESERVED) + length (ec_regs c RAX # iret_frame c) < 64" by (simp add: iret_frame_def SCRATCH_def PRESERVED_def)
  obtain q n where s: "exec b ret body (map Push (SCRATCH @ PRESERVED) @ push_fs) ?x =
       Inr (?x\<lparr>ec_rsp := q, ec_mem := n, ec_regs := (ec_regs ?x)(RCX := 0x18), ec_fs := 0x18, ec_fs_base := b 0x18\<rparr>)"
      "frame_at (?x\<lparr>ec_rsp := q, ec_mem := n, ec_regs := (ec_regs ?x)(RCX := 0x18), ec_fs := 0x18, ec_fs_base := b 0x18\<rparr>)
         (ucast (ec_fs ?x) # rev (map (ec_regs ?x) (SCRATCH @ PRESERVED)) @ ec_regs c RAX # iret_frame c)"
    using exec_save [OF f l, of b ret body] by blast
  let ?y = "?x\<lparr>ec_rsp := q, ec_mem := n, ec_regs := (ec_regs ?x)(RCX := 0x18), ec_fs := 0x18, ec_fs_base := b 0x18\<rparr>"
  have "frame_at ?y (full_frame c)" using s(2) by (simp add: full_frame_def SCRATCH_def PRESERVED_def)
  then have "frame_at (push_cell code ?y) (code # full_frame c)"
    by (rule frame_push) (simp add: full_frame_def SCRATCH_def PRESERVED_def iret_frame_def)
  moreover have "exec b ret body [Push RAX, MovRsp RDI] ?y = Inr ((push_cell code ?y)\<lparr>ec_regs := (ec_regs (push_cell code ?y))(RDI := ec_rsp (push_cell code ?y))\<rparr>)"
    by simp
  ultimately show ?thesis
    unfolding d(1) exec_append [of b ret body "[XchgTop RAX]"] x bindR_Inr exec_append [of b ret body "map Push (SCRATCH @ PRESERVED) @ push_fs"] s(1)
    by (auto simp: frame_at_def push_cell_def)
qed

lemma leave_full:
  assumes "returns_by_abi body" and "frame_at d (full_frame c)"
  shows "\<exists>c'. exec b ret body ([CallHandler] @ (pop_fs @ map Pop (rev (RAX # SCRATCH @ PRESERVED)) @ [Iretq])) d = Inr c'
     \<and> same_context c c' \<and> ec_fs_base c' = b (ec_fs c)"
proof -
  have "\<forall>r. r \<notin> set (RAX # SCRATCH @ PRESERVED) \<longrightarrow> r \<in> callee_saved \<and> ec_regs d r = ec_regs c r"
    unfolding all_regs by (auto simp: SCRATCH_def PRESERVED_def callee_saved_def)
  moreover have "distinct (RAX # SCRATCH @ PRESERVED)" "length (RAX # SCRATCH @ PRESERVED) < 50"
    by (simp_all add: SCRATCH_def PRESERVED_def)
  ultimately show ?thesis
    using call_and_restore [OF assms(1) assms(2) [unfolded full_frame_def iret_frame_def], of b ret] by (auto simp: same_context_def)
qed

lemma run_stack:
  assumes "returns_by_abi body"
  shows "\<exists>c'. exec b ret body interrupt_stack_entry (deliver sp None c) = Inr c' \<and> same_context c c' \<and> ec_fs_base c' = b (ec_fs c)"
proof -
  obtain d where d: "exec b ret body ((map Push (RAX # SCRATCH @ PRESERVED) @ push_fs) @ [MovRsp RDI]) (deliver sp None c) = Inr d"
      "frame_at d (full_frame c)"
    using enter_stack by blast
  have e: "interrupt_stack_entry = ((map Push (RAX # SCRATCH @ PRESERVED) @ push_fs) @ [MovRsp RDI]) @
      ([CallHandler] @ (pop_fs @ map Pop (rev (RAX # SCRATCH @ PRESERVED)) @ [Iretq]))"
    unfolding entries(2) by (simp only: append_assoc)
  show ?thesis unfolding e exec_append [of b ret body "(map Push (RAX # SCRATCH @ PRESERVED) @ push_fs) @ [MovRsp RDI]"] d(1) bindR_Inr
    by (rule leave_full [OF assms d(2)])
qed

lemma call_with_code:
  assumes "returns_by_abi body" and "frame_at d (code # full_frame c)"
  shows "\<exists>c'. exec b ret body ([CallHandler] @ [AddRsp 8] @ (pop_fs @ map Pop (rev (RAX # SCRATCH @ PRESERVED)) @ [Iretq])) d = Inr c'
     \<and> same_context c c' \<and> ec_fs_base c' = b (ec_fs c)"
proof -
  obtain d' where d': "exec b ret body [CallHandler] d = Inr d'" "frame_at d' (code # full_frame c)"
    using exec_call [OF assms, of b ret] by (auto simp: full_frame_def SCRATCH_def PRESERVED_def iret_frame_def)
  have f: "frame_at (d'\<lparr>ec_rsp := ec_rsp d' + 8\<rparr>) (full_frame c)" using frame_pop(2) [OF d'(2)] .
  have "\<forall>r. r \<notin> set (RAX # SCRATCH @ PRESERVED) \<longrightarrow> False"
    unfolding all_regs by (auto simp: SCRATCH_def PRESERVED_def callee_saved_def)
  then have r: "(\<lambda>r. if r \<in> set (RAX # SCRATCH @ PRESERVED) then ec_regs c r else ec_regs (d'\<lparr>ec_rsp := ec_rsp d' + 8\<rparr>) r) = ec_regs c" by auto
  have u: "distinct (RAX # SCRATCH @ PRESERVED)" by (simp add: SCRATCH_def PRESERVED_def)
  have "exec b ret body (pop_fs @ map Pop (rev (RAX # SCRATCH @ PRESERVED)) @ [Iretq]) (d'\<lparr>ec_rsp := ec_rsp d' + 8\<rparr>) =
      Inr ((d'\<lparr>ec_rsp := ec_rsp d' + 8\<rparr>)\<lparr>ec_fs := ec_fs c, ec_fs_base := b (ec_fs c), ec_regs := ec_regs c,
        ec_rip := ec_rip c, ec_cs := ec_cs c, ec_rflags := ec_rflags c, ec_rsp := ec_rsp c, ec_ss := ec_ss c\<rparr>)"
    using exec_restore [OF f [unfolded full_frame_def iret_frame_def], of "rev (RAX # SCRATCH @ PRESERVED)" b ret body] u
    unfolding restored [OF u] r by (simp add: Int_commute)
  then show ?thesis
    unfolding exec_append [of b ret body "[CallHandler]"] d'(1) bindR_Inr exec_append [of b ret body "[AddRsp 8]"]
    by (simp add: same_context_def)
qed

lemma run_error:
  assumes "returns_by_abi body"
  shows "\<exists>c'. exec b ret body interrupt_error_entry (deliver sp (Some code) c) = Inr c' \<and> same_context c c' \<and> ec_fs_base c' = b (ec_fs c)"
proof -
  obtain d where d: "exec b ret body ([XchgTop RAX] @ (map Push (SCRATCH @ PRESERVED) @ push_fs) @ [Push RAX, MovRsp RDI]) (deliver sp (Some code) c) = Inr d"
      "frame_at d (code # full_frame c)"
    using enter_error by blast
  have e: "interrupt_error_entry = ([XchgTop RAX] @ (map Push (SCRATCH @ PRESERVED) @ push_fs) @ [Push RAX, MovRsp RDI]) @
      ([CallHandler] @ [AddRsp 8] @ (pop_fs @ map Pop (rev (RAX # SCRATCH @ PRESERVED)) @ [Iretq]))"
    unfolding entries(3) by (simp only: append_assoc)
  show ?thesis unfolding e exec_append [of b ret body "[XchgTop RAX] @ (map Push (SCRATCH @ PRESERVED) @ push_fs) @ [Push RAX, MovRsp RDI]"] d(1) bindR_Inr
    by (rule call_with_code [OF assms d(2)])
qed

lemma run_vector:
  assumes "(v, h) \<in> set (vectors is_bsp)" and "returns_by_abi body"
  shows "\<exists>c'. exec b ret body (entry_code (handler_kind h)) (deliver sp (if pushes_error_code v then Some code else None) c) = Inr c'
     \<and> same_context c c' \<and> ec_fs_base c' = b (ec_fs c)"
  using kind_matches_vector [OF assms(1)] run_plain [OF assms(2)] run_stack [OF assms(2)] run_error [OF assms(2)]
  by (cases "handler_kind h") (auto simp: entry_code_def)

section \<open>Properties\<close>

text \<open>
  C16. An interrupt is transparent: for every vector that the kernel handles, the entry code that
  is installed for it fits the frame the processor pushes, with or without an error code, and if
  the handler returns by the calling convention, the interrupted code continues where it was with
  all its registers, flags, stack pointer and segment selectors.
\<close>

theorem interrupt_is_transparent:
  assumes "(v, h) \<in> set (vectors is_bsp)" and "returns_by_abi body"
  shows "\<exists>c'. exec base_of ret body (entry_code (handler_kind h)) (deliver sp (if pushes_error_code v then Some code else None) c) = Inr c'
     \<and> same_context c c'"
  using run_vector [OF assms] by blast

definition example_cpu :: entry_cpu where
  "example_cpu =
     \<lparr>ec_regs = (\<lambda>_. 7)(RAX := 1, RBX := 2), ec_rsp = 0x8000, ec_fs = 0x10, ec_fs_base = 0x5000, ec_rip = 0x1000, ec_cs = 8,
      ec_rflags = 0x202, ec_ss = 0x10, ec_mem = \<lambda>_. 0\<rparr>"

text \<open>A body that uses the scratch registers.\<close>

definition example_body :: "entry_cpu \<Rightarrow> entry_cpu res" where
  "example_body c = Inr (c\<lparr>ec_regs := (ec_regs c)(RAX := 0, RCX := 0, R11 := 0)\<rparr>)"

lemma example_body_abi: "returns_by_abi example_body"
  by (auto simp: returns_by_abi_def example_body_def callee_saved_def)

theorem interrupt_is_transparent_witness:
  "\<exists>c'. exec (\<lambda>_. 0) 0x2000 example_body (entry_code (handler_kind Page_fault)) (deliver 0x9000 (Some 6) example_cpu) = Inr c'
     \<and> same_context example_cpu c'"
proof -
  have "(14, Page_fault) \<in> set (vectors True)" by (simp add: vectors_def)
  from interrupt_is_transparent [OF this example_body_abi, of "\<lambda>_. 0" "0x2000" "0x9000" 6 example_cpu] show ?thesis
    by (simp add: pushes_error_code_def)
qed

definition before_call :: "instr list \<Rightarrow> instr list" where
  "before_call code = takeWhile (\<lambda>i. i \<noteq> CallHandler) code"

lemma before_call_entries:
  "before_call interrupt_stack_entry = (map Push (RAX # SCRATCH @ PRESERVED) @ push_fs) @ [MovRsp RDI]"
  "before_call interrupt_error_entry = [XchgTop RAX] @ (map Push (SCRATCH @ PRESERVED) @ push_fs) @ [Push RAX, MovRsp RDI]"
  by (simp_all add: before_call_def entries SCRATCH_def PRESERVED_def push_fs_def)

text \<open>
  C17. A handler that is given a pointer finds there the structure it declares: the registers of
  the interrupted code in the fields of \<^verbatim>\<open>InterruptStack\<close>, preceded by the error code in
  \<^verbatim>\<open>InterruptErrorStack\<close>.
\<close>

theorem handler_sees_registers:
  "(\<exists>d. exec base_of ret body (before_call interrupt_stack_entry) (deliver sp None c) = Inr d
      \<and> interrupt_stack_at (ec_mem d) (ec_regs d RDI) = saved_registers c)
   \<and> (\<exists>d. exec base_of ret body (before_call interrupt_error_entry) (deliver sp (Some code) c) = Inr d
      \<and> interrupt_error_stack_at (ec_mem d) (ec_regs d RDI) = \<lparr>ie_code = code, ie_inner = saved_registers c\<rparr>)"
proof (intro conjI)
  obtain d where "exec base_of ret body (before_call interrupt_stack_entry) (deliver sp None c) = Inr d"
      "frame_at d (full_frame c)" "ec_regs d RDI = ec_rsp d"
    unfolding before_call_entries using enter_stack by blast
  then show "\<exists>d. exec base_of ret body (before_call interrupt_stack_entry) (deliver sp None c) = Inr d
      \<and> interrupt_stack_at (ec_mem d) (ec_regs d RDI) = saved_registers c"
    using frame_struct by auto
next
  obtain d where d: "exec base_of ret body (before_call interrupt_error_entry) (deliver sp (Some code) c) = Inr d"
      "frame_at d (code # full_frame c)" "ec_regs d RDI = ec_rsp d"
    unfolding before_call_entries using enter_error by blast
  note f = frame_pop [OF d(2)]
  have "interrupt_stack_at (ec_mem d) (ec_rsp d + 8) = saved_registers c" using frame_struct [OF f(2)] by simp
  then show "\<exists>d. exec base_of ret body (before_call interrupt_error_entry) (deliver sp (Some code) c) = Inr d
      \<and> interrupt_error_stack_at (ec_mem d) (ec_regs d RDI) = \<lparr>ie_code = code, ie_inner = saved_registers c\<rparr>"
    using d(1,3) f(1) by (auto simp: interrupt_error_stack_at_def)
qed

definition base_in :: "gdt_entry list \<Rightarrow> u16 \<Rightarrow> u64" where
  "base_in gdt sel = ucast (gdt_base (gdt ! unat (drop_bit 3 sel)))"

definition selector_bits :: "selector \<Rightarrow> u16" where
  "selector_bits sel = (case sel of SegmentSelector i ring \<Rightarrow> of_nat (8 * i + ring))"

text \<open>
  C21. An interrupt is not transparent for thread locals. The entry code reloads the FS selector
  and restores it, but nothing restores the FS base that \<^verbatim>\<open>init_post_paging\<close> had set: after any
  interrupt on a CPU that is set up, the base is zero and no longer the block of that CPU.
\<close>

theorem interrupt_loses_fs_base:
  assumes "ds_locals s tcb = fresh_locals" and "stack_top init_stack = Inr rsp" and "stack_top fault_stack = Inr fault"
    and "gdt_init_ap dl tcb init_stack fault_stack s = Inr s1"
    and "(v, h) \<in> set (vectors is_bsp)" and "returns_by_abi body"
    and "ec_fs c = selector_bits (dc_fs (ds_cpu s1))" and "ec_fs_base c = dc_fs_base (ds_cpu s1)"
  shows "ec_fs_base c = tcb \<and> (\<exists>c'. exec (base_in (loaded_gdt s1)) ret body (entry_code (handler_kind h))
       (deliver sp (if pushes_error_code v then Some code else None) c) = Inr c' \<and> ec_fs c' = ec_fs c \<and> ec_fs_base c' = 0)"
proof -
  obtain s0 where s0: "gdt_init s = Inr s0" "ds_locals s0 = ds_locals s" by (simp add: gdt_init_eq on_cpu_def)
  have s1: "s1 = on_cpu (cpu_ready tcb) (s0\<lparr>ds_locals := (ds_locals s0)(tcb := cpu_block dl tcb rsp fault)\<rparr>)"
    using gdt_init_post_paging_eq [of s0 tcb init_stack rsp fault_stack fault dl] assms(1-4) s0 by (simp add: gdt_init_ap_def)
  have fs: "ec_fs c = 0x10" using assms(7) unfolding s1
    by (simp add: on_cpu_def cpu_ready_def kernel_segments_def selector_bits_def)
  have "loaded_gdt s1 ! 2 = kernel_data_entry"
    unfolding s1 by (simp add: loaded_gdt_def on_cpu_def cpu_ready_def cpu_block_def GDT_def)
  then have b: "base_in (loaded_gdt s1) 0x10 = 0" by (simp add: base_in_def)
  have "ec_fs_base c = tcb" using assms(8) unfolding s1 by (simp add: on_cpu_def cpu_ready_def)
  then show ?thesis using run_vector [OF assms(5,6), of "base_in (loaded_gdt s1)" ret sp code c] fs b
    by (auto simp: same_context_def)
qed

theorem interrupt_loses_fs_base_witness:
  "\<exists>s1 c'. gdt_init_ap \<lparr>dl_tss_addr = \<lambda>b. b - 0x800, dl_tss_size = 0x68\<rparr> 0x5000 (machine_stack 0x10000) (machine_stack 0x20000) example_machine = Inr s1
     \<and> ec_fs_base example_cpu = 0x5000 \<and> exec (base_in (loaded_gdt s1)) 0x2000 example_body (entry_code (handler_kind Timer)) (deliver 0x9000 None example_cpu) = Inr c'
     \<and> ec_fs_base c' = 0"
proof -
  let ?dl = "\<lparr>dl_tss_addr = \<lambda>b. b - 0x800, dl_tss_size = 0x68\<rparr>"
  obtain s0 where s0: "gdt_init example_machine = Inr s0" "ds_locals s0 = ds_locals example_machine" by (simp add: gdt_init_eq on_cpu_def)
  have f: "ds_locals example_machine 0x5000 = fresh_locals" by (simp add: example_machine_def)
  let ?s1 = "on_cpu (cpu_ready 0x5000) (s0\<lparr>ds_locals := (ds_locals s0)(0x5000 := cpu_block ?dl 0x5000 0x12000 0x22000)\<rparr>)"
  have s1: "gdt_init_ap ?dl 0x5000 (machine_stack 0x10000) (machine_stack 0x20000) example_machine = Inr ?s1"
    using gdt_init_post_paging_eq [of s0 "0x5000", OF _ machine_stack_top, of ?dl] s0 f by (simp add: gdt_init_ap_def)
  have v: "(32, Timer) \<in> set (vectors True)" by (simp add: vectors_def)
  have c: "ec_fs example_cpu = selector_bits (dc_fs (ds_cpu ?s1))" "ec_fs_base example_cpu = dc_fs_base (ds_cpu ?s1)"
    by (simp_all add: example_cpu_def on_cpu_def cpu_ready_def kernel_segments_def selector_bits_def)
  show ?thesis using interrupt_loses_fs_base [OF f machine_stack_top s1 v example_body_abi c, of "0x2000" "0x9000" 0] s1
    by (auto simp: pushes_error_code_def)
qed

end
