(* ===== verification/Vga_Buffer.thy ===== *)
theory Vga_Buffer
  imports Kernel_Prelude
begin

unbundle bit_operations_syntax

text \<open>
  The text screen of \<^verbatim>\<open>src/src/vga_buffer.rs\<close>: a writer that fills the last row of a buffer of 25
  rows of 80 cells and scrolls. The buffer is the memory the writer owns, as a list of rows.
  Formatting of arguments is the standard library's; what reaches the writer are strings of bytes.
\<close>

section \<open>Cells and the writer\<close>

datatype color =
    Black | Blue | Green | Cyan | Red | Magenta | Brown | LightGray
  | DarkGray | LightBlue | LightGreen | LightCyan | LightRed | Pink | Yellow | White

definition color_bits :: "color \<Rightarrow> u8" where
  "color_bits c = (case c of
       Black \<Rightarrow> 0 | Blue \<Rightarrow> 1 | Green \<Rightarrow> 2 | Cyan \<Rightarrow> 3 | Red \<Rightarrow> 4 | Magenta \<Rightarrow> 5 | Brown \<Rightarrow> 6 | LightGray \<Rightarrow> 7
     | DarkGray \<Rightarrow> 8 | LightBlue \<Rightarrow> 9 | LightGreen \<Rightarrow> 10 | LightCyan \<Rightarrow> 11 | LightRed \<Rightarrow> 12 | Pink \<Rightarrow> 13 | Yellow \<Rightarrow> 14 | White \<Rightarrow> 15)"

definition color_code_new :: "color \<Rightarrow> color \<Rightarrow> u8" where
  "color_code_new foreground background = push_bit 4 (color_bits background) OR color_bits foreground"

record screen_char =
  ascii_character :: u8
  sc_color_code :: u8

definition BUFFER_HEIGHT :: nat where "BUFFER_HEIGHT = 25"
definition BUFFER_WIDTH :: nat where "BUFFER_WIDTH = 80"

record writer =
  column_position :: usize
  color_code :: u8
  buffer :: "screen_char list list"

definition read_cell :: "nat \<Rightarrow> nat \<Rightarrow> screen_char list list \<Rightarrow> screen_char res" where
  "read_cell row col b =
     (if row < length b \<and> col < length (b ! row) then Inr (b ! row ! col) else Inl IndexOutOfBounds)"

definition write_cell :: "nat \<Rightarrow> nat \<Rightarrow> screen_char \<Rightarrow> screen_char list list \<Rightarrow> screen_char list list res" where
  "write_cell row col ch b =
     (if row < length b \<and> col < length (b ! row) then Inr (b[row := (b ! row)[col := ch]]) else Inl IndexOutOfBounds)"

text \<open>A loop over an index range whose body may panic.\<close>

fun for_each :: "nat list \<Rightarrow> (nat \<Rightarrow> 's \<Rightarrow> 's res) \<Rightarrow> 's \<Rightarrow> 's res" where
  "for_each [] f s = Inr s"
| "for_each (i # is) f s = bindR (f i s) (for_each is f)"

definition clear_row :: "nat \<Rightarrow> writer \<Rightarrow> writer res" where
  "clear_row row w =
     (let blank = \<lparr>ascii_character = 0x20, sc_color_code = color_code w\<rparr> in
      bindR (for_each [0..<BUFFER_WIDTH] (\<lambda>col. write_cell row col blank) (buffer w)) (\<lambda>b. Inr (w\<lparr>buffer := b\<rparr>)))"

definition new_line :: "writer \<Rightarrow> writer res" where
  "new_line w =
     bindR (for_each [1..<BUFFER_HEIGHT] (\<lambda>row.
       for_each [0..<BUFFER_WIDTH] (\<lambda>col b.
         bindR (read_cell row col b) (\<lambda>character. write_cell (row - 1) col character b))) (buffer w)) (\<lambda>b.
     bindR (clear_row (BUFFER_HEIGHT - 1) (w\<lparr>buffer := b\<rparr>)) (\<lambda>w.
     Inr (w\<lparr>column_position := 0\<rparr>)))"

definition write_byte :: "u8 \<Rightarrow> writer \<Rightarrow> writer res" where
  "write_byte byte w =
     (if byte = 10 then new_line w
      else bindR (if column_position w \<ge> BUFFER_WIDTH then new_line w else Inr w) (\<lambda>w.
        let row = BUFFER_HEIGHT - 1; col = column_position w in
        bindR (write_cell row col \<lparr>ascii_character = byte, sc_color_code = color_code w\<rparr> (buffer w)) (\<lambda>b.
        bindR (uadd col 1) (\<lambda>c.
        Inr (w\<lparr>buffer := b, column_position := c\<rparr>)))))"

fun write_string :: "u8 list \<Rightarrow> writer \<Rightarrow> writer res" where
  "write_string [] w = Inr w"
| "write_string (byte # s) w =
     bindR (if 0x20 \<le> byte \<and> byte \<le> 0x7e \<or> byte = 10 then write_byte byte w else write_byte 0xfe w) (write_string s)"

definition writer_new :: "screen_char list list \<Rightarrow> writer" where
  "writer_new video_memory = \<lparr>column_position = 0, color_code = color_code_new Yellow Black, buffer = video_memory\<rparr>"

section \<open>The loops\<close>

definition blank_row :: "u8 \<Rightarrow> screen_char list" where
  "blank_row c = replicate BUFFER_WIDTH \<lparr>ascii_character = 0x20, sc_color_code = c\<rparr>"

definition well_formed :: "screen_char list list \<Rightarrow> bool" where
  "well_formed b \<longleftrightarrow> length b = BUFFER_HEIGHT \<and> (\<forall>row \<in> set b. length row = BUFFER_WIDTH)"

lemma for_each_end [simp]: "bindR m (for_each [] f) = m"
  by (cases m) auto

lemma for_each_snoc: "for_each (is @ [i]) f s = bindR (for_each is f s) (f i)"
  by (induction "is" arbitrary: s) (auto simp: bindR_assoc intro!: bindR_cong)

lemma clear_loop:
  assumes "row < length b" and "n \<le> length (b ! row)"
  shows "for_each [0..<n] (\<lambda>col. write_cell row col ch) b = Inr (b[row := replicate n ch @ drop n (b ! row)])"
  using assms(2)
proof (induction n)
  case 0
  then show ?case by simp
next
  case (Suc n)
  have "(replicate n ch @ drop n (b ! row))[n := ch] = replicate (Suc n) ch @ drop (Suc n) (b ! row)"
    using Suc.prems by (simp add: list_update_append Cons_nth_drop_Suc [symmetric] replicate_append_same [symmetric] del: replicate_Suc)
      (simp add: replicate_append_same)
  then show ?case using Suc assms(1) by (simp add: for_each_snoc write_cell_def del: replicate_Suc)
qed

lemma copy_loop:
  assumes "Suc row < length b" and "length (b ! row) = length (b ! Suc row)" and "n \<le> length (b ! row)"
  shows "for_each [0..<n] (\<lambda>col b. bindR (read_cell (Suc row) col b) (\<lambda>character. write_cell row col character b)) b =
     Inr (b[row := take n (b ! Suc row) @ drop n (b ! row)])"
  using assms(3)
proof (induction n)
  case 0
  then show ?case by simp
next
  case (Suc n)
  have "(take n (b ! Suc row) @ drop n (b ! row))[n := b ! Suc row ! n] = take (Suc n) (b ! Suc row) @ drop (Suc n) (b ! row)"
    using Suc.prems assms(2) by (simp add: list_update_append Cons_nth_drop_Suc [symmetric] take_Suc_conv_app_nth)
  then show ?case using Suc assms(1,2) by (simp add: for_each_snoc write_cell_def read_cell_def)
qed

lemma scroll_loop:
  assumes "well_formed b" and "n < BUFFER_HEIGHT"
  shows "for_each [1..<Suc n] (\<lambda>row. for_each [0..<BUFFER_WIDTH] (\<lambda>col b.
       bindR (read_cell row col b) (\<lambda>character. write_cell (row - 1) col character b))) b = Inr (take n (tl b) @ drop n b)"
  using assms(2)
proof (induction n)
  case 0
  then show ?case by simp
next
  case (Suc n)
  let ?b = "take n (tl b) @ drop n b"
  have l: "length b = BUFFER_HEIGHT" "i < BUFFER_HEIGHT \<Longrightarrow> length (b ! i) = BUFFER_WIDTH" for i
    using assms(1) nth_mem [of i b] by (auto simp: well_formed_def)
  have n: "?b ! n = b ! n" "?b ! Suc n = b ! Suc n" "Suc n < length ?b"
    using Suc.prems l(1) by (simp_all add: nth_append)
  have "?b[n := b ! Suc n] = take (Suc n) (tl b) @ drop (Suc n) b"
    using Suc.prems l(1)
    by (simp add: list_update_append Cons_nth_drop_Suc [symmetric] take_Suc_conv_app_nth nth_tl)
  moreover have "for_each [0..<BUFFER_WIDTH] (\<lambda>col b. bindR (read_cell (Suc n) col b) (\<lambda>character. write_cell n col character b)) ?b =
      Inr (?b[n := b ! Suc n])"
    using copy_loop [OF n(3), of BUFFER_WIDTH] n l Suc.prems by simp
  ultimately show ?case using Suc by (simp add: for_each_snoc)
qed

lemma new_line_eq:
  assumes "well_formed (buffer w)"
  shows "new_line w = Inr (w\<lparr>buffer := tl (buffer w) @ [blank_row (color_code w)], column_position := 0\<rparr>)"
proof -
  let ?b = "buffer w"
  have l: "length ?b = 25" "length (?b ! 24) = 80"
    using assms nth_mem [of 24 ?b] by (auto simp: well_formed_def BUFFER_HEIGHT_def BUFFER_WIDTH_def)
  have s: "take 24 (tl ?b) @ drop 24 ?b = tl ?b @ [?b ! 24]"
    using l(1) Cons_nth_drop_Suc [of 24 ?b] by simp
  have "for_each [1..<BUFFER_HEIGHT] (\<lambda>row. for_each [0..<BUFFER_WIDTH] (\<lambda>col b.
       bindR (read_cell row col b) (\<lambda>character. write_cell (row - 1) col character b))) ?b = Inr (tl ?b @ [?b ! 24])"
    using scroll_loop [OF assms, of 24] s by (simp add: BUFFER_HEIGHT_def)
  moreover have "for_each [0..<BUFFER_WIDTH] (\<lambda>col. write_cell 24 col ch) (tl ?b @ [?b ! 24]) = Inr (tl ?b @ [replicate 80 ch])" for ch
    using clear_loop [of 24 "tl ?b @ [?b ! 24]" BUFFER_WIDTH ch] l by (simp add: nth_append list_update_append BUFFER_WIDTH_def)
  ultimately show ?thesis
    by (simp add: new_line_def clear_row_def blank_row_def Let_def BUFFER_HEIGHT_def BUFFER_WIDTH_def)
qed

section \<open>The screen as the end of a scroll\<close>

text \<open>
  The reference: a scroll of rows that only grows. A line feed starts a new row, and so does a byte
  that no longer fits.
\<close>

record scroll =
  rows :: "screen_char list list"
  cursor :: nat

definition scroll_line :: "u8 \<Rightarrow> scroll \<Rightarrow> scroll" where
  "scroll_line c t = \<lparr>rows = rows t @ [blank_row c], cursor = 0\<rparr>"

definition scroll_byte :: "u8 \<Rightarrow> u8 \<Rightarrow> scroll \<Rightarrow> scroll" where
  "scroll_byte c byte t =
     (if byte = 10 then scroll_line c t
      else let t = (if cursor t \<ge> BUFFER_WIDTH then scroll_line c t else t) in
        \<lparr>rows = butlast (rows t) @ [(last (rows t))[cursor t := \<lparr>ascii_character = byte, sc_color_code = c\<rparr>]],
         cursor = cursor t + 1\<rparr>)"

definition printable :: "u8 \<Rightarrow> u8" where
  "printable byte = (if 0x20 \<le> byte \<and> byte \<le> 0x7e \<or> byte = 10 then byte else 0xfe)"

definition scroll_string :: "u8 \<Rightarrow> u8 list \<Rightarrow> scroll \<Rightarrow> scroll" where
  "scroll_string c s t = fold (scroll_byte c) (map printable s) t"

definition displays :: "writer \<Rightarrow> scroll \<Rightarrow> bool" where
  "displays w t \<longleftrightarrow> well_formed (buffer w) \<and> column_position w = cursor t \<and> cursor t \<le> BUFFER_WIDTH
     \<and> (\<exists>gone. rows t = gone @ buffer w)"

lemma displays_buffer: "displays w t \<Longrightarrow> buffer w = drop (length (rows t) - BUFFER_HEIGHT) (rows t) \<and> column_position w = cursor t"
  by (auto simp: displays_def well_formed_def)

lemma well_formed_tl: "well_formed b \<Longrightarrow> length row = BUFFER_WIDTH \<Longrightarrow> well_formed (tl b @ [row])"
  by (cases b) (auto simp: well_formed_def BUFFER_HEIGHT_def)

lemma displays_new_line:
  assumes "displays w t"
  shows "\<exists>w'. new_line w = Inr w' \<and> displays w' (scroll_line (color_code w) t) \<and> color_code w' = color_code w"
proof -
  obtain gone where g: "rows t = gone @ buffer w" "well_formed (buffer w)" using assms by (auto simp: displays_def)
  then have "buffer w \<noteq> []" by (auto simp: well_formed_def BUFFER_HEIGHT_def)
  then have "rows (scroll_line (color_code w) t) = (gone @ [hd (buffer w)]) @ tl (buffer w) @ [blank_row (color_code w)]"
    using g(1) by (simp add: scroll_line_def)
  then show ?thesis using new_line_eq [OF g(2)] well_formed_tl [OF g(2), of "blank_row (color_code w)"]
    by (auto simp: displays_def scroll_line_def blank_row_def)
qed

lemma displays_put:
  assumes "displays w t" and "cursor t < BUFFER_WIDTH"
  shows "\<exists>b. write_cell (BUFFER_HEIGHT - 1) (column_position w) ch (buffer w) = Inr b
     \<and> displays (w\<lparr>buffer := b, column_position := Suc (cursor t)\<rparr>)
         \<lparr>rows = butlast (rows t) @ [(last (rows t))[cursor t := ch]], cursor = cursor t + 1\<rparr>"
proof -
  obtain gone where g: "rows t = gone @ buffer w" "well_formed (buffer w)" "column_position w = cursor t" using assms by (auto simp: displays_def)
  obtain init row where b: "buffer w = init @ [row]"
    using g(2) by (cases "buffer w" rule: rev_cases) (auto simp: well_formed_def BUFFER_HEIGHT_def)
  have l: "length init = 24" "length row = BUFFER_WIDTH" using g(2) b by (auto simp: well_formed_def BUFFER_HEIGHT_def)
  have "write_cell (BUFFER_HEIGHT - 1) (column_position w) ch (buffer w) = Inr (init @ [row[cursor t := ch]])"
    using b l g(3) assms(2) by (simp add: write_cell_def BUFFER_HEIGHT_def nth_append list_update_append)
  then show ?thesis using g b assms(2) by (auto simp: displays_def well_formed_def butlast_append)
qed

lemma displays_byte:
  assumes "displays w t"
  shows "\<exists>w'. write_byte byte w = Inr w' \<and> displays w' (scroll_byte (color_code w) byte t) \<and> color_code w' = color_code w"
proof (cases "byte = 10")
  case True
  then show ?thesis using displays_new_line [OF assms] by (simp add: write_byte_def scroll_byte_def)
next
  case False
  let ?t = "if cursor t \<ge> BUFFER_WIDTH then scroll_line (color_code w) t else t"
  obtain w1 where w1: "(if column_position w \<ge> BUFFER_WIDTH then new_line w else Inr w) = Inr w1" "displays w1 ?t" "color_code w1 = color_code w"
    using displays_new_line [OF assms] assms displays_buffer [OF assms] by (cases "cursor t \<ge> BUFFER_WIDTH") auto
  have c: "cursor ?t < BUFFER_WIDTH" by (simp add: scroll_line_def BUFFER_WIDTH_def)
  have u: "column_position w1 = cursor ?t" "uadd (cursor ?t) 1 = Inr (Suc (cursor ?t))"
    using w1(2) c by (simp_all add: displays_def uadd_def usize_limit_def BUFFER_WIDTH_def)
  show ?thesis using False w1 u displays_put [OF w1(2) c, of "\<lparr>ascii_character = byte, sc_color_code = color_code w\<rparr>"]
    by (auto simp: write_byte_def scroll_byte_def Let_def)
qed

lemma displays_string:
  "displays w t \<Longrightarrow> \<exists>w'. write_string s w = Inr w' \<and> displays w' (scroll_string (color_code w) s t) \<and> color_code w' = color_code w"
proof (induction s arbitrary: w t)
  case Nil
  then show ?case by (simp add: scroll_string_def)
next
  case (Cons byte s)
  obtain w1 where w1: "write_byte (printable byte) w = Inr w1" "displays w1 (scroll_byte (color_code w) (printable byte) t)" "color_code w1 = color_code w"
    using displays_byte [OF Cons.prems] by blast
  have "write_string (byte # s) w = write_string s w1" using w1(1) by (auto simp: printable_def)
  then show ?case using Cons.IH [OF w1(2)] w1(3) by (simp add: scroll_string_def)
qed

lemma displays_self: "well_formed (buffer w) \<Longrightarrow> column_position w \<le> BUFFER_WIDTH \<Longrightarrow> displays w \<lparr>rows = buffer w, cursor = column_position w\<rparr>"
  by (simp add: displays_def)

text \<open>
  C40. The screen is the end of the scroll: writing any string to it never panics, and it shows the
  last 25 rows of what a terminal without a limit would have, with the cursor in the same column.
\<close>

theorem write_string_scrolls:
  assumes "well_formed (buffer w)" and "column_position w \<le> BUFFER_WIDTH"
  shows "\<exists>w'. write_string s w = Inr w' \<and> well_formed (buffer w') \<and>
     (let t = scroll_string (color_code w) s \<lparr>rows = buffer w, cursor = column_position w\<rparr> in
      buffer w' = drop (length (rows t) - BUFFER_HEIGHT) (rows t) \<and> column_position w' = cursor t)"
proof -
  let ?t = "scroll_string (color_code w) s \<lparr>rows = buffer w, cursor = column_position w\<rparr>"
  obtain w' where w': "write_string s w = Inr w'" "displays w' ?t" using displays_string [OF displays_self [OF assms], of s] by blast
  then have "well_formed (buffer w')" by (simp add: displays_def)
  then show ?thesis using w'(1) displays_buffer [OF w'(2)] unfolding Let_def by blast
qed

definition example_writer :: writer where
  "example_writer = writer_new (replicate 25 (blank_row 0))"

lemma example_writer_ok: "well_formed (buffer example_writer)" "column_position example_writer \<le> BUFFER_WIDTH"
  by (simp_all add: example_writer_def writer_new_def well_formed_def BUFFER_HEIGHT_def blank_row_def)

theorem write_string_scrolls_witness:
  "\<exists>w'. write_string [0x48, 0x69, 10] example_writer = Inr w' \<and> column_position w' = 0 \<and> length (buffer w') = 25"
  using write_string_scrolls [OF example_writer_ok, of "[0x48, 0x69, 10]"]
  by (auto simp: Let_def scroll_string_def scroll_byte_def scroll_line_def printable_def well_formed_def BUFFER_HEIGHT_def)

text \<open>What the tests of the source check: a printed line that fits is in the last row but one.\<close>

lemma scroll_bytes:
  assumes "rs \<noteq> []" and "length (last rs) = BUFFER_WIDTH" and "n + length s \<le> BUFFER_WIDTH" and "10 \<notin> set s"
  shows "fold (scroll_byte c) s \<lparr>rows = rs, cursor = n\<rparr> = \<lparr>rows = butlast rs @ [take n (last rs) @
     map (\<lambda>byte. \<lparr>ascii_character = byte, sc_color_code = c\<rparr>) s @ drop (n + length s) (last rs)], cursor = n + length s\<rparr>"
  using assms
proof (induction s arbitrary: rs n)
  case Nil
  then show ?case by simp
next
  case (Cons byte s)
  let ?ch = "\<lparr>ascii_character = byte, sc_color_code = c\<rparr>"
  let ?rs = "butlast rs @ [(last rs)[n := ?ch]]"
  have n: "n < length (last rs)" "n < BUFFER_WIDTH" using Cons.prems by auto
  have "scroll_byte c byte \<lparr>rows = rs, cursor = n\<rparr> = \<lparr>rows = ?rs, cursor = Suc n\<rparr>"
    using Cons.prems n by (auto simp: scroll_byte_def)
  moreover have "take (Suc n) ((last rs)[n := ?ch]) = take n (last rs) @ [?ch]"
    using n(1) by (simp add: take_Suc_conv_app_nth)
  ultimately show ?case using Cons.IH [of ?rs "Suc n"] Cons.prems n(1) by (simp add: butlast_append)
qed

lemma println_shows_line:
  assumes "well_formed (buffer w)" and "column_position w = 0" and "length s \<le> BUFFER_WIDTH" and "\<forall>byte \<in> set s. 0x20 \<le> byte \<and> byte \<le> 0x7e"
  shows "\<exists>w'. write_string (s @ [10]) w = Inr w' \<and> map ascii_character (take (length s) (buffer w' ! (BUFFER_HEIGHT - 2))) = s"
proof -
  let ?t = "\<lparr>rows = buffer w, cursor = 0\<rparr>"
  obtain init row where b: "buffer w = init @ [row]" "length init = 24" "length row = BUFFER_WIDTH"
    using assms(1) by (cases "buffer w" rule: rev_cases) (auto simp: well_formed_def BUFFER_HEIGHT_def)
  have p: "map printable s = s" using assms(4) by (auto simp: printable_def intro: map_idI)
  have n: "10 \<notin> set s" using assms(4) by auto
  have t: "rows (scroll_string (color_code w) (s @ [10]) ?t) = init @
      [map (\<lambda>byte. \<lparr>ascii_character = byte, sc_color_code = color_code w\<rparr>) s @ drop (length s) row] @ [blank_row (color_code w)]"
    using scroll_bytes [of "buffer w" 0 s "color_code w"] b assms(3) n
    by (simp add: scroll_string_def p scroll_byte_def [of _ 10] scroll_line_def printable_def)
  have "displays w ?t" using displays_self [OF assms(1)] assms(2) by simp
  then obtain w' where w': "write_string (s @ [10]) w = Inr w'" "displays w' (scroll_string (color_code w) (s @ [10]) ?t)"
    using displays_string by blast
  have "buffer w' = drop 1 (rows (scroll_string (color_code w) (s @ [10]) ?t))"
    using displays_buffer [OF w'(2)] b(2) unfolding t by (simp add: BUFFER_HEIGHT_def)
  then show ?thesis using w'(1) b(2) unfolding t
    by (cases init) (auto simp: BUFFER_HEIGHT_def nth_append comp_def)
qed

end
