(* ===== verification/Paging_Init.thy ===== *)
theory Paging_Init
  imports Region_System
begin

text \<open>
  How the kernel builds its own page tables at boot, from \<^verbatim>\<open>src/src/paging/mod.rs\<close>: the identity map
  of the first 4 GiB in huge pages, copies of the boot loader's mappings of the kernel image and of
  the boot stack, the switch to the new tables, and the block of thread locals of a CPU.

  The addresses of the sections are fixed by the linker, and whether the processor has 1 GiB pages
  is what \<^verbatim>\<open>cpuid\<close> says; both are parameters. The contents of kernel memory are a function from
  addresses to bytes.
\<close>

section \<open>Building the tables\<close>

definition HUGE_PAGE_SIZE :: usize where
  "HUGE_PAGE_SIZE = PAGE_SIZE * 512"

definition KERNEL_PML4 :: nat where
  "KERNEL_PML4 = p4_index 0xffff800000000000"

definition IDENTITY_MAP_PML4 :: nat where
  "IDENTITY_MAP_PML4 = p4_index IDENTITY_MAP_REGION"

definition KERNEL_HEAP_BASE :: usize where
  "KERNEL_HEAP_BASE = 0xffffff8000000000"

definition KERNEL_HEAP_LIMIT :: usize where
  "KERNEL_HEAP_LIMIT = 0xffffff80c0000000"

text \<open>The table below an entry of the boot loader's tables, which must be there.\<close>

definition boot_next :: "kmem \<Rightarrow> frame \<Rightarrow> nat \<Rightarrow> frame res" where
  "boot_next km t i = bindR (next_table km t i) (unwrapR UnwrapNone)"

text \<open>One round of the loop of \<^verbatim>\<open>copy_boot_mapping\<close>, and the loop.\<close>

definition copy_boot_page :: "frame \<Rightarrow> frame \<Rightarrow> usize \<Rightarrow> u64 \<Rightarrow> unit kop" where
  "copy_boot_page boot_p4 init_p4 virt_page flags =
     bindE (create_next_table init_p4 (p4_index virt_page)) (\<lambda>p3.
     bindE (create_next_table p3 (p3_index virt_page)) (\<lambda>p2.
     bindE (create_next_table p2 (p2_index virt_page)) (\<lambda>init_p1 km.
     bindR (boot_next km boot_p4 (p4_index virt_page)) (\<lambda>b3.
     bindR (boot_next km b3 (p3_index virt_page)) (\<lambda>b2.
     bindR (boot_next km b2 (p2_index virt_page)) (\<lambda>boot_p1.
     bindR (get_entry km boot_p1 (p1_index virt_page)) (\<lambda>e.
     bindR (case pte_present e of
              Inl _ \<Rightarrow> Inl (Expectation ''Expected present page in boot mapping'')
            | Inr p \<Rightarrow> Inr p) (\<lambda>boot_p1_entry.
     bindR (from_frame_and_flags (pte_frame boot_p1_entry) flags) (\<lambda>p.
     bindR (set_entry init_p1 (p1_index virt_page) p km) (\<lambda>km'.
     Inr (km', Inr ())))))))))))"

function copy_boot_mapping :: "frame \<Rightarrow> frame \<Rightarrow> usize \<Rightarrow> usize \<Rightarrow> u64 \<Rightarrow> kmem \<Rightarrow> (kmem \<times> (memory_error + unit)) res" where
  "copy_boot_mapping boot_p4 init_p4 virt_page end_page flags km =
     (if virt_page < end_page
      then bindR (copy_boot_page boot_p4 init_p4 virt_page flags km) (\<lambda>r.
           case snd r of
             Inl e \<Rightarrow> Inr (fst r, Inl e)
           | Inr _ \<Rightarrow> bindR (uadd virt_page PAGE_SIZE) (\<lambda>next_page.
                        copy_boot_mapping boot_p4 init_p4 next_page end_page flags (fst r)))
      else Inr (km, Inr ()))"
  by auto
termination
  by (relation "measure (\<lambda>(_, _, v, e, _). e - v)") (auto simp: uadd_def PAGE_SIZE_def split: if_splits)

definition IDENTITY_FLAGS :: u64 where
  "IDENTITY_FLAGS = WRITABLE OR HUGE_PAGE OR NO_EXECUTE OR GLOBAL"

function identity_loop ::
  "frame \<Rightarrow> usize \<Rightarrow> usize \<Rightarrow> nat \<Rightarrow> frame \<Rightarrow> kmem \<Rightarrow> (kmem \<times> (memory_error + unit)) res" where
  "identity_loop p3_table va_limit va_pos current_p3_index current_p2_table km =
     (if va_pos < va_limit
      then bindR (if p3_index va_pos \<noteq> current_p3_index
                  then create_next_table p3_table (p3_index va_pos) km
                  else Inr (km, Inr current_p2_table)) (\<lambda>r.
           case snd r of
             Inl e \<Rightarrow> Inr (fst r, Inl e)
           | Inr p2_table \<Rightarrow>
               bindR (usub va_pos IDENTITY_MAP_REGION) (\<lambda>phys_pos.
               bindR (from_frame_and_flags (containing_address phys_pos) IDENTITY_FLAGS) (\<lambda>p.
               bindR (set_entry p2_table (p2_index va_pos) p (fst r)) (\<lambda>km'.
               bindR (uadd va_pos HUGE_PAGE_SIZE) (\<lambda>next_pos.
               identity_loop p3_table va_limit next_pos (p3_index va_pos) p2_table km')))))
      else Inr (km, Inr ()))"
  by auto
termination
  by (relation "measure (\<lambda>(_, l, v, _). l - v)") (auto simp: uadd_def PAGE_SIZE_def HUGE_PAGE_SIZE_def split: if_splits)

definition prepare_identity_mapping :: "bool \<Rightarrow> frame \<Rightarrow> unit kop" where
  "prepare_identity_mapping has_1gib_pages init_p4 =
     (if has_1gib_pages then (\<lambda>_. Inl NotYetImplemented)
      else bindE (liftE (bindR (uadd IDENTITY_MAP_REGION 0xffffffff) (\<lambda>a.
             guardR (p4_index a = IDENTITY_MAP_PML4)
               (Assertion ''Identity map region does not fit in a single PML4 entry'')))) (\<lambda>_.
           bindE (create_next_table init_p4 (p4_index IDENTITY_MAP_REGION)) (\<lambda>p3_table.
           bindE (liftE (uadd IDENTITY_MAP_REGION IDENTITY_MAP_SIZE)) (\<lambda>va_limit.
           bindE (create_next_table p3_table (p3_index IDENTITY_MAP_REGION)) (\<lambda>p2_table.
           identity_loop p3_table va_limit IDENTITY_MAP_REGION (p3_index IDENTITY_MAP_REGION) p2_table)))))"

definition paging_pre_init :: "u64 \<Rightarrow> unit res" where
  "paging_pre_init physical_memory_offset =
     guardR (unat physical_memory_offset = IDENTITY_MAP_REGION)
       (Assertion ''Bootloader has not mapped identity memory in the right place'')"

section \<open>Thread locals\<close>

record kernel_image =
  ki_kernel_start :: usize
  ki_text_start :: usize
  ki_text_end :: usize
  ki_rodata_start :: usize
  ki_rodata_end :: usize
  ki_data_start :: usize
  ki_data_end :: usize
  ki_tdata_start :: usize
  ki_tdata_end :: usize
  ki_tbss_start :: usize
  ki_tbss_end :: usize
  ki_bss_start :: usize
  ki_bss_end :: usize
  ki_kernel_end :: usize

type_synonym bytes = "usize \<Rightarrow> u8"

definition ptr_copy :: "usize \<Rightarrow> usize \<Rightarrow> nat \<Rightarrow> bytes \<Rightarrow> bytes" where
  "ptr_copy src dst n m = (\<lambda>a. if dst \<le> a \<and> a < dst + n then m (src + (a - dst)) else m a)"

definition ptr_write_bytes :: "usize \<Rightarrow> u8 \<Rightarrow> nat \<Rightarrow> bytes \<Rightarrow> bytes" where
  "ptr_write_bytes dst v n m = (\<lambda>a. if dst \<le> a \<and> a < dst + n then v else m a)"

definition ptr_write_usize :: "usize \<Rightarrow> usize \<Rightarrow> bytes \<Rightarrow> bytes" where
  "ptr_write_usize p v m = (\<lambda>a. if p \<le> a \<and> a < p + 8 then of_nat (v div 256 ^ (a - p)) else m a)"

definition ptr_read_usize :: "usize \<Rightarrow> bytes \<Rightarrow> usize" where
  "ptr_read_usize p m = (\<Sum>i < 8. unat (m (p + i)) * 256 ^ i)"

record paging_state =
  ps_kernel :: kstate
  ps_bytes :: bytes

type_synonym 'a pop = "(paging_state, memory_error, 'a) op"

definition on_kernel :: "'a ksop \<Rightarrow> 'a pop" where
  "on_kernel f s = bindR (f (ps_kernel s)) (\<lambda>(ks, r). Inr (s\<lparr>ps_kernel := ks\<rparr>, r))"

definition initialize_tcb :: "region_layout \<Rightarrow> kernel_image \<Rightarrow> usize \<Rightarrow> usize pop" where
  "initialize_tcb rl ki cpuid =
     (let tcb_start_addr = ki_tdata_start ki; tcb_end_addr = ki_tbss_end ki in
     bindE (liftE (bindR (usub tcb_end_addr tcb_start_addr) page_align_up)) (\<lambda>per_cpu_size.
     bindE (liftE (usub (ki_tbss_start ki) tcb_start_addr)) (\<lambda>tbss_offset.
     bindE (on_kernel (allocate_region rl (per_cpu_size div PAGE_SIZE))) (\<lambda>slot_region.
     bindE (liftE (region_start slot_region)) (\<lambda>slot_start_addr.
     bindE (liftE (uadd slot_start_addr per_cpu_size)) (\<lambda>slot_limit_addr.
     bindE (\<lambda>s. Inr (s\<lparr>ps_bytes := ptr_copy (ki_tdata_start ki) slot_start_addr tbss_offset (ps_bytes s)\<rparr>, Inr ())) (\<lambda>_.
     bindE (liftE (bindR (uadd slot_start_addr tbss_offset) (\<lambda>d. bindR (usub per_cpu_size tbss_offset) (\<lambda>n. Inr (d, n))))) (\<lambda>(d, n).
     bindE (\<lambda>s. Inr (s\<lparr>ps_bytes := ptr_write_bytes d 0 n (ps_bytes s)\<rparr>, Inr ())) (\<lambda>_.
     bindE (liftE (usub slot_limit_addr 8)) (\<lambda>tcb_offset.
     bindE (\<lambda>s. Inr (s\<lparr>ps_bytes := ptr_write_usize tcb_offset slot_limit_addr (ps_bytes s)\<rparr>, Inr ())) (\<lambda>_.
     okE tcb_offset)))))))))))"

definition expectE :: "string \<Rightarrow> ('s, 'e, 'a) op \<Rightarrow> 's \<Rightarrow> ('s \<times> 'a) res" where
  "expectE msg f s = bindR (f s) (\<lambda>(s', r). case r of Inl _ \<Rightarrow> Inl (Expectation msg) | Inr x \<Rightarrow> Inr (s', x))"

definition paging_init_ap :: "region_layout \<Rightarrow> kernel_image \<Rightarrow> usize \<Rightarrow> paging_state \<Rightarrow> (paging_state \<times> usize) res" where
  "paging_init_ap rl ki cpu_id = expectE ''Failed to initialize tcb for CPU'' (initialize_tcb rl ki cpu_id)"

section \<open>The whole of init\<close>

text \<open>The seven ranges that are copied from the boot loader's tables, in order, with their flags.\<close>

definition boot_ranges :: "kernel_image \<Rightarrow> (usize \<times> usize \<times> u64) list" where
  "boot_ranges ki =
     (let boot_stack_start = 0x10000000 + PAGE_SIZE; boot_stack_end = boot_stack_start + PAGE_SIZE * 8 in
     [(ki_text_start ki, ki_text_end ki, GLOBAL),
      (ki_rodata_start ki, ki_rodata_end ki, GLOBAL OR NO_EXECUTE),
      (ki_data_start ki, ki_data_end ki, GLOBAL OR NO_EXECUTE OR WRITABLE),
      (ki_tdata_start ki, ki_tdata_end ki, GLOBAL OR NO_EXECUTE),
      (ki_tbss_start ki, ki_tbss_end ki, GLOBAL OR NO_EXECUTE),
      (ki_bss_start ki, ki_bss_end ki, GLOBAL OR NO_EXECUTE OR WRITABLE),
      (boot_stack_start, boot_stack_end, NO_EXECUTE OR WRITABLE)])"

fun copy_boot_ranges :: "frame \<Rightarrow> frame \<Rightarrow> (usize \<times> usize \<times> u64) list \<Rightarrow> kmem \<Rightarrow> kmem res" where
  "copy_boot_ranges boot_p4 init_p4 [] km = Inr km"
| "copy_boot_ranges boot_p4 init_p4 ((a, b, flags) # rs) km =
     bindR (expectE ''Failed to create initial mapping'' (copy_boot_mapping boot_p4 init_p4 a b flags) km) (\<lambda>(km', _).
     copy_boot_ranges boot_p4 init_p4 rs km')"

definition build_page_table :: "bool \<Rightarrow> kernel_image \<Rightarrow> kmem \<Rightarrow> kmem res" where
  "build_page_table has_1gib_pages ki km =
     bindR (phys_to_virt_addr (unat (km_cr3 km)) (8 * ENTRY_COUNT)) (\<lambda>_.
     let boot_p4 = containing_address (unat (km_cr3 km)) in
     bindR (allocate_kernel_frame (km_phys km)) (\<lambda>(pm, x).
     bindR (unwrapR (Expectation ''cannot allocate early page directory'') x) (\<lambda>init_frame.
     bindR (table_ref init_frame) (\<lambda>init_p4.
     bindR (expectE ''Failed to initialize identity mapping'' (prepare_identity_mapping has_1gib_pages init_p4) (km\<lparr>km_phys := pm\<rparr>)) (\<lambda>(km, _).
     bindR (copy_boot_ranges boot_p4 init_p4 (boot_ranges ki) km) (\<lambda>km.
     bindR (physical_address init_frame) (\<lambda>pa.
     Inr (km\<lparr>km_cr3 := of_nat pa\<rparr>))))))))"

definition paging_init ::
  "region_layout \<Rightarrow> kernel_image \<Rightarrow> bool \<Rightarrow> usize \<Rightarrow> paging_state \<Rightarrow> (paging_state \<times> usize) res" where
  "paging_init rl ki has_1gib_pages cpuid s =
     (let kernel_start = page_align_down (ki_kernel_start ki) in
     bindR (page_align_up (ki_kernel_end ki)) (\<lambda>kernel_end.
     bindR (guardR (p4_index kernel_start = KERNEL_PML4) (Assertion ''Kernel is not in kernel PML4 region'')) (\<lambda>_.
     bindR (guardR (p4_index kernel_end = KERNEL_PML4) (Assertion ''Kernel is not in kernel PML4 region'')) (\<lambda>_.
     bindR (build_page_table has_1gib_pages ki (ks_mem (ps_kernel s))) (\<lambda>km.
     let ks = heap_init rl KERNEL_HEAP_BASE KERNEL_HEAP_LIMIT ((ps_kernel s)\<lparr>ks_mem := km\<rparr>) in
     expectE ''Failed to initialize tcb for CPU'' (initialize_tcb rl ki cpuid) (s\<lparr>ps_kernel := ks\<rparr>))))))"

section \<open>Growing one tree beside another\<close>

text \<open>
  The boot loader's tables must not be among those that are being built or handed out. They then
  stay as they are while the new tables grow.
\<close>

definition is_table :: "kmem \<Rightarrow> frame \<Rightarrow> frame \<Rightarrow> bool" where
  "is_table km root t \<longleftrightarrow> (\<exists>q. table_path q \<and> node_from km root q = Some t)"

definition separate :: "kmem \<Rightarrow> frame \<Rightarrow> frame \<Rightarrow> bool" where
  "separate km boot root \<longleftrightarrow> (\<forall>t. is_table km boot t \<longrightarrow> identity_mapped t \<and> t \<notin> kernel_free (km_phys km) \<and> \<not> is_table km root t)"

text \<open>
  How the state may change while pages below the entries \<open>X\<close> of the root are mapped: no table is
  lost, new tables come from the free frames, and tables of other trees or below other entries of
  the root keep their contents.
\<close>

definition extends :: "kmem \<Rightarrow> frame \<Rightarrow> nat set \<Rightarrow> kmem \<Rightarrow> bool" where
  "extends km root X km' \<longleftrightarrow> (\<forall>v. \<not> is_table km' root v \<longrightarrow> km_tables km' v = km_tables km v)
     \<and> (\<forall>q t. table_path q \<longrightarrow> node_from km root q = Some t \<longrightarrow> node_from km' root q = Some t)
     \<and> (\<forall>v. is_table km' root v \<longrightarrow> is_table km root v \<or> v \<in> kernel_free (km_phys km))
     \<and> kernel_free (km_phys km') \<subseteq> kernel_free (km_phys km)
     \<and> (\<forall>q t. table_path q \<longrightarrow> q \<noteq> [] \<longrightarrow> hd q \<notin> X \<longrightarrow> node_from km root q = Some t \<longrightarrow> km_tables km' t = km_tables km t)
     \<and> (\<forall>i. i \<notin> X \<longrightarrow> km_tables km' root i = km_tables km root i)
     \<and> user_free (km_phys km') \<subseteq> user_free (km_phys km) \<and> km_page_lock km' = km_page_lock km"

lemma extendsD:
  assumes "extends km root X km'"
  shows "\<not> is_table km' root v \<Longrightarrow> km_tables km' v = km_tables km v"
    and "table_path q \<Longrightarrow> node_from km root q = Some t \<Longrightarrow> node_from km' root q = Some t"
    and "is_table km' root v \<Longrightarrow> is_table km root v \<or> v \<in> kernel_free (km_phys km)"
    and "kernel_free (km_phys km') \<subseteq> kernel_free (km_phys km)"
    and "table_path q \<Longrightarrow> q \<noteq> [] \<Longrightarrow> hd q \<notin> X \<Longrightarrow> node_from km root q = Some t \<Longrightarrow> km_tables km' t = km_tables km t"
    and "i \<notin> X \<Longrightarrow> km_tables km' root i = km_tables km root i"
    and "is_table km root v \<Longrightarrow> is_table km' root v"
    and "user_free (km_phys km') \<subseteq> user_free (km_phys km)" and "km_page_lock km' = km_page_lock km"
  using assms by (auto simp: extends_def is_table_def)

lemma extends_refl: "extends km root X km"
  by (simp add: extends_def)

lemma extends_trans:
  assumes a: "extends km root X km1" and b: "extends km1 root X km2"
  shows "extends km root X km2"
  unfolding extends_def
proof (intro conjI allI impI)
  fix v
  assume v: "\<not> is_table km2 root v"
  then show "km_tables km2 v = km_tables km v" using extendsD(1) [OF b v] extendsD(1) [OF a] extendsD(7) [OF b] by metis
next
  fix q t
  assume "table_path q" "node_from km root q = Some t"
  then show "node_from km2 root q = Some t" using extendsD(2) [OF b] extendsD(2) [OF a] by blast
next
  fix v
  assume "is_table km2 root v"
  then show "is_table km root v \<or> v \<in> kernel_free (km_phys km)" using extendsD(3) [OF b] extendsD(3,4) [OF a] by blast
next
  show "kernel_free (km_phys km2) \<subseteq> kernel_free (km_phys km)" using extendsD(4) [OF a] extendsD(4) [OF b] by blast
next
  fix q t
  assume q: "table_path q" "q \<noteq> []" "hd q \<notin> X" "node_from km root q = Some t"
  then show "km_tables km2 t = km_tables km t"
    using extendsD(5) [OF a q] extendsD(5) [OF b q(1-3) extendsD(2) [OF a q(1,4)]] by simp
next
  fix i
  assume "i \<notin> X"
  then show "km_tables km2 root i = km_tables km root i" using extendsD(6) [OF a] extendsD(6) [OF b] by simp
next
  show "user_free (km_phys km2) \<subseteq> user_free (km_phys km)" "km_page_lock km2 = km_page_lock km"
    using extendsD(8,9) [OF a] extendsD(8,9) [OF b] by auto
qed

text \<open>Changing one cell of a table that is the root or hangs below one of \<open>X\<close>.\<close>

lemma cell_elsewhere:
  assumes inv: "tree_inv km root" and p: "table_path p" "node_from km root p = Some t" "(p @ [i]) \<noteq> []" "hd (p @ [i]) \<in> X"
    and same: "\<forall>v j. (v, j) \<noteq> (t, i) \<longrightarrow> km_tables km' v j = km_tables km v j"
  shows "table_path q \<Longrightarrow> q \<noteq> [] \<Longrightarrow> hd q \<notin> X \<Longrightarrow> node_from km root q = Some u \<Longrightarrow> km_tables km' u = km_tables km u"
    and "j \<notin> X \<Longrightarrow> km_tables km' root j = km_tables km root j"
proof -
  assume q: "table_path q" "q \<noteq> []" "hd q \<notin> X" "node_from km root q = Some u"
  have "u \<noteq> t" using tree_invD(2) [OF inv p(1) q(1) p(2)] q p(4) by (cases p) auto
  then show "km_tables km' u = km_tables km u" using same by (auto simp: fun_eq_iff)
next
  assume j: "j \<notin> X"
  have "t \<noteq> root \<or> i \<noteq> j"
  proof (cases p)
    case (Cons a r)
    then have "p \<noteq> []" by simp
    then show ?thesis using tree_invD(2) [OF inv p(1) _ p(2), of "[]"] by (auto simp: table_path_def)
  qed (use p(4) j in auto)
  then show "km_tables km' root j = km_tables km root j" using same by auto
qed

lemma create_next_table_extends:
  assumes inv: "tree_inv km root" and fz: "free_zeroed km" and path: "table_path (p @ [i])"
    and node: "node_from km root p = Some t"
    and nh: "\<not> (is_present (km_tables km t i) \<and> is_huge (km_tables km t i))"
    and free: "kernel_free (km_phys km) \<noteq> {}" and x: "hd (p @ [i]) \<in> X"
  shows "\<exists>km' u. create_next_table t i km = Inr (km', Inr u) \<and> node_from km' root (p @ [i]) = Some u
     \<and> grown km root 1 km' \<and> extends km root X km'"
proof -
  obtain km' u where c: "create_next_table t i km = Inr (km', Inr u)" "node_from km' root (p @ [i]) = Some u" "grown km root 1 km'"
      "\<forall>v j. (v, j) \<noteq> (t, i) \<longrightarrow> km_tables km' v j = km_tables km v j"
      "is_present (km_tables km t i) \<or> u \<in> kernel_free (km_phys km)"
      "\<forall>q. table_path q \<longrightarrow> q \<noteq> p @ [i] \<longrightarrow> node_from km' root q = node_from km root q"
      "is_present (km_tables km t i) \<longrightarrow> km' = km"
    using create_next_table_detail [OF assms(1-6)] by blast
  note g = grownD [OF c(3)]
  have p: "table_path p" using path by (simp add: table_path_snoc)
  have t: "is_table km' root t" using g(4) [OF p node] p by (auto simp: is_table_def)
  have "km_tables km' v = km_tables km v" if "\<not> is_table km' root v" for v
    using that t c(4) by (auto simp: fun_eq_iff)
  moreover have "is_table km root v \<or> v \<in> kernel_free (km_phys km)" if v: "is_table km' root v" for v
  proof -
    obtain q where q: "table_path q" "node_from km' root q = Some v" using v by (auto simp: is_table_def)
    show ?thesis using q c(2,5-7) by (cases "q = p @ [i]") (auto simp: is_table_def)
  qed
  ultimately have "extends km root X km'"
    using g(4,6,8,12) cell_elsewhere [OF inv p node _ x c(4)] unfolding extends_def by blast
  then show ?thesis using c(1-3) by blast
qed

section \<open>The identity map\<close>

text \<open>How the processor translates an address: huge pages end the walk early.\<close>

definition walk :: "kmem \<Rightarrow> frame \<Rightarrow> usize \<Rightarrow> usize option" where
  "walk km root va = (case child km root (p4_index va) of None \<Rightarrow> None | Some p3 \<Rightarrow>
     let e3 = km_tables km p3 (p3_index va) in
     if is_present e3 \<and> is_huge e3 then Some (pte_frame e3 * PAGE_SIZE + va mod 2 ^ 30)
     else case child km p3 (p3_index va) of None \<Rightarrow> None | Some p2 \<Rightarrow>
     let e2 = km_tables km p2 (p2_index va) in
     if is_present e2 \<and> is_huge e2 then Some (pte_frame e2 * PAGE_SIZE + va mod 2 ^ 21)
     else case child km p2 (p2_index va) of None \<Rightarrow> None | Some p1 \<Rightarrow>
     let e1 = km_tables km p1 (p1_index va) in
     if is_present e1 then Some (pte_frame e1 * PAGE_SIZE + va mod PAGE_SIZE) else None)"

definition identity_pte :: "nat \<Rightarrow> raw_pte \<Rightarrow> bool" where
  "identity_pte j e \<longleftrightarrow> is_present e \<and> is_huge e \<and> pte_frame e = j * 512 \<and> present_flags e = IDENTITY_FLAGS"

lemma vpn_identity: "x < 2 ^ 32 \<Longrightarrow> vpn (IDENTITY_MAP_REGION + x) = 257 * 2 ^ 27 + x div 2 ^ 12"
proof -
  assume x: "x < 2 ^ 32"
  have "(IDENTITY_MAP_REGION + x) div 2 ^ 12 = 0xffff808000000 + x div 2 ^ 12"
    using div_mult_self3 [of "2 ^ 12" "0xffff808000000" x] by (simp add: IDENTITY_MAP_REGION_def)
  also have "\<dots> = 0xfff * 2 ^ 36 + (257 * 2 ^ 27 + x div 2 ^ 12) + 0xf000 * 2 ^ 36" by simp
  finally have e: "(IDENTITY_MAP_REGION + x) div 2 ^ 12 = (257 * 2 ^ 27 + x div 2 ^ 12) + 0xffff * 2 ^ 36" by simp
  have "257 * 2 ^ 27 + x div 2 ^ 12 < 2 ^ 36" using x by (simp add: div_less_iff_less_mult)
  then show ?thesis unfolding vpn_def e mod_mult_self1 by simp
qed

lemma identity_indices:
  assumes "x < 2 ^ 32"
  shows "p4_index (IDENTITY_MAP_REGION + x) = 257" "p3_index (IDENTITY_MAP_REGION + x) = x div 2 ^ 30"
    "p2_index (IDENTITY_MAP_REGION + x) = x div 2 ^ 21 mod 512"
proof -
  have d: "x div 2 ^ 12 div 512 = x div 2 ^ 21" "x div 2 ^ 21 div 512 = x div 2 ^ 30" "x div 2 ^ 30 < 512"
    using assms by (simp_all add: div_mult2_eq [symmetric] div_less_iff_less_mult)
  have a: "(257 * 2 ^ 27 + y) div 512 = 257 * 2 ^ 18 + y div 512" "(257 * 2 ^ 18 + y) div 512 = 257 * 2 ^ 9 + y div 512"
      "(257 * 2 ^ 9 + y) div 512 = 257 + y div 512" for y :: nat by simp_all
  have m: "(257 * 2 ^ 9 + y) mod 512 = y mod 512" "(257 * 2 ^ 18 + y) mod 512 = y mod 512" for y :: nat
    using mod_mult_self3 [of 257 512 y] mod_mult_self3 [of "257 * 2 ^ 9" 512 y] by simp_all
  show "p4_index (IDENTITY_MAP_REGION + x) = 257" "p3_index (IDENTITY_MAP_REGION + x) = x div 2 ^ 30"
    "p2_index (IDENTITY_MAP_REGION + x) = x div 2 ^ 21 mod 512"
    unfolding index_vpn vpn_identity [OF assms] a d m using d(3) by (simp_all del: power_numeral)
qed

lemma identity_flags_ok: "IDENTITY_FLAGS AND NOT present_page_flags = 0"
  by (simp add: present_page_flags_mask mask_eq_exp_minus_1 push_bit_eq_mult IDENTITY_FLAGS_def WRITABLE_def HUGE_PAGE_def NO_EXECUTE_def GLOBAL_def)

lemma identity_pte_new:
  assumes "j < 2048"
  shows "\<exists>e. from_frame_and_flags (containing_address (j * 2 ^ 21)) IDENTITY_FLAGS = Inr e \<and> identity_pte j e"
proof -
  have c: "containing_address (j * 2 ^ 21) = j * 512"
    using assms by (simp add: containing_address_def page_align_down_eq usize_limit_def PAGE_SIZE_def)
  have f: "j * 512 < 2 ^ 40" using assms by simp
  obtain e where e: "from_frame_and_flags (j * 512) IDENTITY_FLAGS = Inr e" "is_present e" "pte_frame e = j * 512" "present_flags e = IDENTITY_FLAGS"
    using present_pte_fields [OF f identity_flags_ok, of 0] by (auto simp: from_frame_and_flags_def MAX_COUNTER_VALUE_eq)
  have "is_huge e" unfolding is_huge_def e(4)
    by (simp add: flags_contains_def IDENTITY_FLAGS_def WRITABLE_def HUGE_PAGE_def NO_EXECUTE_def GLOBAL_def)
  then show ?thesis using e c by (auto simp: identity_pte_def)
qed

text \<open>The state after the first \<open>k\<close> huge pages have been mapped.\<close>

definition id_inv :: "kmem \<Rightarrow> frame \<Rightarrow> frame \<Rightarrow> nat \<Rightarrow> bool" where
  "id_inv km root p3 k \<longleftrightarrow> tree_inv km root \<and> free_zeroed km \<and> node_from km root [257] = Some p3
     \<and> (\<forall>i < 512. \<not> (is_present (km_tables km p3 i) \<and> is_huge (km_tables km p3 i)))
     \<and> (\<forall>j < k. \<exists>t. node_from km root [257, j div 512] = Some t \<and> identity_pte j (km_tables km t (j mod 512)))
     \<and> (\<forall>j t. k \<le> j \<longrightarrow> j < 2048 \<longrightarrow> node_from km root [257, j div 512] = Some t \<longrightarrow> \<not> is_present (km_tables km t (j mod 512)))
     \<and> (\<forall>i < 512. i \<noteq> 257 \<longrightarrow> km_tables km root i = 0)"

lemma id_invD:
  assumes "id_inv km root p3 k"
  shows "tree_inv km root" "free_zeroed km" "node_from km root [257] = Some p3"
    "i < 512 \<Longrightarrow> \<not> (is_present (km_tables km p3 i) \<and> is_huge (km_tables km p3 i))"
    "j < k \<Longrightarrow> \<exists>t. node_from km root [257, j div 512] = Some t \<and> identity_pte j (km_tables km t (j mod 512))"
    "k \<le> j \<Longrightarrow> j < 2048 \<Longrightarrow> node_from km root [257, j div 512] = Some t \<Longrightarrow> \<not> is_present (km_tables km t (j mod 512))"
    "i < 512 \<Longrightarrow> i \<noteq> 257 \<Longrightarrow> km_tables km root i = 0"
  using assms by (simp_all add: id_inv_def)

lemma id_paths: "i < 512 \<Longrightarrow> table_path [257, i]" "table_path [257]"
  by (simp_all add: table_path_def ENTRY_COUNT_def)

lemma two_level: "node_from km root [257] = Some p3 \<Longrightarrow> node_from km root [257, i] = child km p3 i"
  by (simp split: option.splits)

lemma id_table_not_p3:
  assumes "id_inv km root p3 k" and "i < 512" and "node_from km root [257, i] = Some t"
  shows "t \<noteq> p3"
  using tree_invD(2) [OF id_invD(1) [OF assms(1)] id_paths(1) [OF assms(2)] id_paths(2) assms(3)] id_invD(3) [OF assms(1)] by auto

lemma id_table_not_root:
  assumes "id_inv km root p3 k"
  shows "p3 \<noteq> root" and "i < 512 \<Longrightarrow> node_from km root [257, i] = Some t \<Longrightarrow> t \<noteq> root"
  using tree_invD(2) [OF id_invD(1) [OF assms] _ id_paths(2), of "[]"] tree_invD(2) [OF id_invD(1) [OF assms] _ id_paths(1), of "[]"]
    id_invD(3) [OF assms] by (force simp: table_path_def simp del: node_from.simps(2))+

lemma id_create:
  assumes inv: "id_inv km root p3 k" and i: "i < 512" and free: "kernel_free (km_phys km) \<noteq> {}" and k: "k \<le> 2048"
  shows "\<exists>km' u. create_next_table p3 i km = Inr (km', Inr u) \<and> id_inv km' root p3 k \<and> node_from km' root [257, i] = Some u
     \<and> card (kernel_free (km_phys km)) \<le> card (kernel_free (km_phys km')) + 1 \<and> extends km root UNIV km'"
proof -
  note d = id_invD [OF inv]
  obtain km' u where c: "create_next_table p3 i km = Inr (km', Inr u)" "node_from km' root [257, i] = Some u" "grown km root 1 km'"
      "\<forall>v j. (v, j) \<noteq> (p3, i) \<longrightarrow> km_tables km' v j = km_tables km v j"
      "is_present (km_tables km p3 i) \<or> u \<in> kernel_free (km_phys km)"
    using create_next_table_detail [OF d(1,2) _ d(3) d(4) [OF i] free] id_paths(1) [OF i] by auto
  have x: "extends km root UNIV km'"
    using create_next_table_extends [OF d(1,2) _ d(3) d(4) [OF i] free, of UNIV] id_paths(1) [OF i] c(1) by auto
  note g = grownD [OF c(3)]
  have n: "node_from km' root [257] = Some p3" using g(4) [OF id_paths(2) d(3)] .
  have u: "u \<noteq> p3" using tree_invD(2) [OF g(1) id_paths(1) [OF i] id_paths(2) c(2)] n by auto
  have same: "child km' p3 m = child km p3 m" if "m \<noteq> i" for m using c(4) that by (simp add: child_def)
  have old: "node_from km root [257, m] = Some t" if "m < 512" "node_from km' root [257, m] = Some t" "m \<noteq> i \<or> is_present (km_tables km p3 i)" for m t
  proof (cases "m = i")
    case True
    then have "child km p3 i = Some (pte_frame (km_tables km p3 i))" using that(3) d(4) [OF i] by (simp add: child_def)
    then have "node_from km root [257, i] \<noteq> None" unfolding two_level [OF d(3)] by simp
    then show ?thesis using g(4) [OF id_paths(1) [OF i]] that(2) True by (auto simp del: node_from.simps)
  next
    case False
    then show ?thesis using that(2) same unfolding two_level [OF n] two_level [OF d(3)] by simp
  qed
  have "\<exists>t. node_from km' root [257, j div 512] = Some t \<and> identity_pte j (km_tables km' t (j mod 512))" if j: "j < k" for j
  proof -
    have m: "j div 512 < 512" using j k by simp
    obtain t where t: "node_from km root [257, j div 512] = Some t" "identity_pte j (km_tables km t (j mod 512))" using d(5) [OF j] by blast
    then show ?thesis using g(4) [OF id_paths(1) [OF m] t(1)] c(4) id_table_not_p3 [OF inv m t(1)] by (auto simp del: node_from.simps)
  qed
  moreover have "\<not> is_present (km_tables km' t (j mod 512))" if j: "k \<le> j" "j < 2048" "node_from km' root [257, j div 512] = Some t" for j t
  proof (cases "j div 512 \<noteq> i \<or> is_present (km_tables km p3 i)")
    case True
    have m: "j div 512 < 512" using j(2) by simp
    then show ?thesis using d(6) [OF j(1,2) old [OF m j(3) True]] id_table_not_p3 [OF inv m old [OF m j(3) True]] c(4) by (auto simp del: node_from.simps)
  next
    case False
    then have "t = u" "u \<in> kernel_free (km_phys km)" using j(3) c(2,5) by (auto simp del: node_from.simps)
    then have "km_tables km' t (j mod 512) = 0" using d(2) u c(4) by (auto simp: free_zeroed_def ENTRY_COUNT_def)
    then show ?thesis by (simp add: is_present_bit)
  qed
  moreover have "\<not> (is_present (km_tables km' p3 m) \<and> is_huge (km_tables km' p3 m))" if "m < 512" for m
  proof (cases "m = i")
    case True
    have "child km' p3 i = Some u" using c(2) unfolding two_level [OF n] .
    then show ?thesis using True by (auto simp: child_def Let_def split: if_splits)
  next
    case False
    then show ?thesis using d(4) [OF that] c(4) by simp
  qed
  moreover have "\<forall>m < 512. m \<noteq> 257 \<longrightarrow> km_tables km' root m = 0" using d(7) c(4) id_table_not_root(1) [OF inv] by simp
  ultimately show ?thesis using c(1,2) n g(1,2,7) x unfolding id_inv_def by blast
qed

lemma child_node_cong: "(\<And>t i. child km' t i = child km t i) \<Longrightarrow> node_from km' t p = node_from km t p"
  by (induction p arbitrary: t) (simp_all split: option.splits)

lemma id_write:
  assumes inv: "id_inv km root p3 k" and k: "k < 2048" and u: "node_from km root [257, k div 512] = Some u" and e: "identity_pte k e"
  shows "id_inv (write_entry km u (k mod 512) e) root p3 (Suc k)
     \<and> node_from (write_entry km u (k mod 512) e) root [257, k div 512] = Some u
     \<and> extends km root UNIV (write_entry km u (k mod 512) e)"
proof -
  let ?km = "write_entry km u (k mod 512) e"
  note d = id_invD [OF inv]
  have m: "k div 512 < 512" using k by simp
  have "child ?km t i = child km t i" for t i
    using d(6) [OF order_refl k u] e by (auto simp: child_def Let_def identity_pte_def)
  then have n: "node_from ?km t p = node_from km t p" for t p by (rule child_node_cong)
  have "u \<notin> kernel_free (km_phys km)" using tree_invD(4) [OF d(1) id_paths(1) [OF m] u] .
  then have "free_zeroed ?km" using d(2) by (auto simp: free_zeroed_def)
  moreover have "tree_inv ?km root" using d(1) by (simp add: tree_inv_def n)
  moreover have "u \<noteq> p3" by (rule id_table_not_p3 [OF inv m u])
  then have "\<forall>i < 512. \<not> (is_present (km_tables ?km p3 i) \<and> is_huge (km_tables ?km p3 i))" using d(4) by simp
  moreover have key: "\<not> (t = u \<and> j mod 512 = k mod 512)" if "node_from km root [257, j div 512] = Some t" "j < 2048" "j \<noteq> k" for j t
  proof
    assume t: "t = u \<and> j mod 512 = k mod 512"
    have "j div 512 < 512" using that(2) by simp
    then have "[257, j div 512] = [257, k div 512]" using tree_invD(2) [OF d(1) id_paths(1) id_paths(1) [OF m] that(1)] u t by blast
    then show False using t that(3) by (metis div_mult_mod_eq list.inject)
  qed
  have "\<exists>t. node_from ?km root [257, j div 512] = Some t \<and> identity_pte j (km_tables ?km t (j mod 512))" if "j < Suc k" for j
  proof (cases "j = k")
    case True
    then show ?thesis unfolding n using u e by (intro exI [of _ u]) simp
  next
    case False
    then have "j < k" "j < 2048" using that k by auto
    then obtain t where "node_from km root [257, j div 512] = Some t" "identity_pte j (km_tables km t (j mod 512))" using d(5) by blast
    then show ?thesis unfolding n using key [OF _ \<open>j < 2048\<close> False] by (intro exI [of _ t]) (auto simp del: node_from.simps)
  qed
  moreover have "\<not> is_present (km_tables ?km t (j mod 512))" if "Suc k \<le> j" "j < 2048" "node_from ?km root [257, j div 512] = Some t" for j t
  proof -
    have t: "node_from km root [257, j div 512] = Some t" using that(3) unfolding n .
    show ?thesis using d(6) [OF _ that(2) t] key [OF t that(2)] that(1) by auto
  qed
  moreover have "\<forall>i < 512. i \<noteq> 257 \<longrightarrow> km_tables ?km root i = 0" using d(7) id_table_not_root(2) [OF inv m u] by simp
  moreover have "is_table km root u" using u id_paths(1) [OF m] unfolding is_table_def by blast
  then have "extends km root UNIV ?km" by (auto simp: extends_def is_table_def n fun_eq_iff)
  ultimately show ?thesis using d(3) u unfolding id_inv_def n by blast
qed

declare identity_loop.simps [simp del]

lemma identity_step:
  assumes inv: "id_inv km root p3 k" and k: "k < 2048" and cur: "cur < 4"
    and at: "cur = k div 512 \<and> node_from km root [257, cur] = Some p2 \<or> cur + 1 = k div 512"
    and free: "3 \<le> cur + card (kernel_free (km_phys km))"
  shows "\<exists>km' u. identity_loop p3 (IDENTITY_MAP_REGION + IDENTITY_MAP_SIZE) (IDENTITY_MAP_REGION + k * 2 ^ 21) cur p2 km =
       identity_loop p3 (IDENTITY_MAP_REGION + IDENTITY_MAP_SIZE) (IDENTITY_MAP_REGION + Suc k * 2 ^ 21) (k div 512) u km'
     \<and> id_inv km' root p3 (Suc k) \<and> node_from km' root [257, k div 512] = Some u
     \<and> cur + card (kernel_free (km_phys km)) \<le> k div 512 + card (kernel_free (km_phys km')) \<and> extends km root UNIV km'"
proof -
  have x: "k * 2 ^ 21 < 2 ^ 32" using k by simp
  have i: "p3_index (IDENTITY_MAP_REGION + k * 2 ^ 21) = k div 512" "p2_index (IDENTITY_MAP_REGION + k * 2 ^ 21) = k mod 512"
    using identity_indices(2,3) [OF x] by (simp_all add: div_mult2_eq [of "k * 2 ^ 21" "2 ^ 21" "2 ^ 9", simplified])
  have m: "k div 512 < 4" using k by simp
  obtain km1 u where c: "(if k div 512 \<noteq> cur then create_next_table p3 (k div 512) km else Inr (km, Inr p2)) = Inr (km1, Inr u)"
      "id_inv km1 root p3 k" "node_from km1 root [257, k div 512] = Some u" "cur + card (kernel_free (km_phys km)) \<le> k div 512 + card (kernel_free (km_phys km1))"
      "extends km root UNIV km1"
  proof (cases "k div 512 = cur")
    case True
    then show ?thesis using that [of km p2] inv at free extends_refl by auto
  next
    case False
    then have "cur + 1 = k div 512" using at by auto
    then have "kernel_free (km_phys km) \<noteq> {}" using free m by auto
    from id_create [OF inv _ this, of "k div 512"] k m obtain km1 u where
      "create_next_table p3 (k div 512) km = Inr (km1, Inr u)" "id_inv km1 root p3 k" "node_from km1 root [257, k div 512] = Some u"
      "card (kernel_free (km_phys km)) \<le> card (kernel_free (km_phys km1)) + 1" "extends km root UNIV km1" by auto
    then show ?thesis using that [of km1 u] False \<open>cur + 1 = k div 512\<close> free by (simp del: node_from.simps)
  qed
  obtain e where e: "from_frame_and_flags (containing_address (k * 2 ^ 21)) IDENTITY_FLAGS = Inr e" "identity_pte k e"
    using identity_pte_new [OF k] by blast
  let ?km = "write_entry km1 u (k mod 512) e"
  have s: "set_entry u (k mod 512) e km1 = Inr ?km" by (rule set_entry_eq) (simp add: ENTRY_COUNT_def)
  have a: "usub (IDENTITY_MAP_REGION + k * 2 ^ 21) IDENTITY_MAP_REGION = Inr (k * 2 ^ 21)" by simp
  have b: "uadd (IDENTITY_MAP_REGION + k * 2 ^ 21) HUGE_PAGE_SIZE = Inr (IDENTITY_MAP_REGION + Suc k * 2 ^ 21)"
    using k by (simp add: uadd_def usize_limit_def IDENTITY_MAP_REGION_def HUGE_PAGE_SIZE_def PAGE_SIZE_def)
  have l: "IDENTITY_MAP_REGION + k * 2 ^ 21 < IDENTITY_MAP_REGION + IDENTITY_MAP_SIZE" using x by (simp add: IDENTITY_MAP_SIZE_def)
  have "identity_loop p3 (IDENTITY_MAP_REGION + IDENTITY_MAP_SIZE) (IDENTITY_MAP_REGION + k * 2 ^ 21) cur p2 km =
       identity_loop p3 (IDENTITY_MAP_REGION + IDENTITY_MAP_SIZE) (IDENTITY_MAP_REGION + Suc k * 2 ^ 21) (k div 512) u ?km"
    unfolding identity_loop.simps [of p3 _ "IDENTITY_MAP_REGION + k * 2 ^ 21"] i c(1) using l a e(1) s b by simp
  then show ?thesis using id_write [OF c(2) k c(3) e(2)] c(4) extends_trans [OF c(5), of ?km]
    by (intro exI [of _ ?km] exI [of _ u]) (simp del: node_from.simps)
qed

lemma identity_loop_ok:
  assumes "id_inv km root p3 k" and "k \<le> 2048" and "cur < 4"
    and "cur = k div 512 \<and> node_from km root [257, cur] = Some p2 \<or> cur + 1 = k div 512"
    and "3 \<le> cur + card (kernel_free (km_phys km))"
  shows "\<exists>km'. identity_loop p3 (IDENTITY_MAP_REGION + IDENTITY_MAP_SIZE) (IDENTITY_MAP_REGION + k * 2 ^ 21) cur p2 km = Inr (km', Inr ())
     \<and> id_inv km' root p3 2048 \<and> cur + card (kernel_free (km_phys km)) \<le> 3 + card (kernel_free (km_phys km')) \<and> extends km root UNIV km'"
  using assms
proof (induction "2048 - k" arbitrary: km k cur p2)
  case 0
  then have "k = 2048" by simp
  then show ?case using 0 by (simp add: identity_loop.simps IDENTITY_MAP_SIZE_def extends_refl)
next
  case (Suc n)
  then have k: "k < 2048" by simp
  obtain km1 u where s: "identity_loop p3 (IDENTITY_MAP_REGION + IDENTITY_MAP_SIZE) (IDENTITY_MAP_REGION + k * 2 ^ 21) cur p2 km =
       identity_loop p3 (IDENTITY_MAP_REGION + IDENTITY_MAP_SIZE) (IDENTITY_MAP_REGION + Suc k * 2 ^ 21) (k div 512) u km1"
     "id_inv km1 root p3 (Suc k)" "node_from km1 root [257, k div 512] = Some u"
     "cur + card (kernel_free (km_phys km)) \<le> k div 512 + card (kernel_free (km_phys km1))" "extends km root UNIV km1"
    using identity_step [OF Suc.prems(1) k Suc.prems(3-5)] by blast
  have "k div 512 < 4" "Suc k div 512 = k div 512 \<or> Suc k div 512 = k div 512 + 1" using k by (auto simp: div_Suc)
  then have a: "k div 512 < 4" "k div 512 = Suc k div 512 \<and> node_from km1 root [257, k div 512] = Some u \<or> k div 512 + 1 = Suc k div 512"
    using s(3) by (auto simp del: node_from.simps)
  have n: "n = 2048 - Suc k" "Suc k \<le> 2048" "3 \<le> k div 512 + card (kernel_free (km_phys km1))"
    using Suc.hyps(2) Suc.prems(5) s(4) k by auto
  from Suc.hyps(1) [OF n(1) s(2) n(2) a n(3)] show ?case unfolding s(1) using s(4) extends_trans [OF s(5)] by (auto simp del: node_from.simps)
qed

text \<open>A frame that is about to become the root of the new tables.\<close>

definition fresh_root :: "kmem \<Rightarrow> frame \<Rightarrow> bool" where
  "fresh_root km root \<longleftrightarrow> tree_inv km root \<and> free_zeroed km \<and> (\<forall>i < ENTRY_COUNT. km_tables km root i = 0)"

lemma not_present_0 [simp]: "\<not> is_present 0"
  by (simp add: is_present_bit)

lemma id_start:
  assumes r: "fresh_root km root" and free: "kernel_free (km_phys km) \<noteq> {}"
  shows "\<exists>km' p3. create_next_table root 257 km = Inr (km', Inr p3) \<and> id_inv km' root p3 0
     \<and> card (kernel_free (km_phys km)) \<le> card (kernel_free (km_phys km')) + 1 \<and> extends km root UNIV km'"
proof -
  have t: "tree_inv km root" "free_zeroed km" and z: "i < 512 \<Longrightarrow> km_tables km root i = 0" for i
    using r by (auto simp: fresh_root_def ENTRY_COUNT_def)
  have n: "\<not> (is_present (km_tables km root 257) \<and> is_huge (km_tables km root 257))" using z [of 257] by simp
  obtain km' u where c: "create_next_table root 257 km = Inr (km', Inr u)" "node_from km' root [257] = Some u" "grown km root 1 km'"
      "\<forall>v j. (v, j) \<noteq> (root, 257) \<longrightarrow> km_tables km' v j = km_tables km v j" "u \<in> kernel_free (km_phys km)"
    using create_next_table_detail [OF t, of "[]" 257 root, OF _ _ n free] z [of 257] id_paths(2) by auto
  have x: "extends km root UNIV km'"
    using create_next_table_extends [OF t, of "[]" 257 root, OF _ _ n free, of UNIV] id_paths(2) c(1) by auto
  note g = grownD [OF c(3)]
  have "u \<noteq> root" using tree_invD(4) [OF t(1), of "[]" root] c(5) by (auto simp: table_path_def)
  then have u: "i < 512 \<Longrightarrow> km_tables km' u i = 0" for i using c(4,5) t(2) by (auto simp: free_zeroed_def ENTRY_COUNT_def)
  then have e: "node_from km' root [257, i] = None" if "i < 512" for i
    unfolding two_level [OF c(2)] using that by (simp add: child_def)
  have "node_from km' root [257, j div 512] \<noteq> Some t" if "j < 2048" for j t
    using e [of "j div 512"] that by (simp del: node_from.simps)
  then have "id_inv km' root u 0" using c(2,4) g(1,2) u z unfolding id_inv_def by (simp del: node_from.simps)
  then show ?thesis using c(1) g(7) x by blast
qed

lemma prepare_identity_ok:
  assumes r: "fresh_root km root" and free: "5 \<le> card (kernel_free (km_phys km))"
  shows "\<exists>km' p3. prepare_identity_mapping False root km = Inr (km', Inr ()) \<and> id_inv km' root p3 2048
     \<and> card (kernel_free (km_phys km)) \<le> card (kernel_free (km_phys km')) + 5 \<and> extends km root UNIV km'"
proof -
  have i: "p4_index IDENTITY_MAP_REGION = 257" "p3_index IDENTITY_MAP_REGION = 0" "p4_index (IDENTITY_MAP_REGION + 0xffffffff) = 257"
    using identity_indices [of 0] identity_indices(1) [of "0xffffffff"] by simp_all
  have a: "uadd IDENTITY_MAP_REGION 0xffffffff = Inr (IDENTITY_MAP_REGION + 0xffffffff)"
      "uadd IDENTITY_MAP_REGION IDENTITY_MAP_SIZE = Inr (IDENTITY_MAP_REGION + IDENTITY_MAP_SIZE)"
    by (simp_all add: uadd_def usize_limit_def IDENTITY_MAP_REGION_def IDENTITY_MAP_SIZE_def)
  obtain km1 p3 where c1: "create_next_table root 257 km = Inr (km1, Inr p3)" "id_inv km1 root p3 0"
      "card (kernel_free (km_phys km)) \<le> card (kernel_free (km_phys km1)) + 1" "extends km root UNIV km1"
    using id_start [OF r] free by fastforce
  obtain km2 p2 where c2: "create_next_table p3 0 km1 = Inr (km2, Inr p2)" "id_inv km2 root p3 0" "node_from km2 root [257, 0] = Some p2"
      "card (kernel_free (km_phys km1)) \<le> card (kernel_free (km_phys km2)) + 1" "extends km1 root UNIV km2"
    using id_create [OF c1(2), of 0] c1(3) free by fastforce
  obtain km3 where c3: "identity_loop p3 (IDENTITY_MAP_REGION + IDENTITY_MAP_SIZE) IDENTITY_MAP_REGION 0 p2 km2 = Inr (km3, Inr ())"
      "id_inv km3 root p3 2048" "card (kernel_free (km_phys km2)) \<le> 3 + card (kernel_free (km_phys km3))"
      "extends km2 root UNIV km3"
    using identity_loop_ok [OF c2(2), of 0 p2] c2(3) c1(3) c2(4) free by auto
  have "prepare_identity_mapping False root km = Inr (km3, Inr ())"
    unfolding prepare_identity_mapping_def IDENTITY_MAP_PML4_def using a c1(1) c2(1) c3(1) i by (simp add: bindE_def liftE_def)
  then show ?thesis using c3(2,3) c1(3) c2(4) extends_trans [OF extends_trans [OF c1(4) c2(5)] c3(4)] by (intro exI [of _ km3] exI [of _ p3]) simp
qed

lemma identity_walk:
  assumes inv: "id_inv km root p3 2048" and pa: "pa < 2 ^ 32"
  shows "walk km root (IDENTITY_MAP_REGION + pa) = Some pa"
proof -
  let ?j = "pa div 2 ^ 21"
  have j: "?j < 2048" using pa by (simp add: div_less_iff_less_mult)
  obtain t where t: "node_from km root [257, ?j div 512] = Some t" "identity_pte ?j (km_tables km t (?j mod 512))"
    using id_invD(5) [OF inv j] by blast
  have c: "child km root 257 = Some p3" using id_invD(3) [OF inv] by (simp split: option.splits)
  have d: "child km p3 (?j div 512) = Some t" using t(1) unfolding two_level [OF id_invD(3) [OF inv]] .
  have e: "pa div 2 ^ 30 = ?j div 512" by (simp add: div_mult2_eq [symmetric])
  have m: "(IDENTITY_MAP_REGION + pa) mod 2 ^ 21 = pa mod 2 ^ 21"
    using mod_mult_self3 [of "IDENTITY_MAP_REGION div 2 ^ 21" "2 ^ 21" pa] by (simp add: IDENTITY_MAP_REGION_def)
  have "?j div 512 < 512" using j by simp
  then show ?thesis
    unfolding walk_def identity_indices [OF pa] c e
    using id_invD(4) [OF inv, of "?j div 512"] d t(2) m div_mult_mod_eq [of pa "2 ^ 21"]
    by (auto simp: identity_pte_def Let_def PAGE_SIZE_def)
qed

section \<open>Copying the boot loader's mappings\<close>

lemma write_leaf_extends:
  assumes inv: "tree_inv km root" and t: "node_from km root (page_path va) = Some t" and x: "p4_index va \<in> X"
  shows "extends km root X (write_entry km t (p1_index va) e)"
proof -
  let ?km = "write_entry km t (p1_index va) e"
  have n: "table_path q \<Longrightarrow> node_from ?km root q = node_from km root q" for q
    using write_leaf_nodes [OF inv page_path_ok _ t] by (simp add: page_path_def)
  then have i: "is_table ?km root v = is_table km root v" for v by (auto simp: is_table_def)
  have c: "\<forall>v j. (v, j) \<noteq> (t, p1_index va) \<longrightarrow> km_tables ?km v j = km_tables km v j" by simp
  have "is_table km root t" using t by (auto simp: is_table_def intro: exI [of _ "page_path va"])
  then have "\<not> is_table ?km root v \<Longrightarrow> km_tables ?km v = km_tables km v" for v unfolding i by (auto simp: fun_eq_iff)
  then show ?thesis
    using n i x cell_elsewhere [OF inv page_path_ok t _ _ c, of X] unfolding extends_def
    by (auto simp: page_path_def)
qed

lemma separate_extends:
  assumes s: "separate km boot root" and x: "extends km root X km'"
  shows "table_path q \<Longrightarrow> node_from km' boot q = node_from km boot q" and "is_table km boot t \<Longrightarrow> km_tables km' t = km_tables km t"
    and "separate km' boot root" and "lookup km' boot a = lookup km boot a"
proof -
  show tables: "km_tables km' t = km_tables km t" if "is_table km boot t" for t
    using that s extendsD(1,3) [OF x] unfolding separate_def by blast
  show nodes: "node_from km' boot q = node_from km boot q" if "table_path q" for q
    using that
  proof (induction q rule: rev_induct)
    case (snoc i q)
    then have q: "table_path q" "node_from km' boot q = node_from km boot q" by (auto simp: table_path_snoc)
    show ?case
    proof (cases "node_from km boot q")
      case (Some t)
      then have "is_table km boot t" using q(1) by (auto simp: is_table_def)
      then show ?thesis using tables q(2) Some by (simp add: node_from_snoc child_def)
    qed (use q in \<open>simp add: node_from_snoc\<close>)
  qed simp
  then have "is_table km' boot t = is_table km boot t" for t by (auto simp: is_table_def)
  then show "separate km' boot root" using s extendsD(3,4) [OF x] unfolding separate_def by blast
  have "is_table km boot t" if "node_from km boot (page_path a) = Some t" for t using that by (auto simp: is_table_def intro: exI [of _ "page_path a"])
  then show "lookup km' boot a = lookup km boot a"
    using nodes [of "page_path a"] tables by (auto simp: lookup_def leaf_entry_def split: option.splits)
qed

lemma walk_extends:
  assumes x: "extends km root X km'" and n: "p4_index va \<notin> X" and w: "walk km root va = Some pa"
  shows "walk km' root va = Some pa"
proof -
  have t: "km_tables km' u = km_tables km u" if "node_from km root q = Some u" "table_path q" "q \<noteq> []" "hd q = p4_index va" for q u
    using extendsD(5) [OF x that(2,3)] that n by auto
  have r: "child km' root (p4_index va) = child km root (p4_index va)" using extendsD(6) [OF x n] by (simp add: child_def)
  obtain p3 where p3: "child km root (p4_index va) = Some p3" using w by (auto simp: walk_def split: option.splits)
  have t3: "km_tables km' p3 = km_tables km p3" using t [of "[p4_index va]"] p3 by (simp add: table_path_def)
  have t2: "km_tables km' p2 = km_tables km p2" if "child km p3 (p3_index va) = Some p2" for p2
    using t [of "[p4_index va, p3_index va]"] p3 that by (simp add: table_path_def)
  have t1: "km_tables km' p1 = km_tables km p1" if "child km p3 (p3_index va) = Some p2" "child km p2 (p2_index va) = Some p1" for p2 p1
    using t [of "page_path va"] p3 that by (simp add: page_path_def table_path_def)
  have c: "child km' p3 i = child km p3 i" "child km p3 (p3_index va) = Some p2 \<Longrightarrow> child km' p2 i = child km p2 i" for i p2
    using t3 t2 by (auto simp: child_def)
  show ?thesis using w t1 t2 unfolding walk_def r p3 by (auto simp: c t3 Let_def split: option.splits if_splits)
qed

lemma create_pte_extends:
  assumes inv: "tree_inv km root" and fz: "free_zeroed km" and nh: "no_huge_on km root (page_path va)"
    and free: "3 \<le> card (kernel_free (km_phys km))" and x: "p4_index va \<in> X"
  shows "\<exists>k1 k2 k3 t3 t2 t1. create_next_table root (p4_index va) km = Inr (k1, Inr t3) \<and> create_next_table t3 (p3_index va) k1 = Inr (k2, Inr t2)
     \<and> create_next_table t2 (p2_index va) k2 = Inr (k3, Inr t1) \<and> node_from k3 root (page_path va) = Some t1
     \<and> grown km root 3 k3 \<and> extends km root X k3"
proof -
  have ne: "kernel_free (km_phys k) \<noteq> {}" if "Suc 0 \<le> card (kernel_free (km_phys k))" for k
    using that by auto
  obtain k1 t3 where s1: "create_next_table root (p4_index va) km = Inr (k1, Inr t3)"
      "node_from k1 root ([] @ [p4_index va]) = Some t3" "grown km root 1 k1" "extends km root X k1"
    using create_next_table_extends [OF inv fz page_prefix_ok(1) _ no_huge_page(1) [OF nh] ne, of X] free x by auto
  have c1: "2 \<le> card (kernel_free (km_phys k1))" using grownD(7) [OF s1(3)] free by simp
  have h1: "no_huge_on k1 root (page_path va)" using grownD(5) [OF s1(3)] nh by simp
  have n3: "node_from k1 root [p4_index va] = Some t3" using s1(2) by simp
  obtain k2 t2 where s2: "create_next_table t3 (p3_index va) k1 = Inr (k2, Inr t2)"
      "node_from k2 root ([p4_index va] @ [p3_index va]) = Some t2" "grown k1 root 1 k2" "extends k1 root X k2"
    using create_next_table_extends [OF grownD(1,2) [OF s1(3)] page_prefix_ok(2) n3 no_huge_page(2) [OF h1 n3] ne [of k1], of X] x
      c1 by (auto simp del: node_from.simps)
  have c2: "1 \<le> card (kernel_free (km_phys k2))" using grownD(7) [OF s2(3)] c1 by simp
  have h2: "no_huge_on k2 root (page_path va)" using grownD(5) [OF s2(3)] h1 by simp
  have n2: "node_from k2 root [p4_index va, p3_index va] = Some t2" using s2(2) by simp
  obtain k3 t1 where s3: "create_next_table t2 (p2_index va) k2 = Inr (k3, Inr t1)"
      "node_from k3 root ([p4_index va, p3_index va] @ [p2_index va]) = Some t1" "grown k2 root 1 k3" "extends k2 root X k3"
    using create_next_table_extends [OF grownD(1,2) [OF s2(3)] page_prefix_ok(3) n2 no_huge_page(3) [OF h2 n2] ne [of k2], of X] x
      c2 by (auto simp del: node_from.simps)
  have "grown km root 3 k3" using grown_trans [OF grown_trans [OF s1(3) s2(3)] s3(3)] by (simp add: numeral_3_eq_3)
  moreover have "extends km root X k3" by (rule extends_trans [OF extends_trans [OF s1(4) s2(4)] s3(4)])
  moreover have "node_from k3 root (page_path va) = Some t1" using s3(2) by (simp add: page_path_def)
  ultimately show ?thesis using s1(1) s2(1) s3(1) by blast
qed

lemma boot_walk:
  assumes s: "separate km boot root" and b: "node_from km boot (page_path va) = Some b1"
  shows "\<exists>b3 b2. boot_next km boot (p4_index va) = Inr b3 \<and> boot_next km b3 (p3_index va) = Inr b2 \<and> boot_next km b2 (p2_index va) = Inr b1"
proof -
  obtain b3 b2 where c: "child km boot (p4_index va) = Some b3" "child km b3 (p3_index va) = Some b2" "child km b2 (p2_index va) = Some b1"
    using b by (auto simp: page_path_def split: option.splits)
  then have "node_from km boot [p4_index va] = Some b3" "node_from km boot [p4_index va, p3_index va] = Some b2"
      "node_from km boot (page_path va) = Some b1" "table_path [p4_index va]" "table_path [p4_index va, p3_index va]" "table_path (page_path va)"
    by (simp_all add: page_path_def table_path_def)
  then have "is_table km boot b3" "is_table km boot b2" "is_table km boot b1" unfolding is_table_def by blast+
  then have "identity_mapped b3" "identity_mapped b2" "identity_mapped b1" using s by (auto simp: separate_def)
  then show ?thesis using next_table_child(2) c index_bounds by (auto simp: boot_next_def)
qed

lemma pte_frame_small: "pte_frame p < 2 ^ 40"
proof -
  have "p AND FRAME_BITS \<le> FRAME_BITS" by (simp add: word_and_le1)
  then have "unat (p AND FRAME_BITS) < 2 ^ 52" by (simp add: word_le_nat_alt FRAME_BITS_def)
  then show ?thesis
    by (simp add: pte_frame_def containing_address_def page_align_down_eq usize_limit_def PAGE_SIZE_def div_less_iff_less_mult)
qed

lemma copy_boot_page_ok:
  assumes inv: "tree_inv km root" and fz: "free_zeroed km" and nh: "no_huge_on km root (page_path va)"
    and free: "3 \<le> card (kernel_free (km_phys km))" and sep: "separate km boot root"
    and b: "is_present (lookup km boot va)" and fl: "flags AND NOT present_page_flags = 0"
    and x: "p4_index va \<in> X"
  shows "\<exists>km' e. copy_boot_page boot root va flags km = Inr (km', Inr ()) \<and> kept km root 3 km' \<and> extends km root X km'
     \<and> is_present e \<and> pte_frame e = pte_frame (lookup km boot va) \<and> present_flags e = flags
     \<and> (\<forall>a. lookup km' root a = (if vpn a = vpn va then e else lookup km root a))"
proof -
  obtain k1 k2 k3 t3 t2 t1 where c: "create_next_table root (p4_index va) km = Inr (k1, Inr t3)"
      "create_next_table t3 (p3_index va) k1 = Inr (k2, Inr t2)" "create_next_table t2 (p2_index va) k2 = Inr (k3, Inr t1)"
      "node_from k3 root (page_path va) = Some t1" "grown km root 3 k3" "extends km root X k3"
    using create_pte_extends [OF inv fz nh free x] by blast
  note se = separate_extends [OF sep c(6)]
  obtain e where e: "from_frame_and_flags (pte_frame (lookup km boot va)) flags = Inr e" "is_present e"
      "pte_frame e = pte_frame (lookup km boot va)" "present_flags e = flags"
    using present_pte_fields [OF pte_frame_small fl, of 0] by (auto simp: from_frame_and_flags_def MAX_COUNTER_VALUE_eq)
  obtain b1 where b1: "node_from k3 boot (page_path va) = Some b1" "km_tables k3 b1 (p1_index va) = lookup km boot va"
    using b se(4) [of va] by (cases "node_from k3 boot (page_path va)") (auto simp: lookup_def leaf_entry_def)
  obtain b3 b2 where w: "boot_next k3 boot (p4_index va) = Inr b3" "boot_next k3 b3 (p3_index va) = Inr b2" "boot_next k3 b2 (p2_index va) = Inr b1"
    using boot_walk [OF se(3) b1(1)] by blast
  let ?km = "write_entry k3 t1 (p1_index va) e"
  have "copy_boot_page boot root va flags km = Inr (?km, Inr ())"
    unfolding copy_boot_page_def using c(1-3) w b1(2) b e(1) by (simp add: bindE_def get_entry_def pte_present_def set_entry_eq)
  moreover have "extends km root X ?km"
    by (rule extends_trans [OF c(6) write_leaf_extends [OF grownD(1) [OF c(5)] c(4) x]])
  ultimately show ?thesis
    using e(2-4) lookup_write [OF grownD(1) [OF c(5)] c(4)] lookup_grown [OF c(5)] grown_write_kept [OF c(5,4)] by auto
qed

text \<open>What a copied page looks like, and a range that can be copied.\<close>

definition copied_entry :: "raw_pte \<Rightarrow> u64 \<Rightarrow> raw_pte \<Rightarrow> bool" where
  "copied_entry old flags e \<longleftrightarrow> is_present e \<and> pte_frame e = pte_frame old \<and> present_flags e = flags"

definition good_range :: "kmem \<Rightarrow> frame \<Rightarrow> frame \<Rightarrow> usize \<times> usize \<times> u64 \<Rightarrow> bool" where
  "good_range km boot root r \<longleftrightarrow> (case r of (a, b, flags) \<Rightarrow>
     PAGE_SIZE dvd a \<and> PAGE_SIZE dvd b \<and> b < usize_limit \<and> b - a \<le> 2 ^ 48 \<and> flags AND NOT present_page_flags = 0
     \<and> (\<forall>va \<in> range_pages a b. p4_index va \<noteq> 257 \<and> is_present (lookup km boot va) \<and> no_huge_on km root (page_path va)))"

definition range_size :: "usize \<times> usize \<times> u64 \<Rightarrow> nat" where
  "range_size r = (case r of (a, b, flags) \<Rightarrow> (b - a) div PAGE_SIZE)"

declare copy_boot_mapping.simps [simp del]

lemma range_pages_step:
  assumes "PAGE_SIZE dvd a" and "PAGE_SIZE dvd b" and "a < b"
  shows "range_pages a b = insert a (range_pages (a + PAGE_SIZE) b)" and "a + PAGE_SIZE \<le> b"
    and "(b - a) div PAGE_SIZE = Suc ((b - (a + PAGE_SIZE)) div PAGE_SIZE)"
proof -
  have gap: "a + PAGE_SIZE \<le> c" if "PAGE_SIZE dvd c" "a < c" for c
  proof -
    have "PAGE_SIZE dvd c - a" using that assms(1) by (simp add: dvd_diff_nat)
    then show ?thesis using that(2) dvd_imp_le [of PAGE_SIZE "c - a"] by simp
  qed
  show l: "a + PAGE_SIZE \<le> b" by (rule gap [OF assms(2,3)])
  have "c \<in> range_pages a b \<longleftrightarrow> c \<in> insert a (range_pages (a + PAGE_SIZE) b)" for c
    using gap [of c] assms(1,3) unfolding range_pages_def by (cases "c = a") auto
  then show "range_pages a b = insert a (range_pages (a + PAGE_SIZE) b)" by blast
  show "(b - a) div PAGE_SIZE = Suc ((b - (a + PAGE_SIZE)) div PAGE_SIZE)"
    using le_div_geq [of PAGE_SIZE "b - a"] l by (simp add: PAGE_SIZE_def)
qed

lemma copy_boot_mapping_ok:
  assumes "tree_inv km root" and "free_zeroed km" and "separate km boot root" and "good_range km boot root (a, b, flags)"
    and "3 * range_size (a, b, flags) \<le> card (kernel_free (km_phys km))"
  shows "\<exists>km'. copy_boot_mapping boot root a b flags km = Inr (km', Inr ()) \<and> kept km root (3 * range_size (a, b, flags)) km'
     \<and> extends km root (- {257}) km' \<and> (\<forall>va \<in> range_pages a b. copied_entry (lookup km boot va) flags (lookup km' root va))
     \<and> (\<forall>va. vpn va \<notin> vpn ` range_pages a b \<longrightarrow> lookup km' root va = lookup km root va)"
  using assms
proof (induction "range_size (a, b, flags)" arbitrary: a km)
  case 0
  have "\<not> a < b"
  proof
    assume "a < b"
    then show False using range_pages_step(3) [of a b] 0 by (simp add: good_range_def range_size_def)
  qed
  then have "range_pages a b = {}" by (auto simp: range_pages_def)
  then show ?case using \<open>\<not> a < b\<close> 0 kept_refl [of km root] by (simp add: copy_boot_mapping.simps extends_refl)
next
  case (Suc n)
  have r: "PAGE_SIZE dvd a" "PAGE_SIZE dvd b" "b < usize_limit" "b - a \<le> 2 ^ 48" "flags AND NOT present_page_flags = 0"
    and pages: "va \<in> range_pages a b \<Longrightarrow> p4_index va \<noteq> 257 \<and> is_present (lookup km boot va) \<and> no_huge_on km root (page_path va)" for va
    using Suc.prems(4) by (auto simp: good_range_def)
  have ab: "a < b" using Suc.hyps(2) by (cases "a < b") (auto simp: range_size_def)
  note st = range_pages_step [OF r(1,2) ab]
  have n: "n = range_size (a + PAGE_SIZE, b, flags)" using Suc.hyps(2) st(3) by (simp add: range_size_def)
  have a: "p4_index a \<in> - {257}" "is_present (lookup km boot a)" "no_huge_on km root (page_path a)" using pages [of a] st(1) by auto
  have "3 \<le> card (kernel_free (km_phys km))" using Suc.prems(5) Suc.hyps(2) by simp
  from copy_boot_page_ok [OF Suc.prems(1,2) a(3) this Suc.prems(3) a(2) r(5) a(1)] obtain k e where
    k: "copy_boot_page boot root a flags km = Inr (k, Inr ())" "kept km root 3 k" "extends km root (- {257}) k"
      "copied_entry (lookup km boot a) flags e" "\<forall>va. lookup k root va = (if vpn va = vpn a then e else lookup km root va)"
    unfolding copied_entry_def by blast
  note kd = keptD [OF k(2)] and se = separate_extends [OF Suc.prems(3) k(3)]
  have "good_range k boot root (a + PAGE_SIZE, b, flags)"
    using r st pages kd(3) se(4) by (auto simp: good_range_def)
  moreover have "3 * range_size (a + PAGE_SIZE, b, flags) \<le> card (kernel_free (km_phys k))"
    using Suc.prems(5) Suc.hyps(2) kd(5) n by simp
  ultimately obtain k2 where k2: "copy_boot_mapping boot root (a + PAGE_SIZE) b flags k = Inr (k2, Inr ())"
      "kept k root (3 * range_size (a + PAGE_SIZE, b, flags)) k2" "extends k root (- {257}) k2"
      "\<forall>va \<in> range_pages (a + PAGE_SIZE) b. copied_entry (lookup k boot va) flags (lookup k2 root va)"
      "\<forall>va. vpn va \<notin> vpn ` range_pages (a + PAGE_SIZE) b \<longrightarrow> lookup k2 root va = lookup k root va"
    using Suc.hyps(1) [OF n kd(1,2) se(3)] by blast
  have "uadd a PAGE_SIZE = Inr (a + PAGE_SIZE)" using st(2) r(3) by (simp add: uadd_def)
  then have "copy_boot_mapping boot root a b flags km = Inr (k2, Inr ())"
    using ab k(1) k2(1) by (simp add: copy_boot_mapping.simps [of boot root a])
  moreover have "kept km root (3 * range_size (a, b, flags)) k2"
    using kept_trans [OF k(2) k2(2)] unfolding Suc.hyps(2) [symmetric] n [symmetric] by simp
  moreover have "extends km root (- {257}) k2" by (rule extends_trans [OF k(3) k2(3)])
  moreover have f: "vpn a \<notin> vpn ` range_pages (a + PAGE_SIZE) b"
    using vpn_inj [of a _ a b] r ab by (force simp: range_pages_def PAGE_SIZE_def)
  then have "lookup k2 root a = e" using k2(5) k(5) by simp
  then have "\<forall>va \<in> range_pages a b. copied_entry (lookup km boot va) flags (lookup k2 root va)"
    using k2(4) k(4) se(4) unfolding st(1) by simp
  moreover have "\<forall>va. vpn va \<notin> vpn ` range_pages a b \<longrightarrow> lookup k2 root va = lookup km root va"
    using k2(5) k(5) unfolding st(1) by simp
  ultimately show ?case by blast
qed

definition disjoint_ranges :: "(usize \<times> usize \<times> u64) list \<Rightarrow> bool" where
  "disjoint_ranges rs \<longleftrightarrow> sorted_wrt (\<lambda>(a, b, _) (a', b', _). vpn ` range_pages a b \<inter> vpn ` range_pages a' b' = {}) rs"

lemma good_range_kept:
  assumes "good_range km boot root r" and "kept km root n km'" and "\<forall>va. lookup km' boot va = lookup km boot va"
  shows "good_range km' boot root r"
  using assms keptD(3) [OF assms(2)] by (auto simp: good_range_def)

lemma copy_boot_ranges_ok:
  assumes "tree_inv km root" and "free_zeroed km" and "separate km boot root" and "\<forall>r \<in> set rs. good_range km boot root r"
    and "3 * sum_list (map range_size rs) \<le> card (kernel_free (km_phys km))" and "disjoint_ranges rs"
  shows "\<exists>km'. copy_boot_ranges boot root rs km = Inr km' \<and> kept km root (3 * sum_list (map range_size rs)) km'
     \<and> extends km root (- {257}) km'
     \<and> (\<forall>(a, b, flags) \<in> set rs. \<forall>va \<in> range_pages a b. copied_entry (lookup km boot va) flags (lookup km' root va))
     \<and> (\<forall>va. (\<forall>(a, b, _) \<in> set rs. vpn va \<notin> vpn ` range_pages a b) \<longrightarrow> lookup km' root va = lookup km root va)"
  using assms
proof (induction rs arbitrary: km)
  case Nil
  then show ?case using kept_refl [of km root 0] by (simp add: extends_refl)
next
  case (Cons r rs)
  obtain a b flags where r: "r = (a, b, flags)" by (cases r)
  have "3 * range_size (a, b, flags) \<le> card (kernel_free (km_phys km))" "good_range km boot root (a, b, flags)"
    using Cons.prems(4,5) r by auto
  from copy_boot_mapping_ok [OF Cons.prems(1-3) this(2,1)] obtain k where
    k: "copy_boot_mapping boot root a b flags km = Inr (k, Inr ())" "kept km root (3 * range_size r) k" "extends km root (- {257}) k"
      "\<forall>va \<in> range_pages a b. copied_entry (lookup km boot va) flags (lookup k root va)"
      "\<forall>va. vpn va \<notin> vpn ` range_pages a b \<longrightarrow> lookup k root va = lookup km root va"
    unfolding r by blast
  note se = separate_extends [OF Cons.prems(3) k(3)]
  have g: "\<forall>r \<in> set rs. good_range k boot root r" using good_range_kept [OF _ k(2)] Cons.prems(4) se(4) by simp
  have c: "3 * sum_list (map range_size rs) \<le> card (kernel_free (km_phys k))" using Cons.prems(5) keptD(5) [OF k(2)] by simp
  have dj: "disjoint_ranges rs" and apart: "\<forall>(a', b', _) \<in> set rs. vpn ` range_pages a b \<inter> vpn ` range_pages a' b' = {}"
    using Cons.prems(6) r by (auto simp: disjoint_ranges_def)
  obtain k2 where k2: "copy_boot_ranges boot root rs k = Inr k2" "kept k root (3 * sum_list (map range_size rs)) k2" "extends k root (- {257}) k2"
      "\<forall>(a, b, flags) \<in> set rs. \<forall>va \<in> range_pages a b. copied_entry (lookup k boot va) flags (lookup k2 root va)"
      "\<forall>va. (\<forall>(a, b, _) \<in> set rs. vpn va \<notin> vpn ` range_pages a b) \<longrightarrow> lookup k2 root va = lookup k root va"
    using Cons.IH [OF keptD(1,2) [OF k(2)] se(3) g c dj] by blast
  have "copy_boot_ranges boot root (r # rs) km = Inr k2" using r k(1) k2(1) by (simp add: expectE_def)
  moreover have "kept km root (3 * sum_list (map range_size (r # rs))) k2" using kept_trans [OF k(2) k2(2)] by simp
  moreover have "extends km root (- {257}) k2" by (rule extends_trans [OF k(3) k2(3)])
  moreover have "copied_entry (lookup km boot va) flags (lookup k2 root va)" if "va \<in> range_pages a b" for va
  proof -
    have "\<forall>(a', b', _) \<in> set rs. vpn va \<notin> vpn ` range_pages a' b'" using apart that by fastforce
    then show ?thesis using k2(5) k(4) that by simp
  qed
  moreover have "\<forall>va. (\<forall>(a, b, _) \<in> set (r # rs). vpn va \<notin> vpn ` range_pages a b) \<longrightarrow> lookup k2 root va = lookup km root va"
    using k2(5) k(5) r by simp
  ultimately show ?case using k2(4) se(4) r by (intro exI [of _ k2]) auto
qed

section \<open>The kernel's own tables\<close>

text \<open>
  What \<^verbatim>\<open>init\<close> relies on: the tables of the boot loader are under the identity map and not among
  the free frames, the ranges of the image are page aligned, mapped by the boot loader and apart,
  outside the identity map and the heap, and there is memory for the new tables.
\<close>

definition boot_range :: "kmem \<Rightarrow> frame \<Rightarrow> usize \<times> usize \<times> u64 \<Rightarrow> bool" where
  "boot_range km boot r \<longleftrightarrow> (case r of (a, b, flags) \<Rightarrow>
     PAGE_SIZE dvd a \<and> PAGE_SIZE dvd b \<and> b < usize_limit \<and> b - a \<le> 2 ^ 48
     \<and> (\<forall>va \<in> range_pages a b. p4_index va \<noteq> 257 \<and> p4_index va \<noteq> 511 \<and> is_present (lookup km boot va)))"

definition boot_ready :: "kernel_image \<Rightarrow> kmem \<Rightarrow> nat \<Rightarrow> bool" where
  "boot_ready ki km m \<longleftrightarrow> pm_inv (km_phys km) \<and> free_zeroed km \<and> (\<forall>f \<in> kernel_free (km_phys km). identity_mapped f)
     \<and> unat (km_cr3 km) + PAGE_SIZE < IDENTITY_MAP_SIZE
     \<and> (\<forall>t. is_table km (cr3_frame km) t \<longrightarrow> identity_mapped t \<and> t \<notin> kernel_free (km_phys km))
     \<and> (\<forall>r \<in> set (boot_ranges ki). boot_range km (cr3_frame km) r) \<and> disjoint_ranges (boot_ranges ki)
     \<and> 6 + 3 * sum_list (map range_size (boot_ranges ki)) + m \<le> card (kernel_free (km_phys km))"

definition image_mapped :: "kernel_image \<Rightarrow> (usize \<Rightarrow> raw_pte) \<Rightarrow> (usize \<Rightarrow> raw_pte) \<Rightarrow> bool" where
  "image_mapped ki old new \<longleftrightarrow>
     (\<forall>(a, b, flags) \<in> set (boot_ranges ki). \<forall>va \<in> range_pages a b. copied_entry (old va) flags (new va))"

lemma boot_flags_ok: "(a, b, flags) \<in> set (boot_ranges ki) \<Longrightarrow> flags AND NOT present_page_flags = 0"
  by (auto simp: boot_ranges_def present_page_flags_mask mask_eq_exp_minus_1 push_bit_eq_mult GLOBAL_def NO_EXECUTE_def WRITABLE_def)

text \<open>A root without an entry for an address has nothing mapped there.\<close>

lemma root_empty:
  assumes "km_tables km root (p4_index va) = 0"
  shows "lookup km root va = 0" and "no_huge_on km root (page_path va)"
proof -
  have c: "child km root (p4_index va) = None" using assms by (simp add: child_def)
  then show "lookup km root va = 0" by (simp add: lookup_def leaf_entry_def page_path_def)
  show "no_huge_on km root (page_path va)"
    using assms c by (auto simp: no_huge_on_def page_path_def less_Suc_eq)
qed

lemma taken_table:
  assumes z: "free_zeroed km" and t: "took kernel_free kernel_owns (km_phys km) pm f" and q: "table_path q"
  shows "node_from (km\<lparr>km_phys := pm\<rparr>) f q = (if q = [] then Some f else None)"
proof (cases q)
  case (Cons i p)
  then have "km_tables km f i = 0" using z tookD(1) [OF t] q by (simp add: free_zeroed_def table_path_def)
  then show ?thesis using Cons by (simp add: child_def)
qed simp

lemma fresh_table:
  assumes inv: "pm_inv (km_phys km)" and z: "free_zeroed km" and im: "\<forall>f \<in> kernel_free (km_phys km). identity_mapped f"
    and t: "took kernel_free kernel_owns (km_phys km) pm f"
  shows "fresh_root (km\<lparr>km_phys := pm\<rparr>) f"
proof -
  have "tree_inv (km\<lparr>km_phys := pm\<rparr>) f"
    using tookD(1-3) [OF t] im by (auto simp: tree_inv_def taken_table [OF z t] split: if_splits)
  then show ?thesis using z tookD(1,3) [OF t] by (simp add: fresh_root_def free_zeroed_def)
qed

lemma physical_address_ok: "identity_mapped f \<Longrightarrow> physical_address f = Inr (f * PAGE_SIZE)"
  by (simp add: physical_address_def identity_mapped_def umul_def PAGE_SIZE_def IDENTITY_MAP_SIZE_def usize_limit_def)

lemma cr3_ref_ok: "unat (km_cr3 km) + PAGE_SIZE < IDENTITY_MAP_SIZE \<Longrightarrow> \<exists>a. phys_to_virt_addr (unat (km_cr3 km)) (8 * ENTRY_COUNT) = Inr a"
  by (simp add: phys_to_virt_addr_def uadd_def ENTRY_COUNT_def PAGE_SIZE_def IDENTITY_MAP_SIZE_def
      IDENTITY_MAP_REGION_def usize_limit_def)

lemma cr3_set: "identity_mapped f \<Longrightarrow> cr3_frame (km\<lparr>km_cr3 := of_nat (f * PAGE_SIZE)\<rparr>) = f"
proof -
  assume f: "identity_mapped f"
  have "f * PAGE_SIZE < usize_limit" using f by (simp add: identity_mapped_def IDENTITY_MAP_SIZE_def usize_limit_def)
  moreover from this have "unat (of_nat (f * PAGE_SIZE) :: u64) = f * PAGE_SIZE"
    unfolding unat_of_nat by (simp add: usize_limit_def)
  ultimately show ?thesis by (simp add: cr3_frame_def containing_address_eq PAGE_SIZE_def)
qed

lemma boot_separate:
  assumes z: "free_zeroed km" and b: "\<forall>t. is_table km boot t \<longrightarrow> identity_mapped t \<and> t \<notin> kernel_free (km_phys km)"
    and t: "took kernel_free kernel_owns (km_phys km) pm f"
  shows "separate (km\<lparr>km_phys := pm\<rparr>) boot f"
proof -
  let ?km = "km\<lparr>km_phys := pm\<rparr>"
  have "is_table ?km boot v = is_table km boot v" for v
    unfolding is_table_def by (simp add: node_from_cong [of ?km km])
  moreover have "is_table ?km f v \<Longrightarrow> v = f" for v
    unfolding is_table_def using taken_table [OF z t] by (auto split: if_splits)
  ultimately show ?thesis using b tookD(1,3) [OF t] by (auto simp: separate_def)
qed

text \<open>Loading another root does not change the tables.\<close>

lemma cr3_update:
  "lookup (km\<lparr>km_cr3 := c\<rparr>) root a = lookup km root a" "walk (km\<lparr>km_cr3 := c\<rparr>) root a = walk km root a"
  "tree_inv (km\<lparr>km_cr3 := c\<rparr>) root = tree_inv km root" "free_zeroed (km\<lparr>km_cr3 := c\<rparr>) = free_zeroed km"
  "no_huge_on (km\<lparr>km_cr3 := c\<rparr>) root q = no_huge_on km root q"
proof -
  have t: "km_tables (km\<lparr>km_cr3 := c\<rparr>) = km_tables km" by simp
  have "node_from (km\<lparr>km_cr3 := c\<rparr>) t q = node_from km t q" for t q by (rule node_from_cong [OF t])
  then show "tree_inv (km\<lparr>km_cr3 := c\<rparr>) root = tree_inv km root" "no_huge_on (km\<lparr>km_cr3 := c\<rparr>) root q = no_huge_on km root q"
    by (simp_all add: tree_inv_def no_huge_on_def)
  show "lookup (km\<lparr>km_cr3 := c\<rparr>) root a = lookup km root a" by (rule lookup_cong) simp
  show "walk (km\<lparr>km_cr3 := c\<rparr>) root a = walk km root a"
    unfolding walk_def child_def t ..
qed (simp add: free_zeroed_def)

lemma took_user_free:
  "took kernel_free kernel_owns pm pm' f \<Longrightarrow> high_region pm' = high_region pm \<Longrightarrow> user_free pm' \<subseteq> user_free pm"
  by (auto simp: user_free_def dest: tookD(3))

lemma build_page_table_ok:
  assumes r: "boot_ready ki km m"
  shows "\<exists>km'. build_page_table False ki km = Inr km' \<and> tree_inv km' (cr3_frame km') \<and> free_zeroed km'
     \<and> m \<le> card (kernel_free (km_phys km')) \<and> user_free (km_phys km') \<subseteq> user_free (km_phys km)
     \<and> km_page_lock km' = km_page_lock km
     \<and> (\<forall>pa < IDENTITY_MAP_SIZE. walk km' (cr3_frame km') (IDENTITY_MAP_REGION + pa) = Some pa)
     \<and> image_mapped ki (lookup km (cr3_frame km)) (lookup km' (cr3_frame km'))
     \<and> (\<forall>va. p4_index va = 511 \<longrightarrow> lookup km' (cr3_frame km') va = 0 \<and> no_huge_on km' (cr3_frame km') (page_path va))"
proof -
  let ?boot = "cr3_frame km" and ?rs = "boot_ranges ki"
  note b = r [unfolded boot_ready_def]
  have "kernel_free (km_phys km) \<noteq> {}" using b by auto
  then obtain pm f where f: "allocate_kernel_frame (km_phys km) = Inr (pm, Some f)"
      "took kernel_free kernel_owns (km_phys km) pm f" "high_region pm = high_region (km_phys km)"
    using allocate_kernel_some b by blast
  let ?k = "km\<lparr>km_phys := pm\<rparr>"
  have fi: "identity_mapped f" using b tookD(1) [OF f(2)] by blast
  have fresh: "fresh_root ?k f" using fresh_table [OF _ _ _ f(2)] b by blast
  have fin: "finite (kernel_free (km_phys km))" using b by (metis card.infinite le_zero_eq add_is_0 zero_neq_numeral)
  have c1: "card (kernel_free pm) = card (kernel_free (km_phys km)) - 1"
    unfolding tookD(3) [OF f(2)] using fin tookD(1) [OF f(2)] by simp
  have enough: "6 + 3 * sum_list (map range_size ?rs) + m \<le> card (kernel_free (km_phys km))" using b by blast
  then have five: "5 \<le> card (kernel_free (km_phys ?k))" using c1 by simp
  obtain k1 p3 where k1: "prepare_identity_mapping False f ?k = Inr (k1, Inr ())" "id_inv k1 f p3 2048"
      "card (kernel_free (km_phys ?k)) \<le> card (kernel_free (km_phys k1)) + 5" "extends ?k f UNIV k1"
    using prepare_identity_ok [OF fresh five] by blast
  have sep: "separate ?k ?boot f" using boot_separate [OF _ _ f(2)] b by blast
  have l1: "lookup k1 ?boot a = lookup km ?boot a" for a
    unfolding separate_extends(4) [OF sep k1(4)] by (rule lookup_cong) simp
  have z1: "km_tables k1 f (p4_index va) = 0" if "p4_index va \<noteq> 257" for va
    using id_invD(7) [OF k1(2), of "p4_index va"] that index_bounds(4) [of va] by (simp add: ENTRY_COUNT_def)
  have good: "\<forall>r \<in> set ?rs. good_range k1 ?boot f r"
  proof
    fix r assume rin: "r \<in> set ?rs"
    obtain s e fl where rr: "r = (s, e, fl)" by (cases r)
    then have "boot_range km ?boot (s, e, fl)" using b rin by auto
    then show "good_range k1 ?boot f r"
      using rr boot_flags_ok [of s e fl ki] rin root_empty(2) [OF z1] by (auto simp: boot_range_def good_range_def l1)
  qed
  have mem: "3 * sum_list (map range_size ?rs) \<le> card (kernel_free (km_phys k1))" using k1(3) c1 enough by simp
  obtain k2 where k2: "copy_boot_ranges ?boot f ?rs k1 = Inr k2" "kept k1 f (3 * sum_list (map range_size ?rs)) k2"
      "extends k1 f (- {257}) k2"
      "\<forall>(a, b, flags) \<in> set ?rs. \<forall>va \<in> range_pages a b. copied_entry (lookup k1 ?boot va) flags (lookup k2 f va)"
      "\<forall>va. (\<forall>(a, b, _) \<in> set ?rs. vpn va \<notin> vpn ` range_pages a b) \<longrightarrow> lookup k2 f va = lookup k1 f va"
    using copy_boot_ranges_ok [OF id_invD(1,2) [OF k1(2)] separate_extends(3) [OF sep k1(4)] good mem] b by blast
  define n where "n = k2\<lparr>km_cr3 := of_nat (f * PAGE_SIZE)\<rparr>"
  have cr3: "cr3_frame n = f" unfolding n_def by (rule cr3_set [OF fi])
  note same = cr3_update [where km = k2 and c = "of_nat (f * PAGE_SIZE)", folded n_def]
  have w: "walk k2 f (IDENTITY_MAP_REGION + pa) = Some pa" if "pa < IDENTITY_MAP_SIZE" for pa
  proof (rule walk_extends [OF k2(3)])
    have pa: "pa < 2 ^ 32" using that by (simp add: IDENTITY_MAP_SIZE_def)
    show "walk k1 f (IDENTITY_MAP_REGION + pa) = Some pa" by (rule identity_walk [OF k1(2) pa])
    show "p4_index (IDENTITY_MAP_REGION + pa) \<notin> - {257}" using identity_indices [of pa] pa by simp
  qed
  have heap: "lookup k2 f va = 0 \<and> no_huge_on k2 f (page_path va)" if p: "p4_index va = 511" for va
  proof -
    have "vpn va \<notin> vpn ` range_pages a e" if rin: "(a, e, fl) \<in> set ?rs" for a e fl
    proof
      assume "vpn va \<in> vpn ` range_pages a e"
      then obtain v where v: "v \<in> range_pages a e" "vpn v = vpn va" by auto
      have "p4_index v = 511" unfolding index_vpn(4) v(2) by (rule p [unfolded index_vpn(4)])
      moreover have "boot_range km ?boot (a, e, fl)" using b rin by blast
      ultimately show False using v(1) by (auto simp: boot_range_def)
    qed
    then have "lookup k2 f va = lookup k1 f va" using k2(5) by fastforce
    then show ?thesis using root_empty [OF z1, of va] p k2(2) by (simp add: kept_def)
  qed
  obtain a where a: "phys_to_virt_addr (unat (km_cr3 km)) (8 * ENTRY_COUNT) = Inr a" using cr3_ref_ok b by blast
  have "build_page_table False ki km = Inr n"
    using a f(1) k1(1) k2(1) table_ref_ok [OF fi] physical_address_ok [OF fi] by (simp add: build_page_table_def expectE_def cr3_frame_def n_def)
  moreover have "image_mapped ki (lookup km ?boot) (lookup n f)" using k2(4) by (simp add: image_mapped_def l1 same)
  moreover have "tree_inv k2 f" "free_zeroed k2" using k2(2) by (simp_all add: kept_def)
  moreover have "card (kernel_free (km_phys k1)) \<le> card (kernel_free (km_phys k2)) + 3 * sum_list (map range_size ?rs)"
    using k2(2) by (simp add: kept_def)
  then have "m \<le> card (kernel_free (km_phys k2))" using k1(3) c1 enough by simp
  moreover have "user_free (km_phys k2) \<subseteq> user_free (km_phys km)" "km_page_lock k2 = km_page_lock km"
    using extendsD(8,9) [OF k2(3)] extendsD(8,9) [OF k1(4)] took_user_free [OF f(2,3)] by auto
  ultimately show ?thesis using w heap by (intro exI [of _ n]) (simp add: cr3 same n_def [THEN arg_cong, of km_phys] n_def [THEN arg_cong, of km_page_lock])
qed

section \<open>The block of thread locals\<close>

lemma digits: "(\<Sum>i < n. (v div 256 ^ i mod 256) * 256 ^ i) = v mod (256 :: nat) ^ n"
proof (induction n)
  case (Suc n)
  have "v mod 256 ^ Suc n = 256 ^ n * (v div 256 ^ n mod 256) + v mod 256 ^ n"
    using mod_mult2_eq [of v "256 ^ n" 256] by (simp add: mult.commute)
  then show ?case using Suc by simp
qed simp

lemma ptr_usize_roundtrip:
  assumes "v < usize_limit"
  shows "ptr_read_usize p (ptr_write_usize p v m) = v"
proof -
  have "ptr_read_usize p (ptr_write_usize p v m) = (\<Sum>i < 8. (v div 256 ^ i mod 256) * 256 ^ i)"
    unfolding ptr_read_usize_def
    by (rule sum.cong) (simp_all add: ptr_write_usize_def unat_of_nat)
  also have "\<dots> = v" unfolding digits using assms by (simp add: usize_limit_def)
  finally show ?thesis .
qed

text \<open>
  The contents of the block of one CPU: the initialised thread locals, then zeroes, and in the last
  word, where the thread pointer points, the address of the end of the block.
\<close>

definition tls_pages :: "kernel_image \<Rightarrow> nat" where
  "tls_pages ki = (ki_tbss_end ki - ki_tdata_start ki + PAGE_SIZE - 1) div PAGE_SIZE"

definition tls_wf :: "kernel_image \<Rightarrow> bool" where
  "tls_wf ki \<longleftrightarrow> ki_tdata_start ki \<le> ki_tbss_start ki \<and> ki_tbss_start ki + 8 \<le> ki_tbss_end ki
     \<and> ki_tbss_end ki - ki_tdata_start ki \<le> 2 ^ 47"

definition tcb_block :: "kernel_image \<Rightarrow> usize \<Rightarrow> bytes \<Rightarrow> bytes \<Rightarrow> bool" where
  "tcb_block ki base m m' \<longleftrightarrow>
     (let tdata = ki_tbss_start ki - ki_tdata_start ki; len = tls_pages ki * PAGE_SIZE in
       (\<forall>i < tdata. m' (base + i) = m (ki_tdata_start ki + i))
     \<and> (\<forall>i. tdata \<le> i \<and> i < len - 8 \<longrightarrow> m' (base + i) = 0)
     \<and> ptr_read_usize (base + len - 8) m' = base + len
     \<and> (\<forall>a. a < base \<or> base + len \<le> a \<longrightarrow> m' a = m a))"

lemma tls_bounds:
  assumes "tls_wf ki"
  shows "0 < tls_pages ki" and "tls_pages ki \<le> 2 ^ 36" and "ki_tbss_start ki - ki_tdata_start ki + 8 \<le> tls_pages ki * PAGE_SIZE"
    and "bindR (usub (ki_tbss_end ki) (ki_tdata_start ki)) page_align_up = Inr (tls_pages ki * PAGE_SIZE)"
proof -
  let ?s = "ki_tbss_end ki - ki_tdata_start ki"
  have s: "8 \<le> ?s" "?s \<le> 2 ^ 47" "ki_tdata_start ki \<le> ki_tbss_end ki" "ki_tbss_start ki - ki_tdata_start ki + 8 \<le> ?s"
    using assms by (auto simp: tls_wf_def)
  have up: "?s \<le> tls_pages ki * PAGE_SIZE" "tls_pages ki * PAGE_SIZE < ?s + PAGE_SIZE"
    using div_times_less_eq_dividend [of "?s + PAGE_SIZE - 1" PAGE_SIZE] dividend_less_div_times [of PAGE_SIZE "?s + PAGE_SIZE - 1"]
    by (simp_all add: tls_pages_def PAGE_SIZE_def)
  show "ki_tbss_start ki - ki_tdata_start ki + 8 \<le> tls_pages ki * PAGE_SIZE" using s up by simp
  show "0 < tls_pages ki" "tls_pages ki \<le> 2 ^ 36" using s up by (cases "tls_pages ki", simp_all add: PAGE_SIZE_def)
  have "page_align_up ?s = Inr (tls_pages ki * PAGE_SIZE)"
    using s page_align_up_eq [of ?s] by (simp add: round_up_div tls_pages_def PAGE_SIZE_def usize_limit_def)
  then show "bindR (usub (ki_tbss_end ki) (ki_tdata_start ki)) page_align_up = Inr (tls_pages ki * PAGE_SIZE)"
    using s(3) by (simp add: usub_def)
qed

lemma tcb_block_written:
  assumes w: "tls_wf ki" and l: "base + tls_pages ki * PAGE_SIZE < usize_limit"
  shows "tcb_block ki base m (ptr_write_usize (base + tls_pages ki * PAGE_SIZE - 8) (base + tls_pages ki * PAGE_SIZE)
     (ptr_write_bytes (base + (ki_tbss_start ki - ki_tdata_start ki)) 0 (tls_pages ki * PAGE_SIZE - (ki_tbss_start ki - ki_tdata_start ki))
     (ptr_copy (ki_tdata_start ki) base (ki_tbss_start ki - ki_tdata_start ki) m)))"
  using tls_bounds(3) [OF w] l
  by (auto simp: tcb_block_def Let_def ptr_usize_roundtrip) (auto simp: ptr_write_usize_def ptr_write_bytes_def ptr_copy_def)

lemma initialize_tcb_ok:
  assumes inv: "regions_inv rl b l (ps_kernel s) us" and w: "tls_wf ki"
    and mem: "memory_for (4 * tls_pages ki + 1) (ks_mem (ps_kernel s))"
    and fit: "spec_allocate (tls_pages ki * PAGE_SIZE) Heap us = Some (base, us')"
  shows "\<exists>s'. initialize_tcb rl ki cpu s = Inr (s', Inr (base + tls_pages ki * PAGE_SIZE - 8))
     \<and> regions_inv rl b l (ps_kernel s') us' \<and> heap_backed (ks_lookup (ps_kernel s')) base (tls_pages ki)
     \<and> tcb_block ki base (ps_bytes s) (ps_bytes s')
     \<and> (\<forall>a. vpn a \<notin> (\<lambda>i. vpn (page_va base i)) ` {..<tls_pages ki} \<longrightarrow>
            ks_lookup (ps_kernel s') a = ks_lookup (ps_kernel s) a)"
proof -
  let ?n = "tls_pages ki"
  have "mappable Heap ?n" using tls_bounds(1,2) [OF w] by (simp add: mappable_def)
  from allocate_refines [OF inv this mem] fit obtain ks' where
    a: "locked_allocate rl ?n Heap (ps_kernel s) = Inr (ks', Inr (region_handle base ?n))"
      "regions_inv rl b l ks' us'" "heap_backed (ks_lookup ks') base ?n"
      "\<forall>a. vpn a \<notin> (\<lambda>i. vpn (page_va base i)) ` {..<?n} \<longrightarrow> ks_lookup ks' a = ks_lookup (ps_kernel s) a"
    by (auto simp: backed_def)
  have lim: "base + ?n * PAGE_SIZE < usize_limit" using spec_allocate_range [OF fit regions_inv_geometry [OF inv]] by simp
  let ?m = "ptr_write_usize (base + ?n * PAGE_SIZE - 8) (base + ?n * PAGE_SIZE)
     (ptr_write_bytes (base + (ki_tbss_start ki - ki_tdata_start ki)) 0 (?n * PAGE_SIZE - (ki_tbss_start ki - ki_tdata_start ki))
     (ptr_copy (ki_tdata_start ki) base (ki_tbss_start ki - ki_tdata_start ki) (ps_bytes s)))"
  have d: "?n * PAGE_SIZE div PAGE_SIZE = ?n" by (simp add: PAGE_SIZE_def)
  have o: "usub (ki_tbss_start ki) (ki_tdata_start ki) = Inr (ki_tbss_start ki - ki_tdata_start ki)"
    "uadd (base + 0) (?n * PAGE_SIZE) = Inr (base + ?n * PAGE_SIZE)" "uadd base 0 = Inr (base + 0)"
    "uadd (base + 0) (ki_tbss_start ki - ki_tdata_start ki) = Inr (base + (ki_tbss_start ki - ki_tdata_start ki))"
    "usub (?n * PAGE_SIZE) (ki_tbss_start ki - ki_tdata_start ki) = Inr (?n * PAGE_SIZE - (ki_tbss_start ki - ki_tdata_start ki))"
    using w lim tls_bounds(3) [OF w] by (simp_all add: usub_def uadd_def tls_wf_def)
  have e: "usub (base + ?n * PAGE_SIZE) 8 = Inr (base + ?n * PAGE_SIZE - 8)"
    using tls_bounds(3) [OF w] by (intro usub_Inr) linarith
  have "initialize_tcb rl ki cpu s = Inr (\<lparr>ps_kernel = ks', ps_bytes = ?m\<rparr>, Inr (base + ?n * PAGE_SIZE - 8))"
    using a(1) o e
    by (simp add: initialize_tcb_def Let_def bindE_def liftE_def okE_def tls_bounds(4) [OF w] on_kernel_def d allocate_region_def
        region_handle_def region_start_def del: usub_Inr uadd_Inr)
  then show ?thesis using a(2-4) tcb_block_written [OF w lim] by (intro exI) auto
qed

section \<open>Booting\<close>

lemma heap_index:
  assumes "KERNEL_HEAP_BASE \<le> a" and "a < KERNEL_HEAP_LIMIT"
  shows "p4_index a = 511"
proof -
  obtain x where x: "a = KERNEL_HEAP_BASE + x" "x < 2 ^ 32"
    using assms le_Suc_ex [OF assms(1)] by (auto simp: KERNEL_HEAP_BASE_def KERNEL_HEAP_LIMIT_def)
  have "a div 2 ^ 12 = (511 * 2 ^ 27 + x div 2 ^ 12) + 0xffff * 2 ^ 36"
    using div_mult_self3 [of "2 ^ 12" "0xffffff8000000" x] unfolding x(1) by (simp add: KERNEL_HEAP_BASE_def)
  moreover have b: "x div 2 ^ 12 < 2 ^ 27" using x(2) by (simp add: div_less_iff_less_mult)
  ultimately have "vpn a = 511 * 2 ^ 27 + x div 2 ^ 12" unfolding vpn_def by (simp only: mod_mult_self1) simp
  moreover have "p4_index a = vpn a div 2 ^ 27" by (simp add: index_vpn div_mult2_eq [symmetric])
  ultimately show ?thesis using b by simp
qed

lemma heap_start_ok:
  assumes "layout_wf rl" and "tree_inv km (cr3_frame km)" and "\<not> km_page_lock km"
    and "\<forall>va. p4_index va = 511 \<longrightarrow> lookup km (cr3_frame km) va = 0 \<and> no_huge_on km (cr3_frame km) (page_path va)"
  shows "heap_boot rl KERNEL_HEAP_BASE KERNEL_HEAP_LIMIT (ks\<lparr>ks_mem := km\<rparr>)"
  using assms heap_index
  by (auto simp: heap_boot_def range_pages_def KERNEL_HEAP_BASE_def KERNEL_HEAP_LIMIT_def PAGE_SIZE_def usize_limit_def)

text \<open>
  C15. The tables the kernel builds for itself: they are well formed and loaded, every physical
  address below 4 GiB is reachable at its address plus the base of the identity map, as the rest of
  the kernel assumes when it follows a physical address, and every page of the image and of the
  boot stack is mapped to the frame the boot loader had put there with the flags of its section.
\<close>

theorem build_page_table_maps:
  assumes "boot_ready ki km 0"
  shows "\<exists>km'. build_page_table False ki km = Inr km' \<and> tree_inv km' (cr3_frame km')
     \<and> (\<forall>pa < IDENTITY_MAP_SIZE. walk km' (cr3_frame km') (IDENTITY_MAP_REGION + pa) = Some pa)
     \<and> image_mapped ki (lookup km (cr3_frame km)) (lookup km' (cr3_frame km'))"
  using build_page_table_ok [OF assms] by blast

text \<open>
  C14. The whole of \<^verbatim>\<open>paging::init\<close> returns when the boot loader's tables are as it expects, with the
  address of the thread pointer: the kernel runs on its own tables, which map every page of the
  image and of the boot stack to the frame the boot loader had put there, with the flags of its
  section; the heap manager owns the heap range; and the block of thread locals is its first
  region, filled from the image.
\<close>

theorem paging_init_boots:
  fixes ks :: kstate
  assumes "boot_ready ki (ks_mem ks) (4 * tls_pages ki + 1)" and "tls_wf ki" and "layout_wf rl"
    and "\<not> km_page_lock (ks_mem ks)" and "\<forall>f \<in> user_free (km_phys (ks_mem ks)). f < 2 ^ 40"
    and "tls_pages ki * PAGE_SIZE \<le> KERNEL_HEAP_LIMIT - KERNEL_HEAP_BASE"
    and "p4_index (page_align_down (ki_kernel_start ki)) = KERNEL_PML4"
    and "page_align_up (ki_kernel_end ki) = Inr e" and "p4_index e = KERNEL_PML4"
  shows "\<exists>s'. paging_init rl ki False cpu \<lparr>ps_kernel = ks, ps_bytes = m\<rparr> = Inr (s', KERNEL_HEAP_BASE + tls_pages ki * PAGE_SIZE - 8)
     \<and> regions_inv rl KERNEL_HEAP_BASE KERNEL_HEAP_LIMIT (ps_kernel s')
         (split_entry (whole KERNEL_HEAP_BASE KERNEL_HEAP_LIMIT) (tls_pages ki * PAGE_SIZE) Heap)
     \<and> image_mapped ki (ks_lookup ks) (ks_lookup (ps_kernel s'))
     \<and> heap_backed (ks_lookup (ps_kernel s')) KERNEL_HEAP_BASE (tls_pages ki)
     \<and> tcb_block ki KERNEL_HEAP_BASE m (ps_bytes s')"
proof -
  let ?n = "tls_pages ki" and ?b = KERNEL_HEAP_BASE and ?l = KERNEL_HEAP_LIMIT
  obtain km where km: "build_page_table False ki (ks_mem ks) = Inr km" "tree_inv km (cr3_frame km)" "free_zeroed km"
      "4 * ?n + 1 \<le> card (kernel_free (km_phys km))" "user_free (km_phys km) \<subseteq> user_free (km_phys (ks_mem ks))"
      "km_page_lock km = km_page_lock (ks_mem ks)"
      "image_mapped ki (ks_lookup ks) (lookup km (cr3_frame km))"
      "\<forall>va. p4_index va = 511 \<longrightarrow> lookup km (cr3_frame km) va = 0 \<and> no_huge_on km (cr3_frame km) (page_path va)"
    using build_page_table_ok [OF assms(1)] by blast
  let ?s = "\<lparr>ps_kernel = heap_init rl ?b ?l (ks\<lparr>ks_mem := km\<rparr>), ps_bytes = m\<rparr>"
  have mem: "ks_mem (ps_kernel ?s) = km" by (simp add: heap_init_def)
  have inv: "regions_inv rl ?b ?l (ps_kernel ?s) [whole ?b ?l]"
    using heap_init_inv [OF heap_start_ok [OF assms(3) km(2) _ km(8)]] km(6) assms(4) by simp
  have "memory_for (4 * ?n + 1) (ks_mem (ps_kernel ?s))"
    unfolding mem memory_for_def using km(3-5) assms(5) by blast
  moreover have "spec_allocate (?n * PAGE_SIZE) Heap [whole ?b ?l] = Some (?b, split_entry (whole ?b ?l) (?n * PAGE_SIZE) Heap)"
    using assms(6) by (simp add: whole_def entry_fits_def)
  ultimately obtain s' where s: "initialize_tcb rl ki cpu ?s = Inr (s', Inr (?b + ?n * PAGE_SIZE - 8))"
      "regions_inv rl ?b ?l (ps_kernel s') (split_entry (whole ?b ?l) (?n * PAGE_SIZE) Heap)"
      "heap_backed (ks_lookup (ps_kernel s')) ?b ?n" "tcb_block ki ?b (ps_bytes ?s) (ps_bytes s')"
      "\<forall>a. vpn a \<notin> (\<lambda>i. vpn (page_va ?b i)) ` {..<?n} \<longrightarrow> ks_lookup (ps_kernel s') a = lookup km (cr3_frame km) a"
    using initialize_tcb_ok [OF inv assms(2)] unfolding mem by blast
  have "ks_lookup (ps_kernel s') va = lookup km (cr3_frame km) va" if r: "(a, c, fl) \<in> set (boot_ranges ki)" "va \<in> range_pages a c" for a c fl va
  proof -
    have "p4_index va \<noteq> 511" using assms(1) r by (auto simp: boot_ready_def boot_range_def)
    moreover have "p4_index (page_va ?b i) = 511" if "i < ?n" for i
    proof (rule heap_index)
      have "i * PAGE_SIZE < ?n * PAGE_SIZE" using that by (simp add: PAGE_SIZE_def)
      then show "page_va ?b i < ?l" using assms(6) unfolding page_va_def by linarith
    qed (simp add: page_va_def)
    ultimately have "vpn va \<notin> (\<lambda>i. vpn (page_va ?b i)) ` {..<?n}" by (auto simp: index_vpn(4))
    then show ?thesis using s(5) by blast
  qed
  then have "image_mapped ki (ks_lookup ks) (ks_lookup (ps_kernel s'))"
    using km(7) unfolding image_mapped_def by fastforce
  moreover have "paging_init rl ki False cpu \<lparr>ps_kernel = ks, ps_bytes = m\<rparr> = Inr (s', ?b + ?n * PAGE_SIZE - 8)"
    using assms(7-9) km(1) s(1) by (simp add: paging_init_def Let_def expectE_def guardR_def)
  ultimately show ?thesis using s(2-4) by (intro exI [of _ s']) simp
qed

section \<open>A concrete boot\<close>

text \<open>
  Sixty-four free frames from frame 256, and tables of a boot loader in frames 320 to 326 that map
  eight pages of an image at the start of the kernel's part of the address space and sixteen pages
  around the boot stack.
\<close>

definition boot_region :: page_frame_region where
  "boot_region = \<lparr>start_frame = 256, limit_frame = 320, free_frames = 64, used_frames = 0,
     bitmask = replicate 8 255\<rparr>"

definition boot_tables :: "frame \<Rightarrow> nat \<Rightarrow> raw_pte" where
  "boot_tables t i =
     (if t = 320 then if i = 0 then 0x141003 else if i = 256 then 0x144003 else 0
      else if t = 321 then if i = 0 then 0x142003 else 0
      else if t = 322 then if i = 128 then 0x143003 else 0
      else if t = 323 then if i < 16 then 0x1000003 else 0
      else if t = 324 then if i = 0 then 0x145003 else 0
      else if t = 325 then if i = 0 then 0x146003 else 0
      else if t = 326 then if i < 8 then 0x2000003 else 0
      else 0)"

definition boot_kmem :: kmem where
  "boot_kmem = \<lparr>km_phys = \<lparr>low_region = Some boot_region, normal_region = None, high_region = None\<rparr>,
     km_tables = boot_tables, km_cr3 = 0x140000, km_page_lock = False, km_tlb = []\<rparr>"

definition boot_image :: kernel_image where
  "boot_image = \<lparr>ki_kernel_start = 0xffff800000000000, ki_text_start = 0xffff800000000000, ki_text_end = 0xffff800000001000,
     ki_rodata_start = 0xffff800000001000, ki_rodata_end = 0xffff800000002000,
     ki_data_start = 0xffff800000002000, ki_data_end = 0xffff800000002000,
     ki_tdata_start = 0xffff800000002000, ki_tdata_end = 0xffff800000003000,
     ki_tbss_start = 0xffff800000003000, ki_tbss_end = 0xffff800000004000,
     ki_bss_start = 0xffff800000004000, ki_bss_end = 0xffff800000004000, ki_kernel_end = 0xffff800000004000\<rparr>"

lemma boot_free_bits: "free_bits (replicate 8 255) = {..<64}"
proof -
  have "bit (255 :: u8) n" if "n < 8" for n
    using that by (simp add: bit_iff_odd less_Suc_eq numeral_eq_Suc) auto
  then show ?thesis by (auto simp: free_bits_def)
qed

lemma boot_region_ok: "region_inv boot_region" "free_set boot_region = {256..<320}"
proof -
  show "region_inv boot_region"
    by (simp add: region_inv_def boot_region_def boot_free_bits usize_limit_def)
  have "free_set boot_region = (+) 256 ` {..<64}"
    by (auto simp: free_set_def boot_region_def boot_free_bits)
  then show "free_set boot_region = {256..<320}" by (simp add: lessThan_atLeast0)
qed

lemma boot_phys: "pm_inv (km_phys boot_kmem)" "kernel_free (km_phys boot_kmem) = {256..<320}"
  "user_free (km_phys boot_kmem) = {256..<320}"
  using boot_region_ok
  by (auto simp: boot_kmem_def pm_inv_def pm_pool_def region_constants contains_frame_def boot_region_def
      kernel_free_def user_free_def)

lemma boot_cr3: "unat (km_cr3 boot_kmem) = 0x140000" "cr3_frame boot_kmem = 320"
proof -
  show u: "unat (km_cr3 boot_kmem) = 0x140000" by (simp add: boot_kmem_def)
  show "cr3_frame boot_kmem = 320"
    unfolding cr3_frame_def u by (subst containing_address_eq) (simp_all add: usize_limit_def PAGE_SIZE_def)
qed

lemma boot_links:
  "is_present 0x141003" "is_present 0x142003" "is_present 0x143003" "is_present 0x144003" "is_present 0x145003"
  "is_present 0x146003" "is_present 0x1000003" "is_present 0x2000003"
  "\<not> is_huge 0x141003" "\<not> is_huge 0x142003" "\<not> is_huge 0x143003" "\<not> is_huge 0x144003" "\<not> is_huge 0x145003" "\<not> is_huge 0x146003"
  by (simp_all add: is_present_bit is_huge_bit bit_iff_odd)

lemma boot_frames:
  "pte_frame 0x141003 = 321" "pte_frame 0x142003 = 322" "pte_frame 0x143003 = 323" "pte_frame 0x144003 = 324"
  "pte_frame 0x145003 = 325" "pte_frame 0x146003 = 326"
  unfolding pte_frame_def FRAME_BITS_def
  by (simp_all add: containing_address_eq usize_limit_def PAGE_SIZE_def)

lemma boot_child:
  "child boot_kmem 320 i = (if i = 0 then Some 321 else if i = 256 then Some 324 else None)"
  "child boot_kmem 321 i = (if i = 0 then Some 322 else None)"
  "child boot_kmem 322 i = (if i = 128 then Some 323 else None)"
  "child boot_kmem 324 i = (if i = 0 then Some 325 else None)"
  "child boot_kmem 325 i = (if i = 0 then Some 326 else None)"
  by (simp_all add: child_def boot_kmem_def boot_tables_def boot_links boot_frames Let_def)

lemma boot_is_table: "is_table boot_kmem 320 t \<Longrightarrow> 320 \<le> t \<and> t \<le> 326"
proof -
  assume "is_table boot_kmem 320 t"
  then obtain q where q: "length q \<le> 3" "node_from boot_kmem 320 q = Some t" by (auto simp: is_table_def table_path_def)
  then have "q = [] \<or> (\<exists>a. q = [a]) \<or> (\<exists>a b. q = [a, b]) \<or> (\<exists>a b c. q = [a, b, c])"
    by (cases q rule: list.exhaust; cases "tl q" rule: list.exhaust; cases "tl (tl q)" rule: list.exhaust) auto
  then show ?thesis using q(2) by (auto simp: boot_child split: if_splits option.splits)
qed

lemma image_pages:
  "range_pages 0xffff800000000000 0xffff800000001000 = {0xffff800000000000}"
  "range_pages 0xffff800000001000 0xffff800000002000 = {0xffff800000001000}"
  "range_pages 0xffff800000002000 0xffff800000003000 = {0xffff800000002000}"
  "range_pages 0xffff800000003000 0xffff800000004000 = {0xffff800000003000}"
  "range_pages a a = {}"
  "range_pages (0x10000000 + PAGE_SIZE) (0x10000000 + PAGE_SIZE + PAGE_SIZE * 8) = page_va (0x10000000 + PAGE_SIZE) ` {..<8}"
proof -
  have "range_pages x (x + n * PAGE_SIZE) = page_va x ` {..<n}" if "PAGE_SIZE dvd x" for x n
    using range_pages_va [OF that] by simp
  note r = this [of "0xffff800000000000" 1] this [of "0xffff800000001000" 1] this [of "0xffff800000002000" 1]
    this [of "0xffff800000003000" 1] this [of "0x10000000 + PAGE_SIZE" 8]
  show "range_pages 0xffff800000000000 0xffff800000001000 = {0xffff800000000000}"
    "range_pages 0xffff800000001000 0xffff800000002000 = {0xffff800000001000}"
    "range_pages 0xffff800000002000 0xffff800000003000 = {0xffff800000002000}"
    "range_pages 0xffff800000003000 0xffff800000004000 = {0xffff800000003000}"
    "range_pages (0x10000000 + PAGE_SIZE) (0x10000000 + PAGE_SIZE + PAGE_SIZE * 8) = page_va (0x10000000 + PAGE_SIZE) ` {..<8}"
    using r by (simp_all add: PAGE_SIZE_def page_va_def lessThan_Suc mult.commute)
  show "range_pages a a = {}" by (auto simp: range_pages_def)
qed

lemma image_vpn:
  "vpn 0xffff800000000000 = 256 * 2 ^ 27 + 0" "vpn 0xffff800000001000 = 256 * 2 ^ 27 + 1"
  "vpn 0xffff800000002000 = 256 * 2 ^ 27 + 2" "vpn 0xffff800000003000 = 256 * 2 ^ 27 + 3"
  "i < 8 \<Longrightarrow> vpn (page_va (0x10000000 + PAGE_SIZE) i) = 0x10001 + i"
  by (simp_all add: vpn_def page_va_def PAGE_SIZE_def)

lemma boot_lookup:
  "vpn va = 256 * 2 ^ 27 + j \<Longrightarrow> j < 4 \<Longrightarrow> p4_index va = 256 \<and> lookup boot_kmem 320 va = 0x2000003"
  "vpn va = 0x10001 + j \<Longrightarrow> j < 8 \<Longrightarrow> p4_index va = 0 \<and> lookup boot_kmem 320 va = 0x1000003"
proof -
  assume v: "vpn va = 256 * 2 ^ 27 + j" and j: "j < 4"
  from j have "j = 0 \<or> j = 1 \<or> j = 2 \<or> j = 3" by auto
  then have "p4_index va = 256 \<and> p3_index va = 0 \<and> p2_index va = 0 \<and> p1_index va = j"
    unfolding index_vpn v by (elim disjE) simp_all
  then show "p4_index va = 256 \<and> lookup boot_kmem 320 va = 0x2000003"
    using j by (simp add: lookup_def leaf_entry_def page_path_def boot_child boot_kmem_def [THEN arg_cong, of km_tables] boot_tables_def)
next
  assume v: "vpn va = 0x10001 + j" and j: "j < 8"
  from j have "j = 0 \<or> j = 1 \<or> j = 2 \<or> j = 3 \<or> j = 4 \<or> j = 5 \<or> j = 6 \<or> j = 7" by auto
  then have "p4_index va = 0 \<and> p3_index va = 0 \<and> p2_index va = 128 \<and> p1_index va = Suc j"
    unfolding index_vpn v by (elim disjE) simp_all
  then show "p4_index va = 0 \<and> lookup boot_kmem 320 va = 0x1000003"
    using j by (simp add: lookup_def leaf_entry_def page_path_def boot_child boot_kmem_def [THEN arg_cong, of km_tables] boot_tables_def)
qed

lemma image_lookup:
  "p4_index 0xffff800000000000 = 256 \<and> lookup boot_kmem 320 0xffff800000000000 = 0x2000003"
  "p4_index 0xffff800000001000 = 256 \<and> lookup boot_kmem 320 0xffff800000001000 = 0x2000003"
  "p4_index 0xffff800000002000 = 256 \<and> lookup boot_kmem 320 0xffff800000002000 = 0x2000003"
  "p4_index 0xffff800000003000 = 256 \<and> lookup boot_kmem 320 0xffff800000003000 = 0x2000003"
  by (rule boot_lookup(1) [OF image_vpn(1)], simp, rule boot_lookup(1) [OF image_vpn(2)], simp,
      rule boot_lookup(1) [OF image_vpn(3)], simp, rule boot_lookup(1) [OF image_vpn(4)], simp)

lemma boot_rangeI:
  assumes "\<And>va. va \<in> range_pages a b \<Longrightarrow> p4_index va = i \<and> lookup km boot va = e" and "is_present e" and "i \<noteq> 257" "i \<noteq> 511"
    and "PAGE_SIZE dvd a" "PAGE_SIZE dvd b" "b < usize_limit" "b - a \<le> 2 ^ 48"
  shows "boot_range km boot (a, b, fl)"
  using assms by (simp add: boot_range_def)

lemma stack_range: "boot_range boot_kmem 320 (0x10000000 + PAGE_SIZE, 0x10000000 + PAGE_SIZE + PAGE_SIZE * 8, fl)"
proof (rule boot_rangeI)
  show "p4_index va = 0 \<and> lookup boot_kmem 320 va = 0x1000003"
    if v: "va \<in> range_pages (0x10000000 + PAGE_SIZE) (0x10000000 + PAGE_SIZE + PAGE_SIZE * 8)" for va
  proof -
    obtain j where j: "j < 8" "va = page_va (0x10000000 + PAGE_SIZE) j" using v unfolding image_pages(6) by blast
    show ?thesis unfolding j(2) by (rule boot_lookup(2) [OF image_vpn(5) [OF j(1)] j(1)])
  qed
qed (simp_all add: boot_links PAGE_SIZE_def usize_limit_def)

lemma image_range:
  "boot_range boot_kmem 320 (0xffff800000000000, 0xffff800000001000, fl)"
  "boot_range boot_kmem 320 (0xffff800000001000, 0xffff800000002000, fl)"
  "boot_range boot_kmem 320 (0xffff800000002000, 0xffff800000003000, fl)"
  "boot_range boot_kmem 320 (0xffff800000003000, 0xffff800000004000, fl)"
  "boot_range boot_kmem 320 (0xffff800000002000, 0xffff800000002000, fl)"
  "boot_range boot_kmem 320 (0xffff800000004000, 0xffff800000004000, fl)"
  by (rule boot_rangeI [where i = 256 and e = "0x2000003"];
      simp add: image_pages image_lookup boot_links PAGE_SIZE_def usize_limit_def)+

lemma boot_image_ranges: "\<forall>r \<in> set (boot_ranges boot_image). boot_range boot_kmem 320 r"
  by (simp add: boot_ranges_def Let_def boot_image_def image_range stack_range [simplified])

lemma boot_image_apart: "disjoint_ranges (boot_ranges boot_image)"
proof -
  have "vpn x < 0x10009" if "x \<in> range_pages (0x10000000 + PAGE_SIZE) (0x10000000 + PAGE_SIZE + PAGE_SIZE * 8)" for x
    using that image_vpn(5) unfolding image_pages(6) by auto
  from this [simplified] show ?thesis
    by (fastforce simp: disjoint_ranges_def boot_ranges_def Let_def boot_image_def image_pages image_vpn)
qed

lemma boot_image_ready: "boot_ready boot_image boot_kmem 9"
proof -
  have "sum_list (map range_size (boot_ranges boot_image)) = 12"
    by (simp add: boot_ranges_def Let_def boot_image_def range_size_def PAGE_SIZE_def)
  then show ?thesis
    unfolding boot_ready_def boot_cr3 boot_phys
    using boot_phys(1) boot_image_ranges boot_image_apart boot_is_table
    by (fastforce simp: free_zeroed_def boot_phys boot_kmem_def [THEN arg_cong, of km_tables] boot_tables_def
        identity_mapped_def PAGE_SIZE_def IDENTITY_MAP_SIZE_def)
qed

lemma boot_image_tls: "tls_wf boot_image" "tls_pages boot_image = 2"
  by (simp_all add: tls_wf_def tls_pages_def boot_image_def PAGE_SIZE_def)

lemma boot_ready_less: "boot_ready ki km m \<Longrightarrow> n \<le> m \<Longrightarrow> boot_ready ki km n"
  by (auto simp: boot_ready_def)

lemma image_text_mapped:
  assumes "image_mapped boot_image (lookup boot_kmem 320) new"
  shows "pte_frame (new 0xffff800000000000) = 0x2000 \<and> present_flags (new 0xffff800000000000) = GLOBAL"
proof -
  have t: "(0xffff800000000000, 0xffff800000001000, GLOBAL) \<in> set (boot_ranges boot_image)"
    by (simp add: boot_ranges_def Let_def boot_image_def)
  have "pte_frame 0x2000003 = 0x2000"
    unfolding pte_frame_def FRAME_BITS_def by (simp add: containing_address_eq usize_limit_def PAGE_SIZE_def)
  moreover have "copied_entry 0x2000003 GLOBAL (new 0xffff800000000000)"
    using bspec [OF assms [unfolded image_mapped_def] t] image_lookup(1) by (simp add: image_pages)
  ultimately show ?thesis by (simp add: copied_entry_def)
qed

theorem build_page_table_maps_witness:
  "\<exists>km'. build_page_table False boot_image boot_kmem = Inr km'
     \<and> walk km' (cr3_frame km') (IDENTITY_MAP_REGION + 0xfee00000) = Some 0xfee00000
     \<and> pte_frame (lookup km' (cr3_frame km') 0xffff800000000000) = 0x2000"
proof -
  have r: "boot_ready boot_image boot_kmem 0" using boot_ready_less [OF boot_image_ready] by simp
  obtain km' where k: "build_page_table False boot_image boot_kmem = Inr km'"
      "\<forall>pa < IDENTITY_MAP_SIZE. walk km' (cr3_frame km') (IDENTITY_MAP_REGION + pa) = Some pa"
      "image_mapped boot_image (lookup boot_kmem 320) (lookup km' (cr3_frame km'))"
    using build_page_table_maps [OF r] unfolding boot_cr3 by blast
  moreover have "(0xfee00000 :: nat) < IDENTITY_MAP_SIZE" by (simp add: IDENTITY_MAP_SIZE_def)
  ultimately show ?thesis using image_text_mapped by blast
qed

theorem paging_init_boots_witness:
  "\<exists>s'. paging_init example_layout boot_image False 0 \<lparr>ps_kernel = \<lparr>ks_mem = boot_kmem, ks_regions = None\<rparr>, ps_bytes = \<lambda>a. of_nat a\<rparr>
       = Inr (s', 0xffffff8000001ff8)
     \<and> present_flags (ks_lookup (ps_kernel s') 0xffff800000000000) = GLOBAL
     \<and> ptr_read_usize 0xffffff8000001ff8 (ps_bytes s') = 0xffffff8000002000
     \<and> ps_bytes s' 0xffffff8000000001 = 1"
proof -
  let ?ks = "\<lparr>ks_mem = boot_kmem, ks_regions = None\<rparr> :: kstate"
  note t = boot_image_tls
  have r: "boot_ready boot_image (ks_mem ?ks) (4 * tls_pages boot_image + 1)" using boot_image_ready by (simp add: t)
  have l: "layout_wf example_layout" by (simp add: layout_wf_def example_layout_def PAGE_SIZE_def)
  have k: "\<not> km_page_lock (ks_mem ?ks)" "\<forall>f \<in> user_free (km_phys (ks_mem ?ks)). f < 2 ^ 40"
    using boot_phys(3) by (auto simp: boot_kmem_def [THEN arg_cong, of km_page_lock])
  have h: "tls_pages boot_image * PAGE_SIZE \<le> KERNEL_HEAP_LIMIT - KERNEL_HEAP_BASE"
    by (simp add: t PAGE_SIZE_def KERNEL_HEAP_LIMIT_def KERNEL_HEAP_BASE_def)
  have a: "page_align_down (ki_kernel_start boot_image) = 0xffff800000000000"
    "page_align_up (ki_kernel_end boot_image) = Inr 0xffff800000004000"
    by (simp_all add: boot_image_def page_align_down_eq page_align_up_eq round_up_def usize_limit_def PAGE_SIZE_def)
  have p: "p4_index (page_align_down (ki_kernel_start boot_image)) = KERNEL_PML4" "p4_index 0xffff800000004000 = KERNEL_PML4"
    unfolding a by (simp_all add: KERNEL_PML4_def index_vpn vpn_def)
  obtain s' where s: "paging_init example_layout boot_image False 0 \<lparr>ps_kernel = ?ks, ps_bytes = \<lambda>a. of_nat a\<rparr>
        = Inr (s', KERNEL_HEAP_BASE + tls_pages boot_image * PAGE_SIZE - 8)"
      "image_mapped boot_image (ks_lookup ?ks) (ks_lookup (ps_kernel s'))"
      "tcb_block boot_image KERNEL_HEAP_BASE (\<lambda>a. of_nat a) (ps_bytes s')"
    using paging_init_boots [OF r t(1) l k h p(1) a(2) p(2)] by blast
  have "KERNEL_HEAP_BASE + tls_pages boot_image * PAGE_SIZE - 8 = 0xffffff8000001ff8"
    by (simp add: t KERNEL_HEAP_BASE_def PAGE_SIZE_def)
  moreover have "present_flags (ks_lookup (ps_kernel s') 0xffff800000000000) = GLOBAL"
    using image_text_mapped s(2) by (simp add: boot_cr3)
  moreover have "ptr_read_usize 0xffffff8000001ff8 (ps_bytes s') = 0xffffff8000002000"
    using s(3) by (simp add: tcb_block_def Let_def t KERNEL_HEAP_BASE_def PAGE_SIZE_def)
  moreover have "1 < ki_tbss_start boot_image - ki_tdata_start boot_image" by (simp add: boot_image_def)
  then have "ps_bytes s' (KERNEL_HEAP_BASE + 1) = of_nat (ki_tdata_start boot_image + 1)"
    using s(3) unfolding tcb_block_def Let_def by blast
  then have "ps_bytes s' 0xffffff8000000001 = 1" by (simp add: KERNEL_HEAP_BASE_def boot_image_def)
  ultimately show ?thesis using s(1) by (intro exI [of _ s']) simp
qed

end
