(* ===== verification/Spec2Isabelle.thy ===== *)
theory Spec2Isabelle
  imports Simple_Allocator Scheduler_Invariant Interrupt_Entry Vga_Buffer Paging_Init
begin

text \<open>
  A verification of the \<^verbatim>\<open>rust_kern\<close> kernel, an x86-64 kernel in Rust (sources under \<^verbatim>\<open>src/src\<close>).

  \<^bold>\<open>The program.\<close> At boot the kernel splits the memory map of the boot loader into regions of page
  frames, each with a bitmap (\<^verbatim>\<open>physmem\<close>). Four-level page tables are built from those frames
  (\<^verbatim>\<open>paging/table.rs\<close>, \<^verbatim>\<open>paging/mapper.rs\<close>, \<^verbatim>\<open>paging/page_entry.rs\<close>). A region manager hands out ranges
  of kernel address space and backs them with frames, with guarded stacks or with physical memory
  (\<^verbatim>\<open>paging/heap_region.rs\<close>, \<^verbatim>\<open>paging/kernel_stack.rs\<close>). The kernel heap is a list of such ranges, each
  with an in-place free list (\<^verbatim>\<open>allocator\<close>). The scheduler creates tasks on kernel stacks and switches
  between them on several CPUs (\<^verbatim>\<open>scheduler\<close>).

  \<^bold>\<open>Conventions.\<close> Every operation is a function on an explicit state. A \<^verbatim>\<open>usize\<close> is a natural number whose
  arithmetic goes through checked operations that panic like the \<^verbatim>\<open>dev\<close> profile; values used as bit
  patterns are words. A panic is a value (\<open>'a res\<close>), an error a value inside it (\<open>op\<close>). A section under a
  spin lock is one atomic function; taking a lock twice is the panic \<open>Deadlock\<close>. Values that the
  compiler or the linker fixes (sizes of structures, addresses of code) and what third-party crates
  supply are parameters.

  \<^bold>\<open>The theories.\<close>
  \<^item> \<^verbatim>\<open>Kernel_Prelude\<close>: machine integers, results, checked arithmetic, \<^verbatim>\<open>align_up\<close> and \<^verbatim>\<open>align_down\<close>.
  \<^item> \<^verbatim>\<open>Init_Mutex\<close>: \<^verbatim>\<open>init_mutex.rs\<close>.
  \<^item> \<^verbatim>\<open>Frame_Interface\<close>: the contract \<open>frame_source\<close> of everything that hands out frames, interpreted on a
    bitmap region, a region behind its mutex, and the kernel and user frame allocators.
  \<^item> \<^verbatim>\<open>Frame_Database\<close>, \<^verbatim>\<open>Phys_Mem\<close>: \<^verbatim>\<open>physmem\<close>. The bitmap returns the lowest free frame, boot frees exactly
    the usable frames, allocated frames are distinct, freeing restores.
  \<^item> \<^verbatim>\<open>Page_Entry\<close>, \<^verbatim>\<open>Page_Table\<close>, \<^verbatim>\<open>Address_Space\<close>: entries, tables and the mapper. The tree of tables in
    memory refines a function \<open>lookup\<close> from virtual page to entry, and each mapper operation changes
    one point of it.
  \<^item> \<^verbatim>\<open>Region_Table\<close>: the chained pages of the region map, refined to one list of entries.
  \<^item> \<^verbatim>\<open>Region_Mapping\<close>: backing and releasing a range of pages.
  \<^item> \<^verbatim>\<open>Region_Manager\<close>, \<^verbatim>\<open>Region_Invariant\<close>, \<^verbatim>\<open>Region_System\<close>: allocation and release of regions, the contract
    \<open>region_backing\<close> of the three kinds of region, the invariant that ties the table to the page
    tables and the frames, and runs of the manager: regions never overlap, every run can be
    drained without a leak, a second drop panics.
  \<^item> \<^verbatim>\<open>Free_List\<close>, \<^verbatim>\<open>Simple_Allocator\<close>: the kernel heap.
  \<^item> \<^verbatim>\<open>Task_Directory\<close>, \<^verbatim>\<open>Scheduler\<close>, \<^verbatim>\<open>Scheduler_Invariant\<close>: process ids, ready lists with the contract
    \<open>task_pool\<close>, context switches, and the step relation of the CPUs with its invariant.
  \<^item> \<^verbatim>\<open>Paging_Init\<close>: \<^verbatim>\<open>init\<close> of \<^verbatim>\<open>paging/mod.rs\<close>. A hardware page \<open>walk\<close> finds every physical address below
    4 GiB in the identity map, the image is mapped as the boot loader had it, and the block of thread
    locals is filled; the boot loader's tables are shown to be untouched while the new tree grows.
  \<^item> \<^verbatim>\<open>Descriptor_Tables\<close>: \<^verbatim>\<open>gdt.rs\<close> and \<^verbatim>\<open>idt.rs\<close>, with the segment, table and task registers of a CPU.
  \<^item> \<^verbatim>\<open>Io_Apic\<close>, \<^verbatim>\<open>Local_Devices\<close>: \<^verbatim>\<open>devices\<close>, \<^verbatim>\<open>ipi.rs\<close> and the effect of the interrupt handlers on the
    devices. The legacy interrupts reach their vectors and inter-processor interrupts their handlers.
  \<^item> \<^verbatim>\<open>Interrupt_Entry\<close>: the entry sequences of \<^verbatim>\<open>interrupts/interrupt_macros.rs\<close> as instruction lists. An
    interrupt is transparent for the registers of the interrupted code but loses the FS base.
  \<^item> \<^verbatim>\<open>Vga_Buffer\<close>: \<^verbatim>\<open>vga_buffer.rs\<close>, equal to a reference that scrolls a list of rows.

  \<^bold>\<open>Bounds.\<close> No definition uses fuel: every loop of the source is a structural recursion or a function
  with a termination proof. Allocation theorems ask for enough free frames to build the page tables
  (four per page and one for the region table) and for those frames to be zero, because the kernel
  does not clear a frame before it links it as a page table.

  \<^bold>\<open>Not modelled.\<close> Starting the other CPUs (\<^verbatim>\<open>start_aps\<close> and the assembly trampoline), the ACPI glue and the
  serial line, which only call third-party crates, the port instructions, the boot sequence of
  \<^verbatim>\<open>init.rs\<close> that calls the initialisations above in order, and formatting of messages.
\<close>

end
